(* ===== verification/Prelude.thy ===== *)
theory Prelude
  imports Main "HOL-Library.Word" "HOL-Library.Char_ord" "HOL-Library.List_Lexorder"
    "HOL-Library.Product_Lexorder" "HOL-Library.Multiset"
begin

text \<open>
  Shared vocabulary of the development: the machine integer types of the C sources, C strings as
  character lists (the terminating NUL is the end of the list), the string routines of the C
  library that several programs call, and the locale of C comparison functions as \<open>qsort\<close> and the
  version comparison use them.
\<close>

unbundle bit_operations_syntax

type_synonym byte = "8 word"
type_synonym u32 = "32 word"
type_synonym u64 = "64 word"

named_theorems cstring_simps \<open>unfolding rules of the C string routines\<close>

lemma unat_word_of_nat_32: "unat (word_of_nat n :: u32) = n mod 2 ^ 32"
  by (simp add: unsigned_of_nat take_bit_eq_mod)

lemma unat_word_of_nat_small: "n < 2 ^ 32 \<Longrightarrow> unat (word_of_nat n :: u32) = n"
  by (simp add: unat_word_of_nat_32)

section \<open>C strings\<close>

text \<open>The bytes of a string, without the terminating NUL.\<close>

definition bytes_of :: "string \<Rightarrow> byte list" where
  "bytes_of s = map (\<lambda>c. word_of_nat (of_char c)) s"

lemma length_bytes_of [simp]: "length (bytes_of s) = length s"
  by (simp add: bytes_of_def)

lemma bytes_of_Nil [simp]: "bytes_of [] = []"
  by (simp add: bytes_of_def)

lemma bytes_of_append [simp]: "bytes_of (s @ t) = bytes_of s @ bytes_of t"
  by (simp add: bytes_of_def)

text \<open>\<open>strcmp\<close>: the difference of the first two unequal bytes, the end of a string counting as 0.\<close>

fun strcmp :: "string \<Rightarrow> string \<Rightarrow> int" where
  "strcmp [] [] = 0"
| "strcmp (a # as) [] = of_char a"
| "strcmp [] (b # bs) = - of_char b"
| "strcmp (a # as) (b # bs) = (if a = b then strcmp as bs else of_char a - of_char b)"

text \<open>\<open>strncmp\<close> looks at no more than \<open>n\<close> characters.\<close>

definition strncmp :: "string \<Rightarrow> string \<Rightarrow> nat \<Rightarrow> int" where
  "strncmp a b n = strcmp (take n a) (take n b)"

text \<open>No character of a C string is the NUL character.\<close>

definition cstring :: "string \<Rightarrow> bool" where
  "cstring s \<longleftrightarrow> CHR 0x00 \<notin> set s"

lemma cstring_Nil [simp]: "cstring []"
  by (simp add: cstring_def)

lemma cstring_Cons [simp]: "cstring (c # s) \<longleftrightarrow> c \<noteq> CHR 0x00 \<and> cstring s"
  by (auto simp: cstring_def)

lemma cstring_append [simp]: "cstring (s @ t) \<longleftrightarrow> cstring s \<and> cstring t"
  by (auto simp: cstring_def)

lemma cstring_take [intro]: "cstring s \<Longrightarrow> cstring (take n s)"
  by (auto simp: cstring_def dest: in_set_takeD)

lemma of_char_eq_0_iff: "(of_char c :: int) = 0 \<longleftrightarrow> c = CHR 0x00"
proof -
  have "(of_char c :: int) = of_char CHR 0x00 \<longleftrightarrow> c = CHR 0x00"
    by (simp only: of_char_eq_iff)
  then show ?thesis by simp
qed

lemma of_char_nonneg: "0 \<le> (of_char c :: int)"
proof -
  have "int (of_char c) = of_char c" by (rule of_nat_of_char)
  then show ?thesis by linarith
qed

lemma of_char_pos: "c \<noteq> CHR 0x00 \<Longrightarrow> 0 < (of_char c :: int)"
  using of_char_eq_0_iff [of c] of_char_nonneg [of c] by linarith

lemma less_char_iff: "c < d \<longleftrightarrow> (of_char c :: int) < of_char d"
proof -
  have "c < d \<longleftrightarrow> (of_char c :: nat) < of_char d" by (simp add: less_char_def)
  also have "\<dots> \<longleftrightarrow> int (of_char c) < int (of_char d)" by simp
  finally show ?thesis by (simp only: of_nat_of_char)
qed

lemma strcmp_refl [simp]: "strcmp s s = 0"
  by (induction s) auto

lemma strcmp_eq_0_iff: "cstring s \<Longrightarrow> cstring t \<Longrightarrow> strcmp s t = 0 \<longleftrightarrow> s = t"
  by (induction s t rule: strcmp.induct) (auto simp: of_char_eq_0_iff)

lemma strcmp_less_iff: "cstring s \<Longrightarrow> cstring t \<Longrightarrow> strcmp s t < 0 \<longleftrightarrow> s < t"
  by (induction s t rule: strcmp.induct)
    (auto simp: less_char_iff of_char_pos dest: of_char_pos, (use of_char_nonneg in \<open>force simp: not_less\<close>)?)

lemma inj_char_byte: "(word_of_nat (of_char c) :: byte) = word_of_nat (of_char d) \<longleftrightarrow> c = d"
proof -
  have "(of_char c :: nat) < 256" for c
    using of_char_mod_256 [of c, where 'a = nat] by (metis mod_less_divisor zero_less_numeral)
  then have "unat (word_of_nat (of_char c) :: byte) = of_char c" for c
    by (simp add: unsigned_of_nat take_bit_nat_eq_self)
  then show ?thesis by (metis of_char_eq_iff)
qed

lemma bytes_of_eq_iff: "bytes_of s = bytes_of t \<longleftrightarrow> s = t"
proof -
  have "inj (\<lambda>c. word_of_nat (of_char c) :: byte)"
    by (rule injI) (simp only: inj_char_byte)
  then show ?thesis by (simp add: bytes_of_def inj_map_eq_map)
qed

lemma zero_notin_bytes_of: "cstring s \<Longrightarrow> 0 \<notin> set (bytes_of s)"
proof
  assume "cstring s" and "0 \<in> set (bytes_of s)"
  then obtain c where c: "c \<in> set s" "word_of_nat (of_char c) = (0 :: byte)"
    by (auto simp: bytes_of_def)
  have "(256 :: nat) dvd of_char c"
    using c(2) by (simp add: word_of_nat_eq_0_iff)
  then have "(of_char c :: nat) = 0"
    by (metis dvd_imp_mod_0 of_char_mod_256)
  moreover have "(of_char c :: int) = int (of_char c)" by (simp only: of_nat_of_char)
  ultimately have "(of_char c :: int) = 0" by simp
  then show False using c(1) \<open>cstring s\<close> by (simp add: of_char_eq_0_iff cstring_def)
qed

lemma take_bytes_of: "take n (bytes_of s) = bytes_of (take n s)"
  by (simp add: bytes_of_def take_map)

lemma drop_bytes_of: "drop n (bytes_of s) = bytes_of (drop n s)"
  by (simp add: bytes_of_def drop_map)

section \<open>Comparison functions and qsort\<close>

text \<open>
  The C library's \<open>qsort\<close>, as an insertion sort by the comparison function it is given. The C
  standard leaves the order of elements that compare equal open; the callers here only sort
  strings by \<open>strcmp\<close>, where such elements are identical.
\<close>

fun qsort_insert :: "('a \<Rightarrow> 'a \<Rightarrow> int) \<Rightarrow> 'a \<Rightarrow> 'a list \<Rightarrow> 'a list" where
  "qsort_insert cmp x [] = [x]"
| "qsort_insert cmp x (y # ys) =
     (if cmp x y \<le> 0 then x # y # ys else y # qsort_insert cmp x ys)"

fun qsort :: "('a \<Rightarrow> 'a \<Rightarrow> int) \<Rightarrow> 'a list \<Rightarrow> 'a list" where
  "qsort cmp [] = []"
| "qsort cmp (x # xs) = qsort_insert cmp x (qsort cmp xs)"

lemma mset_qsort_insert [simp]: "mset (qsort_insert cmp x ys) = add_mset x (mset ys)"
  by (induction ys) auto

lemma mset_qsort [simp]: "mset (qsort cmp xs) = mset xs"
  by (induction xs) auto

lemma set_qsort [simp]: "set (qsort cmp xs) = set xs"
  by (metis mset_qsort set_mset_mset)

lemma length_qsort [simp]: "length (qsort cmp xs) = length xs"
  by (metis mset_qsort size_mset)

text \<open>
  What \<open>qsort\<close> relies on: the sign of the comparison is a total preorder on the elements in use.
\<close>

locale comparison =
  fixes cmp :: "'a \<Rightarrow> 'a \<Rightarrow> int" and ok :: "'a \<Rightarrow> bool"
  assumes antisym: "ok a \<Longrightarrow> ok b \<Longrightarrow> sgn (cmp a b) = - sgn (cmp b a)"
    and trans: "ok a \<Longrightarrow> ok b \<Longrightarrow> ok c \<Longrightarrow> cmp a b \<le> 0 \<Longrightarrow> cmp b c \<le> 0 \<Longrightarrow> cmp a c \<le> 0"
begin

lemma refl: "ok a \<Longrightarrow> cmp a a = 0"
  using antisym [of a a] by (simp add: sgn_if split: if_splits)

lemma le_total: "ok a \<Longrightarrow> ok b \<Longrightarrow> cmp a b \<le> 0 \<or> cmp b a \<le> 0"
  using antisym [of a b] by (auto simp: sgn_if split: if_splits)

lemma eq_sym: "ok a \<Longrightarrow> ok b \<Longrightarrow> cmp a b = 0 \<longleftrightarrow> cmp b a = 0"
  using antisym [of a b] by (auto simp: sgn_if split: if_splits)

lemma pos_iff: "ok a \<Longrightarrow> ok b \<Longrightarrow> 0 < cmp a b \<longleftrightarrow> cmp b a < 0"
  using antisym [of a b] by (auto simp: sgn_if split: if_splits)

lemma sorted_insert:
  assumes "ok x" and "\<forall>y\<in>set ys. ok y" and "sorted_wrt (\<lambda>a b. cmp a b \<le> 0) ys"
  shows "sorted_wrt (\<lambda>a b. cmp a b \<le> 0) (qsort_insert cmp x ys)"
  using assms
proof (induction ys)
  case Nil
  then show ?case by simp
next
  case (Cons y ys)
  show ?case
  proof (cases "cmp x y \<le> 0")
    case True
    then show ?thesis using Cons.prems by (auto intro: trans)
  next
    case False
    with Cons.prems have "cmp y x \<le> 0" using le_total by auto
    moreover have "set (qsort_insert cmp x ys) = insert x (set ys)"
      by (metis mset_qsort_insert set_mset_add_mset_insert set_mset_mset)
    ultimately show ?thesis using False Cons by auto
  qed
qed

lemma sorted_qsort:
  "\<forall>x\<in>set xs. ok x \<Longrightarrow> sorted_wrt (\<lambda>a b. cmp a b \<le> 0) (qsort cmp xs)"
  by (induction xs) (auto intro: sorted_insert)

end

text \<open>A comparison that tells all elements apart: then \<open>qsort\<close> ignores the order it is given.\<close>

locale strict_comparison = comparison +
  assumes eq_iff: "ok a \<Longrightarrow> ok b \<Longrightarrow> cmp a b = 0 \<Longrightarrow> a = b"
begin

lemma sorted_unique:
  assumes "mset xs = mset ys" and "\<forall>x\<in>set xs. ok x"
    and "sorted_wrt (\<lambda>a b. cmp a b \<le> 0) xs" and "sorted_wrt (\<lambda>a b. cmp a b \<le> 0) ys"
  shows "xs = ys"
  using assms
proof (induction xs arbitrary: ys)
  case Nil
  then show ?case by simp
next
  case (Cons x xs)
  then obtain y zs where ys: "ys = y # zs"
    by (cases ys) auto
  have sets: "set (x # xs) = set (y # zs)"
    using Cons.prems(1) ys by (metis mset_eq_setD)
  have okall: "\<forall>z\<in>set (y # zs). ok z"
    using Cons.prems(2) unfolding sets .
  have "x = y"
  proof (rule ccontr)
    assume ne: "x \<noteq> y"
    with sets have "x \<in> set zs" and "y \<in> set xs" by auto
    with Cons.prems(3,4) ys have "cmp y x \<le> 0" and "cmp x y \<le> 0" by auto
    moreover have "ok x" and "ok y" using Cons.prems(2) okall by auto
    ultimately have "cmp x y = 0"
      using pos_iff [of y x] by linarith
    with ne eq_iff \<open>ok x\<close> \<open>ok y\<close> show False by blast
  qed
  then show ?case using Cons ys by auto
qed

lemma qsort_perm:
  assumes "mset xs = mset ys" and "\<forall>x\<in>set xs. ok x"
  shows "qsort cmp xs = qsort cmp ys"
proof (rule sorted_unique)
  have "set xs = set ys" using assms(1) by (metis set_mset_mset)
  then show "sorted_wrt (\<lambda>a b. cmp a b \<le> 0) (qsort cmp ys)"
    using assms(2) by (intro sorted_qsort) simp
qed (use assms in \<open>auto intro: sorted_qsort\<close>)

end

text \<open>A comparison that reads off a linear order through a key is one.\<close>

lemma comparison_by_key:
  fixes key :: "'a \<Rightarrow> 'k::linorder"
  assumes less: "\<And>a b. ok a \<Longrightarrow> ok b \<Longrightarrow> cmp a b < 0 \<longleftrightarrow> key a < key b"
    and eq: "\<And>a b. ok a \<Longrightarrow> ok b \<Longrightarrow> cmp a b = 0 \<longleftrightarrow> key a = key b"
  shows "comparison cmp ok"
proof
  fix a b assume "ok a" "ok b"
  then show "sgn (cmp a b) = - sgn (cmp b a)"
    using less [of a b] less [of b a] eq [of a b] eq [of b a]
    by (cases "key a" "key b" rule: linorder_cases) (auto simp: sgn_if)
next
  fix a b c assume ok: "ok a" "ok b" "ok c" and "cmp a b \<le> 0" "cmp b c \<le> 0"
  have le: "cmp x y \<le> 0 \<longleftrightarrow> key x \<le> key y" if "ok x" "ok y" for x y
    using less [OF that] eq [OF that] by (auto simp: le_less)
  from ok \<open>cmp a b \<le> 0\<close> \<open>cmp b c \<le> 0\<close> have "key a \<le> key b" "key b \<le> key c"
    by (simp_all add: le)
  with ok show "cmp a c \<le> 0" by (simp add: le)
qed

interpretation strcmp: strict_comparison strcmp cstring
proof -
  have "comparison strcmp cstring"
    by (rule comparison_by_key [where key = "\<lambda>s. s"])
      (simp_all add: strcmp_less_iff strcmp_eq_0_iff)
  then show "strict_comparison strcmp cstring"
    by (intro strict_comparison.intro strict_comparison_axioms.intro)
      (simp_all add: strcmp_eq_0_iff)
qed

section \<open>Bits of words\<close>

lemma upt_32: "[0..<32] = [0 :: nat, 1, 2, 3, 4, 5, 6, 7, 8, 9, 10, 11, 12, 13, 14, 15, 16, 17, 18, 19, 20, 21, 22, 23, 24, 25, 26, 27, 28, 29, 30, 31]"
  by (simp add: upt_rec)

lemma upt_64: "[0..<64] = [0 :: nat, 1, 2, 3, 4, 5, 6, 7, 8, 9, 10, 11, 12, 13, 14, 15, 16, 17, 18, 19, 20, 21, 22, 23, 24, 25, 26, 27, 28, 29, 30, 31,
    32, 33, 34, 35, 36, 37, 38, 39, 40, 41, 42, 43, 44, 45, 46, 47, 48, 49, 50, 51, 52, 53, 54, 55, 56, 57, 58, 59, 60, 61, 62, 63]"
  by (simp add: upt_rec)

lemma word_eq_upt: "(\<forall>n\<in>set [0..<LENGTH('a)]. bit v n = bit w n) \<Longrightarrow> v = (w :: 'a::len word)"
  by (rule bit_word_eqI) simp

lemma bit_byte: "8 \<le> n \<Longrightarrow>
    \<not> bit (c :: byte) n"
  using bit_imp_le_length by fastforce

lemma unat_less: "unat (x :: 'a::len word) < 2 ^ LENGTH('a)"
  by (rule unsigned_less)

lemma bit_shift: "bit v n \<Longrightarrow> \<not> bit v (k + (n - k)) \<Longrightarrow> n < (k :: nat)"
  by (metis le_add_diff_inverse not_less)

lemma bit_0x80: "bit (0x80 :: 'a::len word) n \<longleftrightarrow> n = 7 \<and> 7 < LENGTH('a)" "bit (0x80 :: int) n \<longleftrightarrow> n = 7" "bit (0x80 :: nat) n \<longleftrightarrow> n = 7"
proof -
  have "(0x80 :: 'a word) = push_bit 7 1" "(0x80 :: int) = push_bit 7 1" "(0x80 :: nat) = push_bit 7 1" by simp_all
  then show "bit (0x80 :: 'a::len word) n \<longleftrightarrow> n = 7 \<and> 7 < LENGTH('a)" "bit (0x80 :: int) n \<longleftrightarrow> n = 7" "bit (0x80 :: nat) n \<longleftrightarrow> n = 7"
    by (simp_all only: bit_simps) auto
qed

end
