(* ===== verification/Libc.thy ===== *)
theory Libc
  imports Prelude
begin

text \<open>
  What the programs use of the C library beside the comparison of strings: classification of
  characters in the C locale, \<open>strtol\<close> and \<open>strtoul\<close>, the conversion \<open>%x\<close> of \<open>printf\<close>. Also loops
  that may end the program, and padding with zero bytes.
\<close>

section \<open>Numbers in strings\<close>

definition isdigit :: "char \<Rightarrow> bool" where
  "isdigit c \<longleftrightarrow> CHR ''0'' \<le> c \<and> c \<le> CHR ''9''"

definition isalpha :: "int \<Rightarrow> bool" where
  "isalpha n \<longleftrightarrow> (65 \<le> n \<and> n \<le> 90) \<or> (97 \<le> n \<and> n \<le> 122)"

definition isspace :: "char \<Rightarrow> bool" where
  "isspace c \<longleftrightarrow> c = CHR 0x20 \<or> (CHR 0x09 \<le> c \<and> c \<le> CHR 0x0D)"

fun digits_val :: "nat \<Rightarrow> string \<Rightarrow> nat" where
  "digits_val acc [] = acc"
| "digits_val acc (c # cs) =
     (if isdigit c then digits_val (10 * acc + (of_char c - 48)) cs else acc)"

text \<open>
  \<open>strtol\<close> in base 10, on a string that starts with a digit: the value, capped at \<open>LONG_MAX\<close>, and
  the rest of the string.
\<close>

definition strtol10 :: "int \<Rightarrow> string \<Rightarrow> int \<times> string" where
  "strtol10 long_max s = (min long_max (int (digits_val 0 s)), dropWhile isdigit s)"

text \<open>
  \<open>strtoul\<close> in base 10: leading white space, an optional sign, digits. The result is capped at
  \<open>ULONG_MAX\<close>; a minus sign negates modulo \<open>ULONG_MAX + 1\<close>. Without digits the value is 0 and the
  end pointer is the start. The end pointer is given as the number of characters consumed.
\<close>

definition strtoul10 :: "nat \<Rightarrow> string \<Rightarrow> nat \<times> nat" where
  "strtoul10 ulong_max s =
     (let s1 = dropWhile isspace s;
          neg = (s1 \<noteq> [] \<and> hd s1 = CHR ''-'');
          s2 = (if s1 \<noteq> [] \<and> (hd s1 = CHR ''-'' \<or> hd s1 = CHR ''+'') then tl s1 else s1);
          v = digits_val 0 s2;
          rest = dropWhile isdigit s2
      in if s2 = [] \<or> \<not> isdigit (hd s2) then (0, 0)
         else (if ulong_max < v then ulong_max
               else if neg \<and> v \<noteq> 0 then ulong_max + 1 - v else v,
               length s - length rest))"

text \<open>
  \<open>strtoul\<close> in base 16, of which the callers only use the value: white space, a sign, an optional
  prefix \<open>0x\<close>, digits.
\<close>

definition hex_value :: "char \<Rightarrow> nat option" where
  "hex_value c =
     (if isdigit c then Some (of_char c - 48)
      else if CHR ''a'' \<le> c \<and> c \<le> CHR ''f'' then Some (of_char c - 87)
      else if CHR ''A'' \<le> c \<and> c \<le> CHR ''F'' then Some (of_char c - 55)
      else None)"

fun hex_digits_val :: "nat \<Rightarrow> string \<Rightarrow> nat" where
  "hex_digits_val acc [] = acc"
| "hex_digits_val acc (c # cs) =
     (case hex_value c of None \<Rightarrow> acc | Some d \<Rightarrow> hex_digits_val (16 * acc + d) cs)"

definition strtoul16 :: "nat \<Rightarrow> string \<Rightarrow> nat" where
  "strtoul16 ulong_max s =
     (let s1 = dropWhile isspace s;
          neg = (s1 \<noteq> [] \<and> hd s1 = CHR ''-'');
          s2 = (if s1 \<noteq> [] \<and> (hd s1 = CHR ''-'' \<or> hd s1 = CHR ''+'') then tl s1 else s1);
          s3 = (if take 2 s2 = ''0x'' \<or> take 2 s2 = ''0X'' then drop 2 s2 else s2);
          v = hex_digits_val 0 s3
      in if ulong_max < v then ulong_max
         else if neg \<and> v \<noteq> 0 then ulong_max + 1 - v else v)"

section \<open>Printing numbers\<close>

text \<open>\<open>%08x\<close> and \<open>%06x\<close>: lower case digits, padded with zeros.\<close>

definition hex_digit :: "nat \<Rightarrow> byte" where
  "hex_digit d = (if d < 10 then word_of_nat (48 + d) else word_of_nat (87 + d))"

fun hex :: "nat \<Rightarrow> u32 \<Rightarrow> byte list" where
  "hex 0 w = []"
| "hex (Suc n) w = hex_digit (unat (drop_bit (4 * n) w AND 15)) # hex n w"

lemma length_hex [simp]: "length (hex n w) = n"
  by (induction n) auto

section \<open>Loops that may end the program\<close>

text \<open>A loop whose body may end the program.\<close>

fun run_all :: "('a \<Rightarrow> 's \<Rightarrow> 'e + 's) \<Rightarrow> 'a list \<Rightarrow> 's \<Rightarrow> 'e + 's" where
  "run_all f [] s = Inr s"
| "run_all f (x # xs) s = (case f x s of Inl e \<Rightarrow> Inl e | Inr s' \<Rightarrow> run_all f xs s')"

lemma run_all_cong [fundef_cong]:
  assumes "xs = ys" and "s = t" and "\<And>x s. x \<in> set ys \<Longrightarrow> f x s = g x s"
  shows "run_all f xs s = run_all g ys t"
proof -
  have "run_all f ys t = run_all g ys t"
    using assms(3) by (induction ys arbitrary: t) (auto split: sum.split)
  with assms(1,2) show ?thesis by simp
qed

section \<open>Padding\<close>

definition pad_len :: "nat \<Rightarrow> nat \<Rightarrow> nat" where
  "pad_len a n = (a - n mod a) mod a"

definition zeros :: "nat \<Rightarrow> byte list" where
  "zeros n = replicate n 0"

lemma length_zeros [simp]: "length (zeros n) = n"
  by (simp add: zeros_def)

lemma zeros_0 [simp]: "zeros 0 = []"
  by (simp add: zeros_def)

lemma zeros_Suc: "0 # zeros n = zeros (Suc n)"
  by (simp add: zeros_def)

lemma zeros_add: "zeros m @ zeros n = zeros (m + n)"
  by (simp add: zeros_def replicate_add)

lemma pad_len_0 [simp]: "a dvd n \<Longrightarrow> pad_len a n = 0"
  by (simp add: pad_len_def)

lemma pad_len_Suc: "0 < a \<Longrightarrow> n mod a \<noteq> 0 \<Longrightarrow> pad_len a n = Suc (pad_len a (Suc n))"
  by (cases "Suc (n mod a) = a") (auto simp: pad_len_def mod_Suc Suc_diff_Suc)

lemma dvd_add_pad: "0 < a \<Longrightarrow> a dvd n + pad_len a n"
proof (cases "n mod a = 0")
  case False
  assume "0 < a"
  with False have "pad_len a n = a - n mod a" by (simp add: pad_len_def)
  moreover have "n mod a < a" using \<open>0 < a\<close> by simp
  moreover have "n = n div a * a + n mod a" by simp
  ultimately have "n + pad_len a n = (n div a + 1) * a"
    by (metis add.assoc add_mult_distrib le_add_diff_inverse less_imp_le_nat mult_1)
  then show ?thesis by simp
qed auto

lemma pad_len_less: "0 < a \<Longrightarrow> pad_len a n < a"
  by (simp add: pad_len_def)

lemma pad_len_le:
  assumes "a dvd n + m"
  shows "pad_len a n \<le> m"
proof (cases "a = 0")
  case False
  show ?thesis
  proof (rule ccontr)
    assume "\<not> pad_len a n \<le> m"
    moreover have "a dvd (n + pad_len a n) - (n + m)"
      using assms False dvd_add_pad [of a n] by (intro dvd_diff_nat) auto
    ultimately have "a \<le> pad_len a n - m" by (intro dvd_imp_le) auto
    with pad_len_less [of a n] False show False by linarith
  qed
qed (use assms in \<open>simp add: pad_len_def\<close>)

lemma pad_len_add_dvd: "a dvd m \<Longrightarrow> pad_len a (m + n) = pad_len a n"
  by (simp add: pad_len_def mod_add_eq [symmetric] dvd_eq_mod_eq_0 flip: mod_add_left_eq)

end
