(* ===== verification/Vercmp.thy ===== *)
theory Vercmp
  imports Libc
begin

text \<open>
  The version comparison of \<open>bin/opkg-utils/opkg-compare-versions.c\<close>: \<open>verrevcmp\<close>,
  \<open>versioncompare\<close>, \<open>versionsatisfied3\<close>, \<open>parseversion\<close> and \<open>main\<close>. A \<open>char *\<close> that the code
  advances is the suffix of the string it points at. The functions take the largest \<open>long\<close> of
  the target as a parameter, because \<open>verrevcmp\<close> subtracts two \<open>long\<close> values and returns the
  difference as an \<open>int\<close>.
\<close>

section \<open>Conversions\<close>

text \<open>Conversion of a \<open>long\<close> to a 32-bit \<open>int\<close>.\<close>

definition to_int :: "int \<Rightarrow> int" where
  "to_int x = (x + 2 ^ 31) mod 2 ^ 32 - 2 ^ 31"

text \<open>\<open>strchr(".-", c)\<close> is not null: the terminating NUL counts as part of the string.\<close>

definition is_sep :: "int \<Rightarrow> bool" where
  "is_sep c \<longleftrightarrow> c = 46 \<or> c = 45 \<or> c = 0"

text \<open>The value of \<open>*p\<close>.\<close>

definition peek :: "string \<Rightarrow> int" where
  "peek s = (case s of [] \<Rightarrow> 0 | c # _ \<Rightarrow> of_char c)"

section \<open>verrevcmp\<close>

text \<open>The non-letters come after the letters.\<close>

definition char_order :: "int \<Rightarrow> int" where
  "char_order vc = (if vc \<noteq> 0 \<and> \<not> isalpha vc then vc + 256 else vc)"

text \<open>
  The inner loop over the parts before the next digit: \<open>None\<close> for its \<open>break\<close>, \<open>Some\<close> for its
  \<open>return\<close>.
\<close>

function prefix_loop :: "string \<Rightarrow> string \<Rightarrow> int option" where
  "prefix_loop val ref =
     (let vc = peek val; rc = peek ref in
      if rc = 0 \<and> vc = 0 then None
      else if char_order vc \<noteq> char_order rc then Some (char_order vc - char_order rc)
      else prefix_loop (tl val) (tl ref))"
  by pat_completeness auto
termination
  by (relation "measure (\<lambda>(val, ref). length val + length ref)")
    (auto simp: peek_def split: list.splits)

declare prefix_loop.simps [simp del]

lemma length_dropWhile_lt: "xs \<noteq> [] \<Longrightarrow> P (hd xs) \<Longrightarrow> length (dropWhile P xs) < length xs"
  by (cases xs) (auto simp: le_imp_less_Suc length_dropWhile_le)

text \<open>The numeric part at \<open>vp\<close>: its value, 0 if there is none, and where \<open>val\<close> points afterwards.\<close>

definition next_number :: "int \<Rightarrow> string \<Rightarrow> int \<times> string" where
  "next_number long_max vp =
     (if vp \<noteq> [] \<and> isdigit (hd vp) then strtol10 long_max vp else (0, vp))"

lemma snd_next_number [simp]: "snd (next_number long_max vp) = dropWhile isdigit vp"
  by (cases vp) (auto simp: next_number_def strtol10_def)

lemma fst_next_number:
  "0 \<le> long_max \<Longrightarrow> fst (next_number long_max vp) = min long_max (int (digits_val 0 vp))"
  by (cases vp) (auto simp: next_number_def strtol10_def)

text \<open>What follows the current non-digit and digit parts.\<close>

definition skip_parts :: "string \<Rightarrow> string" where
  "skip_parts s = dropWhile isdigit (dropWhile (\<lambda>c. \<not> isdigit c) s)"

lemma length_skip_parts: "s \<noteq> [] \<Longrightarrow> length (skip_parts s) < length s"
proof (cases "isdigit (hd s)")
  case True
  assume "s \<noteq> []"
  with True show ?thesis
    by (cases s) (auto simp: skip_parts_def le_imp_less_Suc length_dropWhile_le)
next
  case False
  assume "s \<noteq> []"
  with False have "length (dropWhile (\<lambda>c. \<not> isdigit c) s) < length s"
    by (simp add: length_dropWhile_lt)
  then show ?thesis
    unfolding skip_parts_def by (meson length_dropWhile_le le_less_trans)
qed

function verrevcmp :: "int \<Rightarrow> string \<Rightarrow> string \<Rightarrow> int" where
  "verrevcmp long_max val ref =
     (let vp = dropWhile (\<lambda>c. \<not> isdigit c) val;
          rp = dropWhile (\<lambda>c. \<not> isdigit c) ref
      in case prefix_loop (takeWhile (\<lambda>c. \<not> isdigit c) val) (takeWhile (\<lambda>c. \<not> isdigit c) ref) of
           Some r \<Rightarrow> r
         | None \<Rightarrow>
            (let (vl, val') = next_number long_max vp;
                 (rl, ref') = next_number long_max rp
             in if vl \<noteq> rl then to_int (vl - rl)
                else let vsep = is_sep (peek val'); rsep = is_sep (peek ref') in
                     if vsep \<and> \<not> rsep then -1
                     else if \<not> vsep \<and> rsep then 1
                     else if val' = [] \<and> ref' = [] then 0
                     else if val' = [] then -1
                     else if ref' = [] then 1
                     else verrevcmp long_max val' ref'))"
  by pat_completeness auto
termination
proof (relation "measure (\<lambda>(long_max, val, ref). length val)", goal_cases)
  case 1
  show ?case by simp
next
  case (2 long_max val ref vp rp v vl val' w rl ref' vsep rsep)
  then have "val' = snd (next_number long_max vp)" by (metis snd_conv)
  with 2 have "val' = skip_parts val" by (simp add: skip_parts_def)
  moreover from this 2 have "val \<noteq> []"
    by (auto simp: skip_parts_def)
  ultimately show ?case by (simp add: length_skip_parts)
qed

declare verrevcmp.simps [simp del]

section \<open>The order that verrevcmp decides\<close>

text \<open>
  The order the routine promises, stated without its loops: a version is read as a list of parts,
  each the non-digits (letters before other characters), the number that follows, and a mark of
  what comes next (0 for the end, 1 for a separator, 2 for anything else); versions are ordered by
  their lists of parts, lexicographically.
\<close>

function version_parts :: "int \<Rightarrow> string \<Rightarrow> (int list \<times> int \<times> int) list" where
  "version_parts long_max s =
     (let p = takeWhile (\<lambda>c. \<not> isdigit c) s;
          n = min long_max (int (digits_val 0 (dropWhile (\<lambda>c. \<not> isdigit c) s)));
          s' = skip_parts s;
          mark = (if s' = [] then 0 else if is_sep (peek s') then 1 else 2)
      in (map (\<lambda>c. char_order (of_char c)) p, n, mark)
           # (if s' = [] then [] else version_parts long_max s'))"
  by pat_completeness auto
termination
proof (relation "measure (\<lambda>(long_max, s). length s)", goal_cases)
  case 1
  show ?case by simp
next
  case (2 long_max s)
  then have "s \<noteq> []" by (auto simp: skip_parts_def)
  with 2 show ?case by (simp add: length_skip_parts)
qed

declare version_parts.simps [simp del]

definition numbers_fit :: "int \<Rightarrow> string \<Rightarrow> bool" where
  "numbers_fit long_max s \<longleftrightarrow> (\<forall>part\<in>set (version_parts long_max s). fst (snd part) < 2 ^ 31)"

lemma char_order_inj:
  "char_order (of_char c) = char_order (of_char d) \<longleftrightarrow> (c::char) = d"
proof -
  have "(of_char c :: int) < 256" for c :: char
    using of_char_mod_256 [of c, where 'a = int]
    by (metis pos_mod_bound zero_less_numeral)
  from this [of c] this [of d] have "char_order (of_char c) = char_order (of_char d)
      \<longleftrightarrow> (of_char c :: int) = of_char d"
    using of_char_nonneg [of c] of_char_nonneg [of d]
    by (auto simp: char_order_def isalpha_def of_char_eq_0_iff)
  then show ?thesis by simp
qed

lemma char_order_pos: "c \<noteq> CHR 0x00 \<Longrightarrow> 0 < char_order (of_char c)"
  using of_char_pos [of c] by (simp add: char_order_def)

lemma char_order_0 [simp]: "char_order 0 = 0"
  by (simp add: char_order_def)

lemma peek_simps [simp]: "peek [] = 0" "peek (c # s) = of_char c"
  by (simp_all add: peek_def)

lemma prefix_loop_simps:
  "prefix_loop [] [] = None"
  "b \<noteq> CHR 0x00 \<Longrightarrow> prefix_loop [] (b # bs) = Some (- char_order (of_char b))"
  "a \<noteq> CHR 0x00 \<Longrightarrow> prefix_loop (a # as) [] = Some (char_order (of_char a))"
  "a \<noteq> CHR 0x00 \<Longrightarrow> prefix_loop (a # as) (b # bs) =
     (if a = b then prefix_loop as bs
      else Some (char_order (of_char a) - char_order (of_char b)))"
  using char_order_pos [of a] char_order_pos [of b] char_order_inj [of a b]
  by (subst prefix_loop.simps, simp add: of_char_eq_0_iff)+

lemma prefix_loop_spec:
  assumes "cstring p" and "cstring q"
  shows "(case prefix_loop p q of None \<Rightarrow> p = q
          | Some r \<Rightarrow> p \<noteq> q \<and> r \<noteq> 0 \<and>
             (r < 0 \<longleftrightarrow> map (\<lambda>c. char_order (of_char c)) p < map (\<lambda>c. char_order (of_char c)) q))"
  using assms
proof (induction p q rule: strcmp.induct)
  case (2 a as)
  then show ?case using char_order_pos [of a] by (simp add: prefix_loop_simps)
next
  case (3 b bs)
  then show ?case using char_order_pos [of b] by (simp add: prefix_loop_simps)
next
  case (4 a as b bs)
  then show ?case
    by (cases "a = b") (simp_all add: prefix_loop_simps char_order_inj split: option.splits)
qed (simp add: prefix_loop_simps)

lemma cstring_takeWhile: "cstring s \<Longrightarrow> cstring (takeWhile P s)"
  by (auto simp: cstring_def dest: set_takeWhileD)

lemma cstring_dropWhile: "cstring s \<Longrightarrow> cstring (dropWhile P s)"
  by (auto simp: cstring_def dest: set_dropWhileD)

lemma cstring_skip_parts: "cstring s \<Longrightarrow> cstring (skip_parts s)"
  by (simp add: skip_parts_def cstring_dropWhile)

lemma to_int_small: "- (2 ^ 31) \<le> x \<Longrightarrow> x < 2 ^ 31 \<Longrightarrow> to_int x = x"
  by (simp add: to_int_def)

declare less_prod_simp [simp del]

lemma less_pair_iff: "(a, b) < (c, d) \<longleftrightarrow> a < c \<or> a = (c :: 'a::linorder) \<and> b < (d :: 'b::linorder)"
  by (auto simp: less_prod_def le_less)

lemma is_sep_0: "is_sep 0"
  by (simp add: is_sep_def)

lemma map_char_order_inj:
  "map (\<lambda>c. char_order (of_char c)) p = map (\<lambda>c. char_order (of_char c)) q \<longleftrightarrow> p = (q :: string)"
  by (simp add: inj_on_def inj_map_eq_map char_order_inj)

lemma numbers_fit_skip:
  assumes "numbers_fit lm s" and "skip_parts s \<noteq> []"
  shows "numbers_fit lm (skip_parts s)"
  using assms by (simp add: numbers_fit_def Let_def version_parts.simps [of lm s])

text \<open>The loop decides exactly that order, when no number overflows the \<open>int\<close> result.\<close>

lemma verrevcmp_order:
  assumes "0 \<le> lm" and "cstring val" and "cstring ref"
    and "numbers_fit lm val" and "numbers_fit lm ref"
  shows "(verrevcmp lm val ref < 0 \<longleftrightarrow> version_parts lm val < version_parts lm ref) \<and>
    (verrevcmp lm val ref = 0 \<longleftrightarrow> version_parts lm val = version_parts lm ref)"
  using assms
proof (induction lm val ref rule: verrevcmp.induct)
  case (1 lm val ref)
  let ?nd = "\<lambda>c. \<not> isdigit c"
  let ?code = "map (\<lambda>c. char_order (of_char c)) :: string \<Rightarrow> int list"
  define vl where "vl = min lm (int (digits_val 0 (dropWhile ?nd val)))"
  define rl where "rl = min lm (int (digits_val 0 (dropWhile ?nd ref)))"
  have vn: "next_number lm (dropWhile ?nd val) = (vl, skip_parts val)"
    using "1.prems"(1) by (simp add: prod_eq_iff fst_next_number vl_def skip_parts_def)
  have rn: "next_number lm (dropWhile ?nd ref) = (rl, skip_parts ref)"
    using "1.prems"(1) by (simp add: prod_eq_iff fst_next_number rl_def skip_parts_def)
  define mark :: "string \<Rightarrow> int" where
    "mark s = (if s = [] then 0 else if is_sep (peek s) then 1 else 2)" for s
  define more where "more s = (if s = [] then [] else version_parts lm s)" for s
  have pv: "version_parts lm val = (?code (takeWhile ?nd val), vl, mark (skip_parts val))
      # more (skip_parts val)"
    by (simp add: version_parts.simps [of lm val] vl_def mark_def more_def)
  have pr: "version_parts lm ref = (?code (takeWhile ?nd ref), rl, mark (skip_parts ref))
      # more (skip_parts ref)"
    by (simp add: version_parts.simps [of lm ref] rl_def mark_def more_def)
  have cs: "cstring (takeWhile ?nd val)" "cstring (takeWhile ?nd ref)"
    using "1.prems" by (simp_all add: cstring_takeWhile)
  note spec = prefix_loop_spec [OF cs]
  show ?case
  proof (cases "prefix_loop (takeWhile ?nd val) (takeWhile ?nd ref)")
    case (Some r)
    with spec have "takeWhile ?nd val \<noteq> takeWhile ?nd ref" "r \<noteq> 0"
      "r < 0 \<longleftrightarrow> ?code (takeWhile ?nd val) < ?code (takeWhile ?nd ref)" by simp_all
    with Some show ?thesis
      by (simp add: verrevcmp.simps [of lm val ref] pv pr map_char_order_inj less_pair_iff
          del: takeWhile_eq_all_conv)
  next
    case None
    with spec have same: "takeWhile ?nd val = takeWhile ?nd ref" by simp
    show ?thesis
    proof (cases "vl = rl")
      case False
      have "vl < 2 ^ 31" "rl < 2 ^ 31" "0 \<le> vl" "0 \<le> rl"
        using "1.prems"(1,4,5) by (simp_all add: numbers_fit_def pv pr vl_def rl_def)
      then have "to_int (vl - rl) = vl - rl" by (intro to_int_small) simp_all
      with False None show ?thesis
        by (simp add: verrevcmp.simps [of lm val ref] vn rn pv pr same less_pair_iff)
    next
      case True
      show ?thesis
      proof (cases "mark (skip_parts val) = mark (skip_parts ref) \<and> skip_parts val \<noteq> []")
        case False
        have "verrevcmp lm val ref =
           (let vsep = is_sep (peek (skip_parts val)); rsep = is_sep (peek (skip_parts ref)) in
            if vsep \<and> \<not> rsep then -1 else if \<not> vsep \<and> rsep then 1
            else if skip_parts val = [] \<and> skip_parts ref = [] then 0
            else if skip_parts val = [] then -1 else if skip_parts ref = [] then 1
            else verrevcmp lm (skip_parts val) (skip_parts ref))"
          by (subst verrevcmp.simps)
            (simp only: None vn rn True Let_def prod.case option.case not_True_eq_False if_False
              simp_thms)
        then have "verrevcmp lm val ref =
            (if mark (skip_parts val) < mark (skip_parts ref) then -1
             else if mark (skip_parts val) = mark (skip_parts ref) then 0 else 1)"
          using False is_sep_0
          by (cases "skip_parts val = []"; cases "skip_parts ref = []";
              cases "is_sep (peek (skip_parts val))"; cases "is_sep (peek (skip_parts ref))")
            (simp_all add: mark_def)
        moreover have "mark (skip_parts val) = mark (skip_parts ref) \<Longrightarrow>
            more (skip_parts val) = more (skip_parts ref)"
          using False by (auto simp: mark_def more_def split: if_splits)
        ultimately show ?thesis
          using True by (auto simp: pv pr same less_pair_iff)
      next
        case marks: True
        then have ne: "skip_parts val \<noteq> []" "skip_parts ref \<noteq> []"
          and sep: "is_sep (peek (skip_parts val)) = is_sep (peek (skip_parts ref))"
          by (auto simp: mark_def split: if_splits)
        have step: "verrevcmp lm val ref = verrevcmp lm (skip_parts val) (skip_parts ref)"
          using None True ne sep
          by (simp add: verrevcmp.simps [of lm val ref] vn rn)
        have "(verrevcmp lm (skip_parts val) (skip_parts ref) < 0 \<longleftrightarrow>
              version_parts lm (skip_parts val) < version_parts lm (skip_parts ref)) \<and>
            (verrevcmp lm (skip_parts val) (skip_parts ref) = 0 \<longleftrightarrow>
              version_parts lm (skip_parts val) = version_parts lm (skip_parts ref))"
          by (rule "1.IH" [OF refl refl None vn [symmetric] refl rn [symmetric] refl])
            (use True ne sep "1.prems" in
              \<open>auto simp add: cstring_skip_parts numbers_fit_skip\<close>)
        then show ?thesis
          using marks True ne by (simp add: step pv pr same more_def less_pair_iff)
      qed
    qed
  qed
qed

lemma numbers_fit_32:
  assumes "0 \<le> lm" and "lm < 2 ^ 31"
  shows "numbers_fit lm s"
proof (induction s rule: length_induct)
  case (1 s)
  show ?case
  proof (cases "skip_parts s = []")
    case True
    then show ?thesis using assms(2)
      by (simp add: numbers_fit_def Let_def version_parts.simps [of lm s])
  next
    case False
    then have "s \<noteq> []" by (auto simp: skip_parts_def)
    with 1 have "numbers_fit lm (skip_parts s)" by (simp add: length_skip_parts)
    with False show ?thesis using assms(2)
      by (simp add: numbers_fit_def Let_def version_parts.simps [of lm s])
  qed
qed

interpretation verrev: comparison "verrevcmp lm" "\<lambda>s. cstring s \<and> numbers_fit lm s \<and> 0 \<le> lm"
  for lm
  by (rule comparison_by_key [where key = "version_parts lm"]) (simp_all add: verrevcmp_order)

section \<open>Versions\<close>

record versionrevision =
  epoch :: nat
  version :: string
  revision :: string

definition versioncompare :: "int \<Rightarrow> versionrevision \<Rightarrow> versionrevision \<Rightarrow> int" where
  "versioncompare long_max v refv =
     (if epoch v > epoch refv then 1
      else if epoch v < epoch refv then -1
      else let r = verrevcmp long_max (version v) (version refv) in
           if r \<noteq> 0 then r
           else verrevcmp long_max (revision v) (revision refv))"

definition version_ok :: "int \<Rightarrow> versionrevision \<Rightarrow> bool" where
  "version_ok lm v \<longleftrightarrow> 0 \<le> lm \<and> cstring (version v) \<and> cstring (revision v) \<and>
     numbers_fit lm (version v) \<and> numbers_fit lm (revision v)"

text \<open>The abstract version: epoch first, then the parts of the version, then of the revision.\<close>

definition version_key ::
    "int \<Rightarrow> versionrevision \<Rightarrow> nat \<times> (int list \<times> int \<times> int) list \<times> (int list \<times> int \<times> int) list" where
  "version_key lm v = (epoch v, version_parts lm (version v), version_parts lm (revision v))"

lemma versioncompare_order:
  assumes "version_ok lm v" and "version_ok lm w"
  shows "versioncompare lm v w < 0 \<longleftrightarrow> version_key lm v < version_key lm w"
    and "versioncompare lm v w = 0 \<longleftrightarrow> version_key lm v = version_key lm w"
proof -
  have v: "verrevcmp lm (version v) (version w) < 0 \<longleftrightarrow>
        version_parts lm (version v) < version_parts lm (version w)"
      "verrevcmp lm (version v) (version w) = 0 \<longleftrightarrow>
        version_parts lm (version v) = version_parts lm (version w)"
    and r: "verrevcmp lm (revision v) (revision w) < 0 \<longleftrightarrow>
        version_parts lm (revision v) < version_parts lm (revision w)"
      "verrevcmp lm (revision v) (revision w) = 0 \<longleftrightarrow>
        version_parts lm (revision v) = version_parts lm (revision w)"
    using assms verrevcmp_order by (simp_all add: version_ok_def)
  show "versioncompare lm v w < 0 \<longleftrightarrow> version_key lm v < version_key lm w"
    "versioncompare lm v w = 0 \<longleftrightarrow> version_key lm v = version_key lm w"
    using v r by (auto simp: versioncompare_def version_key_def less_pair_iff Let_def)
qed

interpretation vercmp: comparison "versioncompare lm" "version_ok lm" for lm
  by (rule comparison_by_key [where key = "version_key lm"]) (simp_all add: versioncompare_order)

text \<open>\<open>versionsatisfied3\<close>; an unknown operator ends the program with status 1.\<close>

datatype exit_error = Exit int

definition versionsatisfied3 ::
    "int \<Rightarrow> versionrevision \<Rightarrow> versionrevision \<Rightarrow> string \<Rightarrow> exit_error + bool" where
  "versionsatisfied3 long_max it refv oper =
     (let r = versioncompare long_max it refv in
      if strcmp oper ''<='' = 0 \<or> strcmp oper ''<'' = 0 then Inr (r \<le> 0)
      else if strcmp oper ''>='' = 0 \<or> strcmp oper ''>'' = 0 then Inr (r \<ge> 0)
      else if strcmp oper ''<<'' = 0 then Inr (r < 0)
      else if strcmp oper ''>>'' = 0 then Inr (r > 0)
      else if strcmp oper ''='' = 0 then Inr (r = 0)
      else Inl (Exit 1))"

text \<open>
  \<open>parseversion\<close>: the error messages are \<open>Inl\<close>. \<open>strchr\<close> finds the first colon; the end pointer
  of \<open>strtoul\<close> has to be that colon.
\<close>

definition parseversion :: "nat \<Rightarrow> string \<Rightarrow> string + versionrevision" where
  "parseversion ulong_max s =
     (if s = [] then Inl ''version string is empty''
      else if CHR '':'' \<in> set s then
        let colon = length (takeWhile (\<lambda>c. c \<noteq> CHR '':'') s);
            (ep, eepochcolon) = strtoul10 ulong_max s
        in if colon \<noteq> eepochcolon then Inl ''epoch in version is not number''
           else let rest = drop (colon + 1) s in
             if rest = [] then Inl ''nothing after colon in version number''
             else Inr \<lparr>epoch = ep, version = rest, revision = []\<rparr>
      else Inr \<lparr>epoch = 0, version = s, revision = []\<rparr>)"

text \<open>\<open>main\<close>: the exit status. \<open>ULONG_MAX\<close> is \<open>2 * LONG_MAX + 1\<close>.\<close>

definition vercmp_main :: "int \<Rightarrow> string list \<Rightarrow> int" where
  "vercmp_main long_max argv =
     (if length argv < 4 then 2
      else case parseversion (nat (2 * long_max + 1)) (argv ! 1) of
        Inl err \<Rightarrow> 2
      | Inr ver \<Rightarrow>
          (case parseversion (nat (2 * long_max + 1)) (argv ! 3) of
             Inl err \<Rightarrow> 2
           | Inr ref \<Rightarrow>
               (case versionsatisfied3 long_max ver ref (argv ! 2) of
                  Inl (Exit n) \<Rightarrow> n
                | Inr b \<Rightarrow> if \<not> b then 1 else 0)))"

lemma digits_val_append:
  assumes "\<forall>c\<in>set ds. isdigit c" and "rest = [] \<or> \<not> isdigit (hd rest)"
  shows "digits_val acc (ds @ rest) = digits_val acc ds"
  using assms by (induction ds arbitrary: acc) (cases rest; simp)+

lemma dropWhile_digits_append:
  assumes "\<forall>c\<in>set ds. isdigit c" and "rest = [] \<or> \<not> isdigit (hd rest)"
  shows "dropWhile isdigit (ds @ rest) = rest"
  using assms by (induction ds) (cases rest; simp)+

lemma strtoul10_digits:
  assumes "ds \<noteq> []" and "\<forall>c\<in>set ds. isdigit c" and "digits_val 0 ds \<le> ulong_max"
  shows "strtoul10 ulong_max (ds @ CHR '':'' # rest) = (digits_val 0 ds, length ds)"
proof -
  obtain d ds' where ds: "ds = d # ds'" using assms(1) by (cases ds) auto
  have d: "isdigit d" "\<not> isspace d" "d \<noteq> CHR ''-''" "d \<noteq> CHR ''+''" "\<not> isdigit CHR '':''"
    using assms(2) ds by (auto simp: isdigit_def isspace_def less_eq_char_def)
  have "digits_val 0 (ds @ CHR '':'' # rest) = digits_val 0 ds"
    "dropWhile isdigit (ds @ CHR '':'' # rest) = CHR '':'' # rest"
    using assms(2) d by (simp_all add: digits_val_append dropWhile_digits_append)
  then show ?thesis
    using d assms(3) by (simp add: strtoul10_def ds)
qed

section \<open>Properties\<close>

text \<open>
  C1: On a target whose \<open>long\<close> has at most 32 bits, \<open>verrevcmp\<close> decides the lexicographic order of
  the version's parts: it is negative, zero or positive exactly when the first string's list of
  parts is smaller than, equal to or larger than the second's.
\<close>

theorem verrevcmp_refines_version_order:
  assumes "0 \<le> lm" and "lm < 2 ^ 31" and "cstring s" and "cstring t"
  shows "sgn (verrevcmp lm s t) =
    (if version_parts lm s < version_parts lm t then -1
     else if version_parts lm s = version_parts lm t then 0 else 1)"
proof -
  have "numbers_fit lm s" and "numbers_fit lm t"
    using assms by (simp_all add: numbers_fit_32)
  with assms verrevcmp_order [of lm s t] show ?thesis by (auto simp: sgn_if)
qed

theorem verrevcmp_refines_version_order_witness:
  "sgn (verrevcmp (2 ^ 31 - 1) ''1.2'' ''1.10'') =
    (if version_parts (2 ^ 31 - 1) ''1.2'' < version_parts (2 ^ 31 - 1) ''1.10'' then -1
     else if version_parts (2 ^ 31 - 1) ''1.2'' = version_parts (2 ^ 31 - 1) ''1.10'' then 0 else 1)"
  by (rule verrevcmp_refines_version_order) (simp_all add: cstring_def)



text \<open>
  With a 64-bit \<open>long\<close>, \<open>verrevcmp\<close> returns the difference of two numbers truncated to an
  \<open>int\<close>: a number above \<open>2 ^ 31\<close> is reported as older than a small one, and one that is larger by
  \<open>2 ^ 32\<close> as equal.
\<close>

theorem verrevcmp_truncates_64:
  "verrevcmp (2 ^ 63 - 1) ''2147483648'' ''0'' < 0 \<and>
   verrevcmp (2 ^ 63 - 1) ''4294967296'' ''0'' = 0 \<and>
   verrevcmp (2 ^ 31 - 1) ''2147483648'' ''0'' > 0"
  by (simp_all add: verrevcmp.simps isdigit_def prefix_loop_simps next_number_def strtol10_def
      to_int_def less_eq_char_def)



text \<open>
  \<open>parseversion\<close> reads an epoch written in digits before the first colon and takes everything
  after that colon as the version.
\<close>

theorem parseversion_epoch:
  assumes "ds \<noteq> []" and "\<forall>c\<in>set ds. isdigit c" and "rest \<noteq> []" and "digits_val 0 ds \<le> ulong_max"
  shows "parseversion ulong_max (ds @ CHR '':'' # rest) =
    Inr \<lparr>epoch = digits_val 0 ds, version = rest, revision = []\<rparr>"
proof -
  let ?s = "ds @ CHR '':'' # rest"
  have colon: "length (takeWhile (\<lambda>c. c \<noteq> CHR '':'') ?s) = length ds"
    using assms(2) by (subst takeWhile_append2) (auto simp: isdigit_def less_eq_char_def)
  have "strtoul10 ulong_max ?s = (digits_val 0 ds, length ds)"
    using assms by (simp add: strtoul10_digits)
  with colon assms(1,3) show ?thesis by (simp add: parseversion_def)
qed

theorem parseversion_epoch_witness:
  "parseversion (2 ^ 32 - 1) ''12:1.0-3'' =
    Inr \<lparr>epoch = 12, version = ''1.0-3'', revision = []\<rparr>"
  using parseversion_epoch [of "''12''" "''1.0-3''" "2 ^ 32 - 1"]
  by (simp add: isdigit_def less_eq_char_def)

end
