(* ===== verification/Fs_Config.thy ===== *)
theory Fs_Config
  imports Prelude
begin

text \<open>
  The ownership and permission rules of
  \<open>cookbook/android-mkbootfs/source/include/private/android_filesystem_config.h\<close>: the user ids, the
  table of their names, the rules for directories and for files, and \<open>fs_config\<close>, which finds the
  first rule that matches a path. The preprocessor symbol \<open>MOTOROLA_UIDS\<close> is an argument of the table
  of names.
\<close>

section \<open>User and group ids\<close>

datatype aid =
    AID_ROOT
  | AID_SYSTEM
  | AID_RADIO
  | AID_BLUETOOTH
  | AID_GRAPHICS
  | AID_INPUT
  | AID_AUDIO
  | AID_CAMERA
  | AID_LOG
  | AID_COMPASS
  | AID_MOUNT
  | AID_WIFI
  | AID_ADB
  | AID_INSTALL
  | AID_MEDIA
  | AID_DHCP
  | AID_SDCARD_RW
  | AID_VPN
  | AID_KEYSTORE
  | AID_USB
  | AID_DRM
  | AID_AVAILABLE
  | AID_GPS
  | AID_UNUSED1
  | AID_MEDIA_RW
  | AID_MTP
  | AID_UNUSED2
  | AID_DRMRPC
  | AID_NFC
  | AID_SHELL
  | AID_CACHE
  | AID_DIAG
  | AID_NET_BT_ADMIN
  | AID_NET_BT
  | AID_INET
  | AID_NET_RAW
  | AID_NET_ADMIN
  | AID_NET_BW_STATS
  | AID_NET_BW_ACCT
  | AID_QCOM_ONCRPC
  | AID_MOT_OSH
  | AID_MOT_ACCY
  | AID_MOT_PWRIC
  | AID_MOT_USB
  | AID_MOT_DRM
  | AID_MOT_TCMD
  | AID_MOT_SEC_RTC
  | AID_MOT_TOMBSTONE
  | AID_MOT_TPAPI
  | AID_MOT_SECCLKD
  | AID_MOT_WHISPER
  | AID_MOT_CAIF
  | AID_MOT_DLNA
  | AID_MISC
  | AID_NOBODY
  | AID_APP

primrec aid_number :: "aid \<Rightarrow> u32" where
  "aid_number AID_ROOT = 0"
| "aid_number AID_SYSTEM = 1000"
| "aid_number AID_RADIO = 1001"
| "aid_number AID_BLUETOOTH = 1002"
| "aid_number AID_GRAPHICS = 1003"
| "aid_number AID_INPUT = 1004"
| "aid_number AID_AUDIO = 1005"
| "aid_number AID_CAMERA = 1006"
| "aid_number AID_LOG = 1007"
| "aid_number AID_COMPASS = 1008"
| "aid_number AID_MOUNT = 1009"
| "aid_number AID_WIFI = 1010"
| "aid_number AID_ADB = 1011"
| "aid_number AID_INSTALL = 1012"
| "aid_number AID_MEDIA = 1013"
| "aid_number AID_DHCP = 1014"
| "aid_number AID_SDCARD_RW = 1015"
| "aid_number AID_VPN = 1016"
| "aid_number AID_KEYSTORE = 1017"
| "aid_number AID_USB = 1018"
| "aid_number AID_DRM = 1019"
| "aid_number AID_AVAILABLE = 1020"
| "aid_number AID_GPS = 1021"
| "aid_number AID_UNUSED1 = 1022"
| "aid_number AID_MEDIA_RW = 1023"
| "aid_number AID_MTP = 1024"
| "aid_number AID_UNUSED2 = 1025"
| "aid_number AID_DRMRPC = 1026"
| "aid_number AID_NFC = 1027"
| "aid_number AID_SHELL = 2000"
| "aid_number AID_CACHE = 2001"
| "aid_number AID_DIAG = 2002"
| "aid_number AID_NET_BT_ADMIN = 3001"
| "aid_number AID_NET_BT = 3002"
| "aid_number AID_INET = 3003"
| "aid_number AID_NET_RAW = 3004"
| "aid_number AID_NET_ADMIN = 3005"
| "aid_number AID_NET_BW_STATS = 3006"
| "aid_number AID_NET_BW_ACCT = 3007"
| "aid_number AID_QCOM_ONCRPC = 3008"
| "aid_number AID_MOT_OSH = 5000"
| "aid_number AID_MOT_ACCY = 9000"
| "aid_number AID_MOT_PWRIC = 9001"
| "aid_number AID_MOT_USB = 9002"
| "aid_number AID_MOT_DRM = 9003"
| "aid_number AID_MOT_TCMD = 9004"
| "aid_number AID_MOT_SEC_RTC = 9005"
| "aid_number AID_MOT_TOMBSTONE = 9006"
| "aid_number AID_MOT_TPAPI = 9007"
| "aid_number AID_MOT_SECCLKD = 9008"
| "aid_number AID_MOT_WHISPER = 9009"
| "aid_number AID_MOT_CAIF = 9010"
| "aid_number AID_MOT_DLNA = 9011"
| "aid_number AID_MISC = 9998"
| "aid_number AID_NOBODY = 9999"
| "aid_number AID_APP = 10000"

definition android_ids :: "bool \<Rightarrow> (string \<times> aid) list" where
  "android_ids motorola_uids = [
     (''root'', AID_ROOT),
     (''system'', AID_SYSTEM),
     (''radio'', AID_RADIO),
     (''bluetooth'', AID_BLUETOOTH),
     (''graphics'', AID_GRAPHICS),
     (''input'', AID_INPUT),
     (''audio'', AID_AUDIO),
     (''camera'', AID_CAMERA),
     (''log'', AID_LOG),
     (''compass'', AID_COMPASS),
     (''mount'', AID_MOUNT),
     (''wifi'', AID_WIFI),
     (''dhcp'', AID_DHCP),
     (''adb'', AID_ADB),
     (''install'', AID_INSTALL),
     (''media'', AID_MEDIA),
     (''drm'', AID_DRM),
     (''available'', AID_AVAILABLE),
     (''nfc'', AID_NFC),
     (''drmrpc'', AID_DRMRPC),
     (''shell'', AID_SHELL),
     (''cache'', AID_CACHE),
     (''diag'', AID_DIAG),
     (''net_bt_admin'', AID_NET_BT_ADMIN),
     (''net_bt'', AID_NET_BT),
     (''sdcard_rw'', AID_SDCARD_RW),
     (''media_rw'', AID_MEDIA_RW),
     (''vpn'', AID_VPN),
     (''keystore'', AID_KEYSTORE),
     (''usb'', AID_USB),
     (''mtp'', AID_MTP),
     (''gps'', AID_GPS),
     (''inet'', AID_INET),
     (''net_raw'', AID_NET_RAW),
     (''net_admin'', AID_NET_ADMIN),
     (''net_bw_stats'', AID_NET_BW_STATS),
     (''net_bw_acct'', AID_NET_BW_ACCT),
     (''qcom_oncrpc'', AID_QCOM_ONCRPC)] @
   (if motorola_uids then [
     (''mot_osh'', AID_MOT_OSH),
     (''mot_accy'', AID_MOT_ACCY),
     (''mot_pwric'', AID_MOT_PWRIC),
     (''mot_usb'', AID_MOT_USB),
     (''mot_drm'', AID_MOT_DRM),
     (''mot_tcmd'', AID_MOT_TCMD),
     (''mot_sec_rtc'', AID_MOT_SEC_RTC),
     (''mot_tombstone'', AID_MOT_TOMBSTONE),
     (''mot_tpapi'', AID_MOT_TPAPI),
     (''mot_secclkd'', AID_MOT_SECCLKD),
     (''mot_whisper'', AID_MOT_WHISPER),
     (''mot_caif'', AID_MOT_CAIF),
     (''mot_dlna'', AID_MOT_DLNA)] else []) @ [
     (''misc'', AID_MISC),
     (''nobody'', AID_NOBODY)]"

section \<open>Rules\<close>

record fs_path_config =
  mode :: u32
  uid :: u32
  gid :: u32
  prefix :: "string option"

text \<open>A rule, its mode written as four octal digits.\<close>

definition config :: "u32 \<Rightarrow> u32 \<Rightarrow> u32 \<Rightarrow> u32 \<Rightarrow> aid \<Rightarrow> aid \<Rightarrow> string option \<Rightarrow> fs_path_config" where
  "config s u g o' owner grp p =
     \<lparr>mode = 512 * s + 64 * u + 8 * g + o', uid = aid_number owner, gid = aid_number grp, prefix = p\<rparr>"

definition android_dirs :: "fs_path_config list" where
  "android_dirs = [
     config 0 7 7 0 AID_SYSTEM AID_CACHE (Some ''cache''),
     config 0 7 7 1 AID_SYSTEM AID_SYSTEM (Some ''data/app''),
     config 0 7 7 1 AID_SYSTEM AID_SYSTEM (Some ''data/app-private''),
     config 0 7 7 1 AID_SYSTEM AID_SYSTEM (Some ''data/dalvik-cache''),
     config 0 7 7 1 AID_SYSTEM AID_SYSTEM (Some ''data/data''),
     config 0 7 7 1 AID_SHELL AID_SHELL (Some ''data/local/tmp''),
     config 0 7 7 1 AID_SHELL AID_SHELL (Some ''data/local''),
     config 1 7 7 1 AID_SYSTEM AID_MISC (Some ''data/misc''),
     config 0 7 7 0 AID_DHCP AID_DHCP (Some ''data/misc/dhcp''),
     config 0 7 7 5 AID_MEDIA_RW AID_MEDIA_RW (Some ''data/media''),
     config 0 7 7 5 AID_MEDIA_RW AID_MEDIA_RW (Some ''data/media/Music''),
     config 0 7 7 1 AID_SYSTEM AID_SYSTEM (Some ''data''),
     config 0 7 5 0 AID_ROOT AID_SHELL (Some ''sbin''),
     config 0 7 5 5 AID_ROOT AID_SHELL (Some ''system/bin''),
     config 0 7 5 5 AID_ROOT AID_SHELL (Some ''system/vendor''),
     config 0 7 5 5 AID_ROOT AID_SHELL (Some ''system/xbin''),
     config 0 7 5 5 AID_ROOT AID_ROOT (Some ''system/etc/ppp''),
     config 0 7 7 7 AID_ROOT AID_ROOT (Some ''sdcard''),
     config 0 7 5 5 AID_ROOT AID_ROOT (None)]"

definition android_files :: "fs_path_config list" where
  "android_files = [
     config 0 4 4 0 AID_ROOT AID_SHELL (Some ''system/etc/init.goldfish.rc''),
     config 0 5 5 0 AID_ROOT AID_SHELL (Some ''system/etc/init.goldfish.sh''),
     config 0 4 4 0 AID_ROOT AID_SHELL (Some ''system/etc/init.trout.rc''),
     config 0 5 5 0 AID_ROOT AID_SHELL (Some ''system/etc/init.ril''),
     config 0 5 5 0 AID_ROOT AID_SHELL (Some ''system/etc/init.testmenu''),
     config 0 5 5 0 AID_DHCP AID_SHELL (Some ''system/etc/dhcpcd/dhcpcd-run-hooks''),
     config 0 4 4 0 AID_BLUETOOTH AID_BLUETOOTH (Some ''system/etc/dbus.conf''),
     config 0 4 4 0 AID_BLUETOOTH AID_BLUETOOTH (Some ''system/etc/bluetooth/main.conf''),
     config 0 4 4 0 AID_BLUETOOTH AID_BLUETOOTH (Some ''system/etc/bluetooth/input.conf''),
     config 0 4 4 0 AID_BLUETOOTH AID_BLUETOOTH (Some ''system/etc/bluetooth/audio.conf''),
     config 0 4 4 0 AID_BLUETOOTH AID_BLUETOOTH (Some ''system/etc/bluetooth/network.conf''),
     config 0 4 4 4 AID_NET_BT AID_NET_BT (Some ''system/etc/bluetooth/blacklist.conf''),
     config 0 6 4 0 AID_SYSTEM AID_SYSTEM (Some ''system/etc/bluetooth/auto_pairing.conf''),
     config 0 4 4 4 AID_RADIO AID_AUDIO (Some ''system/etc/AudioPara4.csv''),
     config 0 5 5 5 AID_ROOT AID_ROOT (Some ''system/etc/ppp/*''),
     config 0 5 5 5 AID_ROOT AID_ROOT (Some ''system/etc/rc.*''),
     config 0 6 4 4 AID_SYSTEM AID_SYSTEM (Some ''data/app/*''),
     config 0 6 4 4 AID_MEDIA_RW AID_MEDIA_RW (Some ''data/media/*''),
     config 0 6 4 4 AID_SYSTEM AID_SYSTEM (Some ''data/app-private/*''),
     config 0 6 4 4 AID_APP AID_APP (Some ''data/data/*''),
     config 2 7 5 5 AID_ROOT AID_NET_RAW (Some ''system/bin/ping''),
     config 2 7 5 0 AID_ROOT AID_INET (Some ''system/bin/netcfg''),
     config 6 7 5 5 AID_ROOT AID_ROOT (Some ''system/xbin/su''),
     config 6 7 5 5 AID_ROOT AID_ROOT (Some ''system/xbin/librank''),
     config 6 7 5 5 AID_ROOT AID_ROOT (Some ''system/xbin/procrank''),
     config 6 7 5 5 AID_ROOT AID_ROOT (Some ''system/xbin/procmem''),
     config 6 7 5 5 AID_ROOT AID_ROOT (Some ''system/xbin/tcpdump''),
     config 4 7 7 0 AID_ROOT AID_RADIO (Some ''system/bin/pppd-ril''),
     config 6 7 5 0 AID_ROOT AID_SHELL (Some ''system/bin/run-as''),
     config 6 7 5 0 AID_ROOT AID_SYSTEM (Some ''system/bin/rebootcmd''),
     config 0 7 5 5 AID_ROOT AID_SHELL (Some ''system/bin/*''),
     config 0 7 5 5 AID_ROOT AID_ROOT (Some ''system/lib/valgrind/*''),
     config 0 7 5 5 AID_ROOT AID_SHELL (Some ''system/xbin/*''),
     config 0 7 5 5 AID_ROOT AID_SHELL (Some ''system/vendor/bin/*''),
     config 0 7 5 0 AID_ROOT AID_SHELL (Some ''sbin/*''),
     config 0 7 5 5 AID_ROOT AID_ROOT (Some ''bin/*''),
     config 0 7 5 0 AID_ROOT AID_SHELL (Some ''init*''),
     config 0 7 5 0 AID_ROOT AID_SHELL (Some ''charger*''),
     config 0 7 5 5 AID_ROOT AID_SHELL (Some ''system/etc/init.d/*''),
     config 0 6 4 4 AID_ROOT AID_ROOT (None)]"

section \<open>fs\_config\<close>

text \<open>
  The loop over the rules: the body decides whether it leaves the loop at this rule. The rule
  without a prefix ends the table; a table without one would be read past its end (\<open>None\<close>).
\<close>

definition rule_matches :: "bool \<Rightarrow> string \<Rightarrow> string \<Rightarrow> bool" where
  "rule_matches dir p path =
     (let len = length p; plen = length path in
      if dir then
        (if plen < len then False else strncmp p path len = 0)
      else if p \<noteq> [] \<and> p ! (len - 1) = CHR ''*'' then strncmp p path (len - 1) = 0
      else if plen = len then strncmp p path len = 0
      else False)"

fun find_rule :: "bool \<Rightarrow> string \<Rightarrow> fs_path_config list \<Rightarrow> fs_path_config option" where
  "find_rule dir path [] = None"
| "find_rule dir path (pc # pcs) =
     (case prefix pc of
        None \<Rightarrow> Some pc
      | Some p \<Rightarrow> if rule_matches dir p path then Some pc else find_rule dir path pcs)"

text \<open>The result is the new uid, gid and mode; the file type bits of the mode are kept.\<close>

definition fs_config :: "string \<Rightarrow> bool \<Rightarrow> u32 \<Rightarrow> (u32 \<times> u32 \<times> u32) option" where
  "fs_config path dir m =
     (case find_rule dir path (if dir then android_dirs else android_files) of
        None \<Rightarrow> None
      | Some pc \<Rightarrow> Some (uid pc, gid pc, (m AND NOT 0xFFF) OR mode pc))"

section \<open>Which rule applies\<close>

text \<open>The condition under which the loop stops at a rule.\<close>

definition stops_at :: "bool \<Rightarrow> string \<Rightarrow> fs_path_config \<Rightarrow> bool" where
  "stops_at dir path pc =
     (case prefix pc of None \<Rightarrow> True | Some p \<Rightarrow> rule_matches dir p path)"

lemma find_rule_Cons:
  "find_rule dir path (pc # pcs) = (if stops_at dir path pc then Some pc else find_rule dir path pcs)"
  by (simp add: stops_at_def split: option.split)

declare find_rule.simps(2) [simp del]

lemma find_rule_find: "find_rule dir path pcs = List.find (stops_at dir path) pcs"
  by (induction pcs) (auto simp: find_rule_Cons)

lemma find_rule_SomeD:
  assumes "find_rule dir path pcs = Some pc"
  shows "\<exists>pre post. pcs = pre @ pc # post \<and> stops_at dir path pc \<and> (\<forall>q\<in>set pre. \<not> stops_at dir path q)"
  using assms
proof (induction pcs)
  case Nil
  then show ?case by simp
next
  case (Cons q qs)
  show ?case
  proof (cases "stops_at dir path q")
    case True
    with Cons.prems show ?thesis by (intro exI [of _ "[]"] exI [of _ qs]) (simp add: find_rule_Cons)
  next
    case False
    with Cons obtain pre post where "qs = pre @ pc # post" "stops_at dir path pc"
      "\<forall>q\<in>set pre. \<not> stops_at dir path q"
      by (auto simp: find_rule_Cons)
    with False show ?thesis by (intro exI [of _ "q # pre"] exI [of _ post]) simp
  qed
qed

lemma find_rule_total:
  "\<exists>pc\<in>set pcs. prefix pc = None \<Longrightarrow> \<exists>pc. find_rule dir path pcs = Some pc"
  by (induction pcs) (auto simp: find_rule_Cons stops_at_def)

lemma strncmp_exact:
  "cstring p \<Longrightarrow> cstring path \<Longrightarrow> length p \<le> length path \<Longrightarrow>
     strncmp p path (length p) = 0 \<longleftrightarrow> (\<exists>rest. path = p @ rest)"
  by (auto simp: strncmp_def strcmp_eq_0_iff cstring_take)
    (metis append_take_drop_id)

lemma rule_matches_exact:
  assumes "cstring p" and "cstring path" and "p \<noteq> []" and "last p \<noteq> CHR ''*''"
  shows "rule_matches False p path \<longleftrightarrow> path = p"
  using assms strncmp_exact [of p path]
  by (auto simp: rule_matches_def Let_def last_conv_nth)

lemma rule_matches_dir:
  assumes "cstring p" and "cstring path"
  shows "rule_matches True p path \<longleftrightarrow> (\<exists>rest. path = p @ rest)"
  using assms strncmp_exact [of p path] by (auto simp: rule_matches_def Let_def)

lemma rule_matches_wildcard:
  assumes "cstring p" and "cstring path"
  shows "rule_matches False (p @ ''*'') path \<longleftrightarrow> (\<exists>rest. path = p @ rest)"
proof -
  have "rule_matches False (p @ ''*'') path \<longleftrightarrow> strcmp p (take (length p) path) = 0"
    by (simp add: rule_matches_def Let_def strncmp_def nth_append)
  also have "\<dots> \<longleftrightarrow> p = take (length p) path"
    using assms by (simp add: strcmp_eq_0_iff cstring_take)
  also have "\<dots> \<longleftrightarrow> (\<exists>rest. path = p @ rest)"
    by (metis append_eq_conv_conj)
  finally show ?thesis .
qed

lemma type_bits_kept: "((m AND NOT 0xFFF) OR k) AND NOT 0xFFF = m AND NOT (0xFFF :: u32)"
  if "k AND NOT 0xFFF = 0" for k :: u32
  using that by (simp add: bit.conj_disj_distrib2)

lemma perm_bits_set: "((m AND NOT 0xFFF) OR k) AND 0xFFF = k AND (0xFFF :: u32)"
  for k :: u32
  by (simp add: bit.conj_disj_distrib2 and.assoc)

lemma rule_modes_small:
  "\<forall>pc\<in>set android_dirs \<union> set android_files. mode pc AND NOT 0xFFF = 0"
  by (simp add: android_dirs_def android_files_def config_def)

text \<open>What the rules mean, in terms of the paths alone.\<close>

definition applies :: "bool \<Rightarrow> string \<Rightarrow> fs_path_config \<Rightarrow> bool" where
  "applies dir path pc =
     (case prefix pc of
        None \<Rightarrow> True
      | Some p \<Rightarrow>
          if dir then take (length p) path = p
          else if last p = CHR ''*'' then take (length p - 1) path = butlast p
          else path = p)"

lemma rule_prefixes:
  "\<forall>pc\<in>set android_dirs \<union> set android_files. pred_option (\<lambda>p. cstring p \<and> p \<noteq> []) (prefix pc)"
  by (simp add: android_dirs_def android_files_def config_def cstring_def)

lemma stops_at_applies:
  assumes "cstring path" and "pred_option (\<lambda>p. cstring p \<and> p \<noteq> []) (prefix pc)"
  shows "stops_at dir path pc = applies dir path pc"
proof (cases "prefix pc")
  case (Some p)
  then have p: "cstring p" "p \<noteq> []" using assms(2) by simp_all
  have take: "(\<exists>rest. path = q @ rest) \<longleftrightarrow> take (length q) path = q" for q
    by (metis append_eq_conv_conj append_take_drop_id)
  show ?thesis
  proof (cases "\<not> dir \<and> last p = CHR ''*''")
    case True
    then have eq: "p = butlast p @ ''*''"
      using p(2) append_butlast_last_id [of p] by simp
    then have "cstring (butlast p)" using p(1) by (metis cstring_append)
    then have "rule_matches False p path \<longleftrightarrow> (\<exists>rest. path = butlast p @ rest)"
      using rule_matches_wildcard [of "butlast p" path] assms(1) eq by simp
    with True Some show ?thesis by (simp add: stops_at_def applies_def take)
  next
    case False
    with Some p assms(1) show ?thesis
      by (auto simp: stops_at_def applies_def rule_matches_dir rule_matches_exact take)
  qed
qed (simp add: stops_at_def applies_def)

lemma find_applies:
  assumes "cstring path"
  shows "find_rule dir path (if dir then android_dirs else android_files) =
    List.find (applies dir path) (if dir then android_dirs else android_files)"
  unfolding find_rule_find
proof (rule find_cong)
  fix pc assume "pc \<in> set (if dir then android_dirs else android_files)"
  then have "pc \<in> set android_dirs \<union> set android_files" by (cases dir) simp_all
  then show "stops_at dir path pc = applies dir path pc"
    using rule_prefixes assms by (intro stops_at_applies) blast+
qed simp

section \<open>Properties\<close>

text \<open>The paths whose rules carry a set-uid or set-gid bit.\<close>

definition set_id_files :: "string list" where
  "set_id_files = [''system/bin/ping'', ''system/bin/netcfg'', ''system/xbin/su'',
    ''system/xbin/librank'', ''system/xbin/procrank'', ''system/xbin/procmem'',
    ''system/xbin/tcpdump'', ''system/bin/pppd-ril'', ''system/bin/run-as'',
    ''system/bin/rebootcmd'']"

lemma set_id_rules:
  "\<forall>pc\<in>set android_files. mode pc AND 0xC00 \<noteq> 0 \<longrightarrow> (\<exists>p\<in>set set_id_files. prefix pc = Some p)"
  by (simp add: android_files_def config_def set_id_files_def)

lemma set_id_files_exact:
  "p \<in> set set_id_files \<Longrightarrow> cstring p \<and> p \<noteq> [] \<and> last p \<noteq> CHR ''*''"
  by (auto simp: set_id_files_def cstring_def)

lemma find_rule_tables:
  "\<exists>pc. find_rule dir path (if dir then android_dirs else android_files) = Some pc"
  by (rule find_rule_total) (simp add: android_dirs_def android_files_def config_def)

lemma fs_config_rule:
  assumes "fs_config path dir m = Some (u, g, m')"
  shows "\<exists>pc. find_rule dir path (if dir then android_dirs else android_files) = Some pc \<and>
    u = uid pc \<and> g = gid pc \<and> m' = (m AND NOT 0xFFF) OR mode pc"
  using assms by (auto simp: fs_config_def split: option.splits)

text \<open>
  C6: \<open>fs_config\<close> never runs off the end of its tables. It sets owner, group and permissions to
  those of the first rule of the table that applies (for a directory, a rule whose path starts the
  path; for a file, an equal path, or for a path ending in an asterisk, what precedes it starting
  the path), and keeps the file type bits of the mode it is given.
\<close>

theorem fs_config_first_match:
  assumes "cstring path"
  shows "\<exists>pc. List.find (applies dir path) (if dir then android_dirs else android_files) = Some pc \<and>
     (\<exists>m'. fs_config path dir m = Some (uid pc, gid pc, m') \<and>
        m' AND NOT 0xFFF = m AND NOT 0xFFF \<and> m' AND 0xFFF = mode pc)"
proof -
  let ?table = "if dir then android_dirs else android_files"
  obtain pc where pc: "find_rule dir path ?table = Some pc"
    using find_rule_tables by blast
  then have "pc \<in> set ?table"
    using find_rule_SomeD [of dir path ?table pc] by (metis in_set_conv_decomp)
  then have "pc \<in> set android_dirs \<union> set android_files"
    by (cases dir) simp_all
  then have small: "mode pc AND NOT 0xFFF = 0" using rule_modes_small by blast
  then have "mode pc AND 0xFFF = mode pc"
    by (metis and.right_neutral bit.conj_disj_distrib bit.disj_cancel_right or.right_neutral)
  then have "((m AND NOT 0xFFF) OR mode pc) AND 0xFFF = mode pc"
    by (simp only: perm_bits_set)
  moreover have "((m AND NOT 0xFFF) OR mode pc) AND NOT 0xFFF = m AND NOT 0xFFF"
    by (rule type_bits_kept [OF small])
  moreover have "fs_config path dir m = Some (uid pc, gid pc, (m AND NOT 0xFFF) OR mode pc)"
    by (simp only: fs_config_def pc option.case)
  moreover have "List.find (applies dir path) ?table = Some pc"
    using pc find_applies [OF assms] by simp
  ultimately show ?thesis by blast
qed

theorem fs_config_first_match_witness:
  "\<exists>m'. fs_config ''data/app/x.apk'' False 0x8180 =
     Some (aid_number AID_SYSTEM, aid_number AID_SYSTEM, m') \<and> m' AND 0xFFF = 0x1A4"
  using fs_config_first_match [where path = "''data/app/x.apk''" and dir = False and m = "0x8180"]
  by (auto simp: cstring_def android_files_def config_def applies_def)

text \<open>
  C7: Only ten files can be given a set-uid or set-gid bit: every other path ends up without
  either.
\<close>

theorem fs_config_set_id_files:
  assumes "cstring path" and "fs_config path False m = Some (u, g, m')" and "m' AND 0xC00 \<noteq> 0"
  shows "path \<in> set set_id_files"
proof -
  obtain pc where pc: "find_rule False path android_files = Some pc"
    and m': "m' = (m AND NOT 0xFFF) OR mode pc"
    using fs_config_rule [OF assms(2)] by auto
  from find_rule_SomeD [OF pc] have "pc \<in> set android_files" and stop: "stops_at False path pc"
    by (metis in_set_conv_decomp)+
  moreover have "mode pc AND 0xC00 \<noteq> 0"
    using assms(3) by (simp add: m' bit.conj_disj_distrib2 and.assoc)
  ultimately obtain p where p: "prefix pc = Some p" "p \<in> set set_id_files"
    using set_id_rules by blast
  then have "path = p"
    using stop assms(1) set_id_files_exact rule_matches_exact [of p path]
    by (auto simp: stops_at_def)
  with p show ?thesis by simp
qed

theorem fs_config_set_id_files_witness:
  "''system/xbin/su'' \<in> set set_id_files"
  by (rule fs_config_set_id_files [of _ "0x81ED" 0 0 "0x8DED"])
    (simp_all add: cstring_def fs_config_def find_rule_find android_files_def config_def
      stops_at_def rule_matches_def strncmp_def)

text \<open>
  A directory rule that follows the rule for one of its parent directories never applies: every
  path under \<open>data/misc/dhcp\<close> gets the rights of \<open>data/misc\<close> (mode 01771, owner system, group
  misc) instead of its own (mode 0770, owner and group dhcp).
\<close>

theorem fs_config_dhcp_shadowed:
  "fs_config (''data/misc/dhcp'' @ rest) True m =
     Some (aid_number AID_SYSTEM, aid_number AID_MISC, (m AND NOT 0xFFF) OR 0x3F9) \<and>
   config 0 7 7 0 AID_DHCP AID_DHCP (Some ''data/misc/dhcp'') \<in> set android_dirs \<and>
   find_rule True (''data/misc/dhcp'' @ rest) android_dirs \<noteq>
     Some (config 0 7 7 0 AID_DHCP AID_DHCP (Some ''data/misc/dhcp''))"
proof -
  have "find_rule True (''data/misc/dhcp'' @ rest) android_dirs =
      Some (config 1 7 7 1 AID_SYSTEM AID_MISC (Some ''data/misc''))" for rest
    by (simp add: find_rule_find android_dirs_def config_def stops_at_def rule_matches_def
        strncmp_def)
  then show ?thesis
    by (simp add: fs_config_def config_def android_dirs_def)
qed

text \<open>
  The table of names is a numbering: no name and no id number occurs twice in it.
\<close>

theorem android_ids_distinct:
  "distinct (map fst (android_ids motorola_uids)) \<and>
   distinct (map (\<lambda>(n, a). aid_number a) (android_ids motorola_uids))"
  by (cases motorola_uids) (simp_all add: android_ids_def)

end
