(* ===== verification/Mkbootfs.thy ===== *)
theory Mkbootfs
  imports Fs_Config Libc
begin

text \<open>
  The initramfs writer \<open>cookbook/android-mkbootfs/source/cpio/mkbootfs.c\<close>. The program's state is the
  static \<open>total_size\<close>, the inode counter of \<open>_eject\<close> and what has been written to standard output;
  \<open>die\<close> ends it with an error. The file system that \<open>lstat\<close>, \<open>open\<close>, \<open>opendir\<close> and \<open>readlink\<close>
  show it is a tree, whose directories list their entries in the order \<open>readdir\<close> returns them.
\<close>

section \<open>State and errors\<close>

record archive_state =
  total_size :: u32
  next_inode :: u32
  stdout :: "byte list"

definition initial_state :: archive_state where
  "initial_state = \<lparr>total_size = 0, next_inode = 300000, stdout = []\<rparr>"

text \<open>
  The calls of \<open>die\<close>; \<open>Overrun\<close> stands for a write past the end of one of the 8192 byte path
  buffers, which the code does not check for.
\<close>

datatype failure =
    NoDirectories
  | CannotOpenDir string
  | CannotStat string
  | CannotOpen string
  | CannotReadlink string
  | UnknownType string
  | Ack
  | Overrun

section \<open>Writing one entry\<close>

text \<open>\<open>putchar(0)\<close> until the size is a multiple of the alignment.\<close>

function pad_loop :: "u32 \<Rightarrow> archive_state \<Rightarrow> archive_state" where
  "pad_loop msk s =
     (if total_size s AND msk \<noteq> 0
      then pad_loop msk (s\<lparr>total_size := total_size s + 1, stdout := stdout s @ [0]\<rparr>)
      else s)"
  by pat_completeness auto
termination
proof (relation "measure (\<lambda>(msk, s). unat (- total_size s))", goal_cases)
  case 1
  show ?case by simp
next
  case (2 msk s)
  then have "total_size s \<noteq> 0" by auto
  then have "- total_size s \<noteq> 0" by simp
  then have "unat (- total_size s - 1) < unat (- total_size s)"
    by (metis word_less_nat_alt measure_unat)
  then show ?case by simp
qed

declare pad_loop.simps [simp del]

definition S_ISDIR :: "u32 \<Rightarrow> bool" where
  "S_ISDIR m \<longleftrightarrow> m AND 0xF000 = 0x4000"

definition fix_stat :: "string \<Rightarrow> u32 \<Rightarrow> u32" where
  "fix_stat path st_mode =
     (case fs_config path (S_ISDIR st_mode) st_mode of
        Some (u, g, m) \<Rightarrow> m
      | None \<Rightarrow> st_mode)"

definition cpio_header :: "u32 \<Rightarrow> u32 \<Rightarrow> u32 \<Rightarrow> u32 \<Rightarrow> byte list" where
  "cpio_header ino st_mode datasize namesize =
     hex 6 0x070701 @ hex 8 ino @ hex 8 st_mode @ hex 8 0 @ hex 8 0 @ hex 8 1 @ hex 8 0 @
     hex 8 datasize @ hex 8 0 @ hex 8 0 @ hex 8 0 @ hex 8 0 @ hex 8 namesize @ hex 8 0"

text \<open>\<open>_eject\<close>; \<open>out\<close> is the name, \<open>olen\<close> the length the caller claims for it.\<close>

definition eject ::
    "u32 \<Rightarrow> string \<Rightarrow> nat \<Rightarrow> byte list \<Rightarrow> u32 \<Rightarrow> archive_state \<Rightarrow> failure + archive_state" where
  "eject st_mode out olen data datasize s0 =
     (let s1 = pad_loop 3 s0;
          m = fix_stat out st_mode;
          hdr = cpio_header (next_inode s1) m datasize (word_of_nat (olen + 1)) @ bytes_of out @ [0];
          s2 = s1\<lparr>next_inode := next_inode s1 + 1,
                  total_size := total_size s1 + word_of_nat (6 + 8 * 13 + olen + 1),
                  stdout := stdout s1 @ hdr\<rparr>
      in if length out \<noteq> olen then Inl Ack
         else let s3 = pad_loop 3 s2 in
           Inr (if datasize \<noteq> 0
                then s3\<lparr>total_size := total_size s3 + datasize,
                        stdout := stdout s3 @ take (unat datasize) data\<rparr>
                else s3))"

definition eject_trailer :: "archive_state \<Rightarrow> failure + archive_state" where
  "eject_trailer s =
     (case eject 0 ''TRAILER!!!'' 10 [] 0 s of
        Inl e \<Rightarrow> Inl e
      | Inr s' \<Rightarrow> Inr (pad_loop 0xFF s'))"

section \<open>Walking the tree\<close>

text \<open>
  What the calls show of a file: its permission bits, and its contents, entries or target, \<open>None\<close>
  where \<open>open\<close> or \<open>read\<close>, \<open>opendir\<close>, \<open>readlink\<close> fail. \<open>NoStat\<close> is a file on which \<open>lstat\<close> fails.
\<close>

datatype special = Fifo | CharDev | BlockDev | Socket

datatype fsnode =
    Reg u32 "byte list option"
  | Directory u32 "(string \<times> fsnode) list option"
  | Symlink u32 "byte list option"
  | Special special u32
  | NoStat

fun st_mode_of :: "fsnode \<Rightarrow> u32" where
  "st_mode_of (Reg p c) = 0x8000 OR (p AND 0xFFF)"
| "st_mode_of (Directory p es) = 0x4000 OR (p AND 0xFFF)"
| "st_mode_of (Symlink p t) = 0xA000 OR (p AND 0xFFF)"
| "st_mode_of (Special Fifo p) = 0x1000 OR (p AND 0xFFF)"
| "st_mode_of (Special CharDev p) = 0x2000 OR (p AND 0xFFF)"
| "st_mode_of (Special BlockDev p) = 0x6000 OR (p AND 0xFFF)"
| "st_mode_of (Special Socket p) = 0xC000 OR (p AND 0xFFF)"
| "st_mode_of NoStat = 0"

text \<open>The size of a path buffer; a string of length \<open>n\<close> needs \<open>n + 1\<close> bytes of it.\<close>

definition buf_size :: nat where
  "buf_size = 8192"

text \<open>The names that \<open>_archive_dir\<close> collects from \<open>readdir\<close>, sorted.\<close>

definition skip_entry :: "string \<Rightarrow> bool" where
  "skip_entry name \<longleftrightarrow> (name \<noteq> [] \<and> hd name = CHR ''.'') \<or> strcmp name ''root'' = 0"

definition dir_names :: "(string \<times> 'n) list \<Rightarrow> (string \<times> 'n) list" where
  "dir_names es = qsort (\<lambda>a b. strcmp (fst a) (fst b)) (filter (\<lambda>e. \<not> skip_entry (fst e)) es)"

definition child_path :: "string \<Rightarrow> string \<Rightarrow> string" where
  "child_path out name = (if length out > 0 then out @ CHR ''/'' # name else name)"

lemma set_dir_names [simp]: "set (dir_names es) = {e \<in> set es. \<not> skip_entry (fst e)}"
  by (simp add: dir_names_def)

lemma size_dir_names: "e \<in> set es \<Longrightarrow> size (snd e) < Suc (size_list (size_prod (\<lambda>x. 0) size) es)"
  by (induction es) auto

text \<open>
  \<open>_archive\<close> and \<open>_archive_dir\<close>. The path buffer \<open>in\<close> and the name buffer \<open>out\<close> are written from the positions
  \<open>ilen\<close> and \<open>olen\<close> that the callers pass on, and cut back to them after each entry.
\<close>

definition extend_out :: "string \<Rightarrow> nat \<Rightarrow> string \<Rightarrow> string \<times> nat" where
  "extend_out out olen name =
     (if olen > 0 then (take olen out @ CHR ''/'' # name, olen + length name + 1) else (name, length name))"

function archive_node :: "fsnode \<Rightarrow> string \<Rightarrow> string \<Rightarrow> nat \<Rightarrow> nat \<Rightarrow> archive_state \<Rightarrow> failure + archive_state"
  and archive_dir :: "(string \<times> fsnode) list option \<Rightarrow> string \<Rightarrow> string \<Rightarrow> nat \<Rightarrow> nat \<Rightarrow> archive_state \<Rightarrow>
        failure + archive_state" where
  "archive_node NoStat inp out ilen olen s = Inl (CannotStat inp)"
| "archive_node (Reg p None) inp out ilen olen s = Inl (CannotOpen inp)"
| "archive_node (Reg p (Some bs)) inp out ilen olen s =
     eject (st_mode_of (Reg p (Some bs))) out olen bs (word_of_nat (length bs)) s"
| "archive_node (Directory p es) inp out ilen olen s =
     (case eject (st_mode_of (Directory p es)) out olen [] 0 s of
        Inl e \<Rightarrow> Inl e
      | Inr s' \<Rightarrow> archive_dir es inp out ilen olen s')"
| "archive_node (Symlink p None) inp out ilen olen s = Inl (CannotReadlink inp)"
| "archive_node (Symlink p (Some t)) inp out ilen olen s =
     eject (st_mode_of (Symlink p (Some t))) out olen (take 1024 t) (word_of_nat (length (take 1024 t))) s"
| "archive_node (Special k p) inp out ilen olen s = Inl (UnknownType inp)"
| "archive_dir None inp out ilen olen s = Inl (CannotOpenDir inp)"
| "archive_dir (Some es) inp out ilen olen s =
     run_all (\<lambda>e s'.
         let inp' = take ilen inp @ CHR ''/'' # fst e; (out', olen') = extend_out out olen (fst e) in
         if length inp' + 1 > buf_size \<or> length out' + 1 > buf_size then Inl Overrun
         else archive_node (snd e) inp' out' (ilen + length (fst e) + 1) olen' s')
       (dir_names es) s"
  by pat_completeness auto
termination
  by (relation "measure (\<lambda>x. case x of
        Inl (n, _, _, _, _, _) \<Rightarrow> size n
      | Inr (es, _, _, _, _, _) \<Rightarrow> size_option (size_list (size_prod (\<lambda>x. 0) size)) es)")
    (auto dest: size_dir_names)

text \<open>The same walk without the positions, which are always the lengths of the two strings.\<close>

function walk_node :: "fsnode \<Rightarrow> string \<Rightarrow> string \<Rightarrow> archive_state \<Rightarrow> failure + archive_state"
  and walk_dir :: "(string \<times> fsnode) list option \<Rightarrow> string \<Rightarrow> string \<Rightarrow> archive_state \<Rightarrow>
        failure + archive_state" where
  "walk_node NoStat inp out s = Inl (CannotStat inp)"
| "walk_node (Reg p None) inp out s = Inl (CannotOpen inp)"
| "walk_node (Reg p (Some bs)) inp out s =
     eject (st_mode_of (Reg p (Some bs))) out (length out) bs (word_of_nat (length bs)) s"
| "walk_node (Directory p es) inp out s =
     (case eject (st_mode_of (Directory p es)) out (length out) [] 0 s of
        Inl e \<Rightarrow> Inl e
      | Inr s' \<Rightarrow> walk_dir es inp out s')"
| "walk_node (Symlink p None) inp out s = Inl (CannotReadlink inp)"
| "walk_node (Symlink p (Some t)) inp out s =
     eject (st_mode_of (Symlink p (Some t))) out (length out) (take 1024 t)
       (word_of_nat (length (take 1024 t))) s"
| "walk_node (Special k p) inp out s = Inl (UnknownType inp)"
| "walk_dir None inp out s = Inl (CannotOpenDir inp)"
| "walk_dir (Some es) inp out s =
     run_all (\<lambda>e s'.
         let inp' = inp @ CHR ''/'' # fst e; out' = child_path out (fst e) in
         if length inp' + 1 > buf_size \<or> length out' + 1 > buf_size then Inl Overrun
         else walk_node (snd e) inp' out' s')
       (dir_names es) s"
  by pat_completeness auto
termination
  by (relation "measure (\<lambda>x. case x of
        Inl (n, _, _, _) \<Rightarrow> size n
      | Inr (es, _, _, _) \<Rightarrow> size_option (size_list (size_prod (\<lambda>x. 0) size)) es)")
    (auto dest: size_dir_names)

lemma walk_positions:
  "walk_node n inp out s = archive_node n inp out (length inp) (length out) s"
  "walk_dir es inp out s = archive_dir es inp out (length inp) (length out) s"
proof (induction n inp out s and es inp out s rule: walk_node_walk_dir.induct)
  case (9 es inp out s)
  have step: "(let inp' = inp @ CHR ''/'' # fst e; out' = child_path out (fst e) in
        if length inp' + 1 > buf_size \<or> length out' + 1 > buf_size then Inl Overrun else walk_node (snd e) inp' out' s') =
      (let inp' = take (length inp) inp @ CHR ''/'' # fst e; (out', olen') = extend_out out (length out) (fst e) in
        if length inp' + 1 > buf_size \<or> length out' + 1 > buf_size then Inl Overrun
        else archive_node (snd e) inp' out' (length inp + length (fst e) + 1) olen' s')"
    if "e \<in> set (dir_names es)" for e s'
  proof -
    have "extend_out out (length out) (fst e) = (child_path out (fst e), length (child_path out (fst e)))"
      by (simp add: extend_out_def child_path_def)
    then show ?thesis
      using 9 [OF that refl refl, of s'] by (simp add: Let_def)
  qed
  show ?case
    unfolding walk_dir.simps archive_dir.simps by (rule run_all_cong [OF refl refl]) (erule step)
qed (simp_all split: sum.split)

text \<open>\<open>archive\<close>: \<open>opendirs\<close> gives the entries of the directories named on the command line.\<close>

definition archive ::
    "(string \<Rightarrow> (string \<times> fsnode) list option) \<Rightarrow> string \<Rightarrow> string \<Rightarrow> archive_state \<Rightarrow>
       failure + archive_state" where
  "archive opendirs start pfx s =
     (if length start + 1 > buf_size \<or> length pfx + 1 > buf_size then Inl Overrun
      else archive_dir (opendirs start) start pfx (length start) (length pfx) s)"

lemma archive_walk:
  "archive opendirs start pfx s =
     (if length start + 1 > buf_size \<or> length pfx + 1 > buf_size then Inl Overrun
      else walk_dir (opendirs start) start pfx s)"
  by (simp add: archive_def walk_positions)

text \<open>\<open>main\<close>, on the arguments after the program's name; an argument is \<open>dir\<close> or \<open>dir=pfx\<close>.\<close>

definition split_arg :: "string \<Rightarrow> string \<times> string" where
  "split_arg arg =
     (if CHR ''='' \<in> set arg
      then (takeWhile (\<lambda>c. c \<noteq> CHR ''='') arg, tl (dropWhile (\<lambda>c. c \<noteq> CHR ''='') arg))
      else (arg, []))"

definition mkbootfs_main ::
    "(string \<Rightarrow> (string \<times> fsnode) list option) \<Rightarrow> string list \<Rightarrow> failure + archive_state" where
  "mkbootfs_main opendirs args =
     (if args = [] then Inl NoDirectories
      else case run_all (\<lambda>arg s. let (start, pfx) = split_arg arg
                                 in archive opendirs start pfx s) args initial_state of
        Inl e \<Rightarrow> Inl e
      | Inr s \<Rightarrow> eject_trailer s)"

section \<open>Sizes\<close>

text \<open>\<open>total_size\<close> counts the bytes written, modulo \<open>2 ^ 32\<close>.\<close>

definition sized :: "archive_state \<Rightarrow> bool" where
  "sized s \<longleftrightarrow> total_size s = word_of_nat (length (stdout s))"

lemma word_and_mask_0:
  assumes "k \<le> 32"
  shows "(word_of_nat n :: u32) AND (2 ^ k - 1) = 0 \<longleftrightarrow> n mod 2 ^ k = 0"
proof -
  have "unat ((word_of_nat n :: u32) AND (2 ^ k - 1)) = take_bit k (unat (word_of_nat n :: u32))"
    by (metis mask_eq_exp_minus_1 take_bit_eq_mask unsigned_take_bit_eq)
  also have "\<dots> = n mod 2 ^ k"
    using le_imp_power_dvd [OF assms, of "2::nat"]
    by (simp add: unsigned_of_nat take_bit_eq_mod mod_mod_cancel)
  finally show ?thesis by (metis unat_eq_zero)
qed

lemma pad_loop_sized:
  assumes "sized s" and "k \<le> 32"
  shows "pad_loop (2 ^ k - 1) s =
    s\<lparr>total_size := word_of_nat (length (stdout s) + pad_len (2 ^ k) (length (stdout s))),
      stdout := stdout s @ zeros (pad_len (2 ^ k) (length (stdout s)))\<rparr>"
  using assms(1)
proof (induction "pad_len (2 ^ k) (length (stdout s))" arbitrary: s)
  case 0
  have "length (stdout s) mod 2 ^ k = 0"
    using 0(1) pad_len_Suc [of "2 ^ k" "length (stdout s)"] by fastforce
  with 0 assms(2) show ?case
    by (simp add: pad_loop.simps [of _ s] sized_def word_and_mask_0)
next
  case (Suc n)
  let ?t = "s\<lparr>total_size := total_size s + 1, stdout := stdout s @ [0]\<rparr>"
  have ne: "length (stdout s) mod 2 ^ k \<noteq> 0"
    using Suc(2) by (metis dvd_eq_mod_eq_0 nat.distinct(1) pad_len_0)
  then have len: "pad_len (2 ^ k) (length (stdout s)) = Suc (pad_len (2 ^ k) (length (stdout ?t)))"
    by (simp add: pad_len_Suc)
  have "sized ?t" using Suc.prems by (simp add: sized_def)
  with Suc len have "pad_loop (2 ^ k - 1) ?t =
    ?t\<lparr>total_size := word_of_nat (length (stdout ?t) + pad_len (2 ^ k) (length (stdout ?t))),
      stdout := stdout ?t @ zeros (pad_len (2 ^ k) (length (stdout ?t)))\<rparr>"
    by simp
  moreover have "pad_loop (2 ^ k - 1) s = pad_loop (2 ^ k - 1) ?t"
    using ne Suc.prems assms(2)
    by (simp add: pad_loop.simps [of _ s] sized_def word_and_mask_0)
  ultimately show ?case
    using len by (simp add: zeros_Suc)
qed

lemmas pad_loop_3 = pad_loop_sized [where k = 2, simplified]
lemmas pad_loop_ff = pad_loop_sized [where k = 8, simplified]

lemma sized_pad_3: "sized s \<Longrightarrow> sized (pad_loop 3 s)"
  by (simp add: pad_loop_3) (simp add: sized_def)

section \<open>The archive a tree should give\<close>

text \<open>
  An entry is its mode before \<open>fix_stat\<close>, its name and its data. A tree gives, in the order of the
  sorted names, one entry for every file that is not skipped.
\<close>

type_synonym entry = "u32 \<times> string \<times> byte list"

function tree_entries :: "fsnode \<Rightarrow> string \<Rightarrow> entry list" where
  "tree_entries NoStat out = []"
| "tree_entries (Reg p c) out =
     (case c of None \<Rightarrow> []
      | Some bs \<Rightarrow> [(st_mode_of (Reg p c), out, take (length bs mod 2 ^ 32) bs)])"
| "tree_entries (Directory p es) out =
     (st_mode_of (Directory p es), out, []) #
     (case es of None \<Rightarrow> []
      | Some es' \<Rightarrow> concat (map (\<lambda>e. tree_entries (snd e) (child_path out (fst e))) (dir_names es')))"
| "tree_entries (Symlink p t) out =
     (case t of None \<Rightarrow> [] | Some bs \<Rightarrow> [(st_mode_of (Symlink p t), out, take 1024 bs)])"
| "tree_entries (Special k p) out = []"
  by pat_completeness auto
termination
  by (relation "measure (\<lambda>(n, _). size n)") (auto dest: size_dir_names)

definition dir_tree_entries :: "(string \<times> fsnode) list option \<Rightarrow> string \<Rightarrow> entry list" where
  "dir_tree_entries es out =
     (case es of None \<Rightarrow> []
      | Some es' \<Rightarrow> concat (map (\<lambda>e. tree_entries (snd e) (child_path out (fst e))) (dir_names es')))"

lemma tree_entries_Directory:
  "tree_entries (Directory p es) out =
     (st_mode_of (Directory p es), out, []) # dir_tree_entries es out"
  by (simp add: dir_tree_entries_def)

text \<open>The bytes of one entry, and of a sequence of entries with consecutive inode numbers.\<close>

definition entry_bytes :: "u32 \<Rightarrow> entry \<Rightarrow> byte list" where
  "entry_bytes ino e =
     (case e of (m, name, data) \<Rightarrow>
        cpio_header ino (fix_stat name m) (word_of_nat (length data)) (word_of_nat (length name + 1)) @
        bytes_of name @ [0] @ zeros (pad_len 4 (111 + length name)) @ data)"

fun emit_all :: "byte list \<Rightarrow> u32 \<Rightarrow> entry list \<Rightarrow> byte list" where
  "emit_all bs ino [] = bs"
| "emit_all bs ino (e # es) =
     emit_all (bs @ zeros (pad_len 4 (length bs)) @ entry_bytes ino e) (ino + 1) es"

text \<open>Running a part of the program wrote the given entries and nothing else.\<close>

definition wrote :: "archive_state \<Rightarrow> entry list \<Rightarrow> archive_state \<Rightarrow> bool" where
  "wrote s es s' \<longleftrightarrow> sized s' \<and> next_inode s' = next_inode s + word_of_nat (length es) \<and>
     stdout s' = emit_all (stdout s) (next_inode s) es"

lemma emit_all_append:
  "emit_all bs ino (xs @ ys) = emit_all (emit_all bs ino xs) (ino + word_of_nat (length xs)) ys"
  by (induction xs arbitrary: bs ino) (simp_all add: algebra_simps)

lemma wrote_Nil [simp]: "sized s \<Longrightarrow> wrote s [] s"
  by (simp add: wrote_def)

lemma wrote_trans: "wrote s xs t \<Longrightarrow> wrote t ys u \<Longrightarrow> wrote s (xs @ ys) u"
  by (simp add: wrote_def emit_all_append algebra_simps)

lemma length_cpio_header [simp]: "length (cpio_header ino m d n) = 110"
  by (simp add: cpio_header_def)

lemma eject_wrote:
  assumes "sized s" and "unat dsz = length (take (unat dsz) data)"
  shows "\<exists>s'. eject m out (length out) data dsz s = Inr s' \<and>
    wrote s [(m, out, take (unat dsz) data)] s'"
proof -
  define n where "n = length (stdout s) + pad_len 4 (length (stdout s))"
  define s1 where "s1 = pad_loop 3 s"
  have s1: "stdout s1 = stdout s @ zeros (pad_len 4 (length (stdout s)))"
    "next_inode s1 = next_inode s" "total_size s1 = word_of_nat n"
    using assms(1) by (simp_all add: s1_def pad_loop_3 n_def)
  define hdr where "hdr = cpio_header (next_inode s) (fix_stat out m) dsz
    (word_of_nat (length out + 1)) @ bytes_of out @ [0]"
  have hdr_len: "length hdr = 111 + length out" by (simp add: hdr_def)
  define s2 where "s2 = s1\<lparr>next_inode := next_inode s1 + 1,
    total_size := total_size s1 + word_of_nat (6 + 8 * 13 + length out + 1),
    stdout := stdout s1 @ hdr\<rparr>"
  have len2: "length (stdout s2) = n + (111 + length out)"
    by (simp add: s2_def s1 n_def hdr_len)
  have "sized s2"
    unfolding sized_def len2 by (simp add: s2_def s1 algebra_simps)
  have "4 dvd n" unfolding n_def by (rule dvd_add_pad) simp
  then have pad2: "pad_len 4 (length (stdout s2)) = pad_len 4 (111 + length out)"
    by (simp add: len2 pad_len_add_dvd del: One_nat_def)
  define s3 where "s3 = pad_loop 3 s2"
  have s3: "stdout s3 = stdout s2 @ zeros (pad_len 4 (111 + length out))"
    "next_inode s3 = next_inode s + 1" "sized s3"
    using \<open>sized s2\<close> sized_pad_3 [OF \<open>sized s2\<close>] pad2
    by (simp_all add: s3_def pad_loop_3) (simp add: s2_def s1)
  define s4 where "s4 = (if dsz \<noteq> 0 then s3\<lparr>total_size := total_size s3 + dsz,
    stdout := stdout s3 @ take (unat dsz) data\<rparr> else s3)"
  have dsz: "word_of_nat (length (take (unat dsz) data)) = dsz"
    using assms(2) [symmetric] by simp
  have out4: "stdout s4 = stdout s3 @ take (unat dsz) data"
    by (simp add: s4_def)
  have "sized s4"
    using s3(3) dsz by (auto simp: sized_def s4_def)
  have "eject m out (length out) data dsz s = Inr s4"
    by (simp add: eject_def Let_def s4_def s3_def s2_def hdr_def s1_def [symmetric] s1(2))
  moreover have "wrote s [(m, out, take (unat dsz) data)] s4"
    using \<open>sized s4\<close> s3(2) dsz
    by (simp add: wrote_def out4 s3(1) entry_bytes_def)
      (simp add: s4_def s2_def s1 hdr_def)
  ultimately show ?thesis by blast
qed

lemma run_all_wrote:
  assumes "run_all f xs s = Inr s'" and "sized s"
    and "\<And>x s s'. x \<in> set xs \<Longrightarrow> f x s = Inr s' \<Longrightarrow> sized s \<Longrightarrow> wrote s (es x) s'"
  shows "wrote s (concat (map es xs)) s'"
  using assms
proof (induction xs arbitrary: s)
  case Nil
  then show ?case by simp
next
  case (Cons x xs)
  then obtain t where t: "f x s = Inr t" "run_all f xs t = Inr s'"
    by (auto split: sum.splits)
  with Cons.prems have "wrote s (es x) t" by simp
  moreover from this have "sized t" by (simp add: wrote_def)
  then have "wrote t (concat (map es xs)) s'"
    using Cons t(2) by simp
  ultimately show ?case by (simp add: wrote_trans)
qed

lemma archive_wrote:
  shows "walk_node n inp out s = Inr s' \<Longrightarrow> sized s \<Longrightarrow> wrote s (tree_entries n out) s'"
    and "walk_dir es inp out s = Inr s' \<Longrightarrow> sized s \<Longrightarrow> wrote s (dir_tree_entries es out) s'"
proof (induction n inp out s and es inp out s arbitrary: s' and s'
    rule: walk_node_walk_dir.induct)
  case (3 p bs inp out s)
  have "unat (word_of_nat (length bs) :: u32) = length bs mod 2 ^ 32"
    by (simp add: unsigned_of_nat take_bit_eq_mod)
  then show ?case
    using 3 eject_wrote [of s "word_of_nat (length bs)" bs "st_mode_of (Reg p (Some bs))" out]
    by simp
next
  case (4 p es inp out s)
  obtain t where t: "eject (st_mode_of (Directory p es)) out (length out) [] 0 s = Inr t"
    "walk_dir es inp out t = Inr s'"
    using 4(2) by (auto split: sum.splits)
  have "wrote s [(st_mode_of (Directory p es), out, [])] t"
    using eject_wrote [of s 0 "[]" "st_mode_of (Directory p es)" out] 4(3) t(1) by simp
  moreover from this have "sized t" by (simp add: wrote_def)
  then have "wrote t (dir_tree_entries es out) s'"
    by (rule 4(1) [OF t])
  ultimately have "wrote s ([(st_mode_of (Directory p es), out, [])] @ dir_tree_entries es out) s'"
    by (rule wrote_trans)
  then show ?case
    by (simp add: tree_entries_Directory del: tree_entries.simps)
next
  case (6 p t inp out s)
  have "unat (word_of_nat (min (length t) 1024) :: u32) = min (length t) 1024"
    by (simp add: unsigned_of_nat take_bit_nat_eq_self)
  then show ?case
    using 6 eject_wrote [of s "word_of_nat (length (take 1024 t))" "take 1024 t"
        "st_mode_of (Symlink p (Some t))" out]
    by (simp add: min_def split: if_splits)
next
  case (9 es inp out s)
  show ?case
    unfolding dir_tree_entries_def option.case
    by (rule run_all_wrote [OF 9(2) [unfolded walk_dir.simps] 9(3)])
      (auto simp: Let_def intro: 9(1) [OF _ _ refl] split: if_splits)
qed simp_all

text \<open>The entries of a whole run, the trailer included, and the archive they make.\<close>

definition args_entries :: "(string \<Rightarrow> (string \<times> fsnode) list option) \<Rightarrow> string list \<Rightarrow> entry list" where
  "args_entries opendirs args =
     concat (map (\<lambda>arg. dir_tree_entries (opendirs (fst (split_arg arg))) (snd (split_arg arg))) args)"

definition trailer :: entry where
  "trailer = (0, ''TRAILER!!!'', [])"

lemma trailer_length: "length ''TRAILER!!!'' = 10"
  by simp

lemma sized_initial [simp]: "sized initial_state"
  by (simp add: sized_def initial_state_def)

lemma mkbootfs_wrote:
  assumes "mkbootfs_main opendirs args = Inr s"
  shows "stdout s = emit_all [] 300000 (args_entries opendirs args @ [trailer]) @
      zeros (pad_len 256 (length (emit_all [] 300000 (args_entries opendirs args @ [trailer]))))"
    and "sized s"
proof -
  let ?es = "args_entries opendirs args @ [trailer]"
  obtain t u where t: "run_all (\<lambda>arg s. let (start, pfx) = split_arg arg
        in archive opendirs start pfx s) args initial_state = Inr t"
    and u: "eject 0 ''TRAILER!!!'' 10 [] 0 t = Inr u" and s: "s = pad_loop 0xFF u"
    using assms by (auto simp: mkbootfs_main_def eject_trailer_def split: if_splits sum.splits)
  have "wrote initial_state (args_entries opendirs args) t"
    unfolding args_entries_def
    by (rule run_all_wrote [OF t]) (auto simp: archive_walk archive_wrote split: if_splits prod.splits)
  moreover from this have "sized t" by (simp add: wrote_def)
  then have "wrote t [trailer] u"
    using eject_wrote [of t 0 "[]" 0 "''TRAILER!!!''", unfolded trailer_length] u
    by (simp add: trailer_def)
  ultimately have "wrote initial_state ?es u" by (rule wrote_trans)
  then have out: "stdout u = emit_all [] 300000 ?es" and "sized u"
    by (simp_all add: wrote_def initial_state_def)
  from \<open>sized u\<close> show "stdout s = emit_all [] 300000 ?es @
      zeros (pad_len 256 (length (emit_all [] 300000 ?es)))"
    by (simp only: s pad_loop_ff out) simp
  from \<open>sized u\<close> show "sized s"
    by (simp add: s pad_loop_ff) (simp add: sized_def)
qed

section \<open>Reading an archive back\<close>

text \<open>
  The format of the entries, as a reader: 110 bytes of header (a magic number and thirteen fields
  of eight digits), the name with its NUL, padding to a multiple of four, the data, padding again.
  The entry named \<open>TRAILER!!!\<close> ends the archive.
\<close>

definition unhex_digit :: "byte \<Rightarrow> nat" where
  "unhex_digit b = (if unat b < 58 then unat b - 48 else unat b - 87)"

definition unhex :: "byte list \<Rightarrow> nat" where
  "unhex bs = foldl (\<lambda>a b. 16 * a + unhex_digit b) 0 bs"

text \<open>The \<open>k\<close>-th field after the magic number.\<close>

definition field :: "nat \<Rightarrow> byte list \<Rightarrow> nat" where
  "field k bs = unhex (take 8 (drop (6 + 8 * k) bs))"

definition up4 :: "nat \<Rightarrow> nat" where
  "up4 n = n + pad_len 4 n"

type_synonym cpio_entry = "nat \<times> nat \<times> byte list \<times> byte list"

function read_cpio :: "byte list \<Rightarrow> cpio_entry list option" where
  "read_cpio bs =
     (if length bs < 110 \<or> take 6 bs \<noteq> hex 6 0x070701 then None
      else
        let namesize = field 11 bs; filesize = field 6 bs;
            rest = drop (up4 (110 + namesize)) bs;
            name = take (namesize - 1) (drop 110 bs)
        in if name = bytes_of ''TRAILER!!!'' then Some []
           else if length rest < filesize then None
           else (case read_cpio (drop (up4 filesize) rest) of
                   None \<Rightarrow> None
                 | Some es \<Rightarrow> Some ((field 0 bs, field 1 bs, name, take filesize rest) # es)))"
  by pat_completeness auto
termination
  by (relation "measure length") (auto simp: up4_def)

declare read_cpio.simps [simp del]

lemma unhex_digit_hex_digit: "d < 16 \<Longrightarrow> unhex_digit (hex_digit d) = d"
  by (auto simp: unhex_digit_def hex_digit_def unsigned_of_nat take_bit_nat_eq_self
      simp del: of_nat_add)

lemma foldl_unhex: "foldl (\<lambda>a b. 16 * a + unhex_digit b) a bs = a * 16 ^ length bs + unhex bs"
proof (induction bs arbitrary: a)
  case Nil
  then show ?case by (simp add: unhex_def)
next
  case (Cons b bs)
  have "unhex (b # bs) = unhex_digit b * 16 ^ length bs + unhex bs"
    using Cons [of "unhex_digit b"] by (simp add: unhex_def)
  then show ?case using Cons [of "16 * a + unhex_digit b"] by (simp add: algebra_simps)
qed

lemma unhex_Cons: "unhex (b # bs) = unhex_digit b * 16 ^ length bs + unhex bs"
  using foldl_unhex [of "unhex_digit b" bs] by (simp add: unhex_def)

lemma unhex_hex: "unhex (hex n w) = unat w mod 16 ^ n"
proof (induction n)
  case 0
  then show ?case by (simp add: unhex_def)
next
  case (Suc n)
  have "unat (drop_bit (4 * n) w AND 15) = unat w div 2 ^ (4 * n) mod 16"
  proof -
    have "drop_bit (4 * n) w AND 15 = take_bit 4 (drop_bit (4 * n) w)"
      by (simp add: take_bit_eq_mask mask_eq_exp_minus_1)
    then have "unat (drop_bit (4 * n) w AND 15) = take_bit 4 (drop_bit (4 * n) (unat w))"
      by (simp only: unsigned_take_bit_eq unat_drop_bit_eq)
    then show ?thesis by (simp add: take_bit_eq_mod drop_bit_eq_div)
  qed
  then have "unhex (hex (Suc n) w) = (unat w div 16 ^ n mod 16) * 16 ^ n + unat w mod 16 ^ n"
    by (simp add: unhex_Cons unhex_digit_hex_digit Suc power_mult)
  also have "\<dots> = unat w mod 16 ^ Suc n"
    using mod_mult2_eq [of "unat w" "16 ^ n" 16] by (simp add: mult.commute)
  finally show ?case .
qed

lemma unhex_hex_8 [simp]: "unhex (hex 8 w) = unat w"
proof -
  have "unat w < 2 ^ LENGTH(32)" by (rule unsigned_less)
  then show ?thesis by (simp add: unhex_hex)
qed

lemma field_cpio_header:
  "field 0 (cpio_header ino m d n @ r) = unat ino"
  "field 1 (cpio_header ino m d n @ r) = unat m"
  "field 6 (cpio_header ino m d n @ r) = unat d"
  "field 11 (cpio_header ino m d n @ r) = unat n"
  by (simp_all add: field_def cpio_header_def del: hex.simps)

text \<open>
  The archive from front to back: every entry padded to a multiple of four.
\<close>

fun chunks :: "u32 \<Rightarrow> entry list \<Rightarrow> byte list" where
  "chunks ino [] = []"
| "chunks ino (e # es) =
     entry_bytes ino e @ zeros (pad_len 4 (length (snd (snd e)))) @ chunks (ino + 1) es"

lemma length_entry_bytes:
  "length (entry_bytes ino e) = up4 (111 + length (fst (snd e))) + length (snd (snd e))"
  by (simp add: entry_bytes_def up4_def split: prod.split)

lemma up4_dvd: "4 dvd up4 n"
  unfolding up4_def by (rule dvd_add_pad) simp

lemma pad_after_entry:
  assumes "4 dvd n"
  shows "pad_len 4 (n + length (entry_bytes ino e)) = pad_len 4 (length (snd (snd e)))"
  using assms up4_dvd [of "111 + length (fst (snd e))"]
  by (simp add: length_entry_bytes pad_len_add_dvd add.assoc [symmetric] del: add_Suc add_Suc_right)

lemma emit_all_chunks:
  assumes "es \<noteq> []"
  shows "emit_all bs ino es @ zeros (pad_len 4 (length (emit_all bs ino es))) =
    bs @ zeros (pad_len 4 (length bs)) @ chunks ino es"
  using assms
proof (induction es arbitrary: bs ino)
  case Nil
  then show ?case by simp
next
  case (Cons e es)
  let ?b = "bs @ zeros (pad_len 4 (length bs))"
  have "4 dvd length ?b" by (simp add: dvd_add_pad)
  then have pad: "pad_len 4 (length (?b @ entry_bytes ino e)) = pad_len 4 (length (snd (snd e)))"
    using pad_after_entry [of "length ?b" ino e] by (simp only: length_append)
  show ?case
  proof (cases "es = []")
    case True
    then show ?thesis using pad by simp
  next
    case False
    from Cons.IH [OF False, of "?b @ entry_bytes ino e" "ino + 1"] pad show ?thesis by simp
  qed
qed

text \<open>Entries that the format can represent: not the trailer, sizes within 32 bits.\<close>

definition plain_entry :: "entry \<Rightarrow> bool" where
  "plain_entry e \<longleftrightarrow> fst (snd e) \<noteq> ''TRAILER!!!'' \<and> length (fst (snd e)) + 1 < 2 ^ 32 \<and>
     length (snd (snd e)) < 2 ^ 32"

text \<open>What a reader should see of the entries: their inode number, final mode, name and data.\<close>

fun seen :: "u32 \<Rightarrow> entry list \<Rightarrow> cpio_entry list" where
  "seen ino [] = []"
| "seen ino ((m, name, data) # es) =
     (unat ino, unat (fix_stat name m), bytes_of name, data) # seen (ino + 1) es"

lemma read_cpio_entry_bytes:
  fixes name :: string and data :: "byte list"
  assumes "length name + 1 < 2 ^ 32" and "length data < 2 ^ 32"
    and bs_def: "bs = entry_bytes ino (m, name, data) @ zeros (pad_len 4 (length data)) @ r"
  shows "\<not> length bs < 110" and "take 6 bs = hex 6 0x070701"
    and "field 0 bs = unat ino" and "field 1 bs = unat (fix_stat name m)"
    and "field 6 bs = length data" and "field 11 bs = length name + 1"
    and "take (length name) (drop 110 bs) = bytes_of name"
    and "drop (up4 (111 + length name)) bs = data @ zeros (pad_len 4 (length data)) @ r"
proof -
  define h where "h = cpio_header ino (fix_stat name m) (word_of_nat (length data))
    (word_of_nat (length name + 1))"
  define tail where "tail = bytes_of name @ [0] @ zeros (pad_len 4 (111 + length name)) @ data @
    zeros (pad_len 4 (length data)) @ r"
  have bs: "bs = h @ tail"
    by (simp add: bs_def h_def tail_def entry_bytes_def)
  have "length h = 110" by (simp add: h_def)
  show "\<not> length bs < 110" by (simp add: bs \<open>length h = 110\<close>)
  show "take 6 bs = hex 6 0x070701"
    by (simp add: bs h_def cpio_header_def del: hex.simps)
  show "field 0 bs = unat ino" "field 1 bs = unat (fix_stat name m)"
    by (simp_all only: bs h_def field_cpio_header)
  show "field 6 bs = length data"
    by (simp only: bs h_def field_cpio_header unat_word_of_nat_small [OF assms(2)])
  show "field 11 bs = length name + 1"
    by (simp only: bs h_def field_cpio_header unat_word_of_nat_small [OF assms(1)])
  show "take (length name) (drop 110 bs) = bytes_of name"
    by (simp add: bs \<open>length h = 110\<close> tail_def)
  have "length (h @ bytes_of name @ [0] @ zeros (pad_len 4 (111 + length name)))
      = up4 (111 + length name)"
    by (simp add: \<open>length h = 110\<close> up4_def)
  moreover have "bs = (h @ bytes_of name @ [0] @ zeros (pad_len 4 (111 + length name))) @
      data @ zeros (pad_len 4 (length data)) @ r"
    by (simp add: bs tail_def)
  ultimately show "drop (up4 (111 + length name)) bs = data @ zeros (pad_len 4 (length data)) @ r"
    by (metis append_eq_conv_conj)
qed

lemma read_cpio_Cons:
  assumes "plain_entry (m, name, data)"
  shows "read_cpio (entry_bytes ino (m, name, data) @ zeros (pad_len 4 (length data)) @ r) =
    map_option ((#) (unat ino, unat (fix_stat name m), bytes_of name, data)) (read_cpio r)"
proof -
  define bs where "bs = entry_bytes ino (m, name, data) @ zeros (pad_len 4 (length data)) @ r"
  have sizes: "length name + 1 < 2 ^ 32" "length data < 2 ^ 32"
    using assms by (simp_all add: plain_entry_def)
  note parts = read_cpio_entry_bytes [OF sizes bs_def]
  have "bytes_of name \<noteq> bytes_of ''TRAILER!!!''"
    using assms by (simp only: bytes_of_eq_iff) (simp add: plain_entry_def)
  moreover have "drop (up4 (length data)) (data @ zeros (pad_len 4 (length data)) @ r) = r"
    by (simp add: up4_def)
  moreover have "110 + (length name + 1) = 111 + length name" by simp
  ultimately have "read_cpio bs =
      map_option ((#) (unat ino, unat (fix_stat name m), bytes_of name, data)) (read_cpio r)"
    using parts(1)
    by (subst read_cpio.simps)
      (simp add: parts Let_def del: hex.simps drop_append One_nat_def split: option.split)
  then show ?thesis by (simp only: bs_def)
qed

lemma read_cpio_trailer:
  "read_cpio (entry_bytes ino trailer @ zeros 0 @ r) = Some []"
proof -
  note parts = read_cpio_entry_bytes [OF _ _ refl, of "''TRAILER!!!''" "[]" ino 0 r,
      unfolded trailer_length]
  show ?thesis unfolding trailer_def
    by (subst read_cpio.simps) (use parts in \<open>simp add: Let_def del: hex.simps\<close>)
qed

lemma read_cpio_chunks:
  assumes "\<forall>e\<in>set es. plain_entry e"
  shows "read_cpio (chunks ino (es @ [trailer]) @ r) = Some (seen ino es)"
  using assms
proof (induction es arbitrary: ino)
  case Nil
  then show ?case using read_cpio_trailer [of ino r] by (simp add: trailer_def)
next
  case (Cons e es)
  obtain m name data where e: "e = (m, name, data)" by (cases e) auto
  from Cons show ?case by (simp add: e read_cpio_Cons)
qed

section \<open>The order of readdir\<close>

text \<open>
  Two trees are the same up to the order in which their directories list their entries; the names
  of a directory are distinct.
\<close>

inductive same_tree :: "fsnode \<Rightarrow> fsnode \<Rightarrow> bool" where
  same_refl: "same_tree n n"
| same_dir: "list_all2 (\<lambda>a b. fst a = fst b \<and> same_tree (snd a) (snd b)) es fs \<Longrightarrow>
    mset fs = mset gs \<Longrightarrow> distinct (map fst es) \<Longrightarrow> \<forall>e\<in>set es. cstring (fst e) \<Longrightarrow>
    same_tree (Directory p (Some es)) (Directory p (Some gs))"

lemma list_all2_qsort_insert:
  assumes "list_all2 R xs ys" and "R x y" and "\<And>a b c d. R a b \<Longrightarrow> R c d \<Longrightarrow> cmp a c = cmp b d"
  shows "list_all2 R (qsort_insert cmp x xs) (qsort_insert cmp y ys)"
  using assms(1) by (induction rule: list_all2_induct) (use assms(2,3) in auto)

lemma list_all2_qsort:
  assumes "list_all2 R xs ys" and "\<And>a b c d. R a b \<Longrightarrow> R c d \<Longrightarrow> cmp a c = cmp b d"
  shows "list_all2 R (qsort cmp xs) (qsort cmp ys)"
  using assms(1) by (induction rule: list_all2_induct) (simp_all add: list_all2_qsort_insert assms(2))

lemma list_all2_filter:
  assumes "list_all2 R xs ys" and "\<And>a b. R a b \<Longrightarrow> P a = P b"
  shows "list_all2 R (filter P xs) (filter P ys)"
  using assms(1) by (induction rule: list_all2_induct) (use assms(2) in auto)

lemma list_all2_dir_names:
  fixes es fs :: "(string \<times> 'n) list"
  assumes "list_all2 R es fs" and "\<And>a b. R a b \<Longrightarrow> fst a = fst b"
  shows "list_all2 R (dir_names es) (dir_names fs)"
proof -
  have "list_all2 R (filter (\<lambda>e. \<not> skip_entry (fst e)) es) (filter (\<lambda>e. \<not> skip_entry (fst e)) fs)"
    by (rule list_all2_filter [OF assms(1)]) (simp add: assms(2))
  then show ?thesis
    unfolding dir_names_def by (rule list_all2_qsort) (simp add: assms(2))
qed

lemma strict_comparison_entries:
  assumes "distinct (map fst es)" and "\<forall>e\<in>set es. cstring (fst e)"
  shows "strict_comparison (\<lambda>a b. strcmp (fst a) (fst b)) (\<lambda>e. e \<in> set es)"
proof unfold_locales
  fix a b c
  assume "a \<in> set es" "b \<in> set es"
  then have ok: "cstring (fst a)" "cstring (fst b)" using assms(2) by auto
  show "sgn (strcmp (fst a) (fst b)) = - sgn (strcmp (fst b) (fst a))"
    using ok by (rule strcmp.antisym)
  show "strcmp (fst a) (fst b) = 0 \<Longrightarrow> a = b"
    using ok \<open>a \<in> set es\<close> \<open>b \<in> set es\<close> assms(1)
    by (metis distinct_map inj_onD strcmp_eq_0_iff)
  assume "c \<in> set es" "strcmp (fst a) (fst b) \<le> 0" "strcmp (fst b) (fst c) \<le> 0"
  then show "strcmp (fst a) (fst c) \<le> 0"
    using ok assms(2) strcmp.trans by blast
qed

lemma dir_names_perm:
  assumes "mset es = mset fs" and "distinct (map fst es)" and "\<forall>e\<in>set es. cstring (fst e)"
  shows "dir_names es = dir_names fs"
  unfolding dir_names_def
  by (rule strict_comparison.qsort_perm [OF strict_comparison_entries [OF assms(2,3)]])
    (use assms(1) in \<open>auto simp: mset_filter\<close>)

lemma run_all_list_all2:
  assumes "list_all2 R xs ys" and "\<And>x y s. R x y \<Longrightarrow> f x s = g y s"
  shows "run_all f xs s = run_all g ys s"
  using assms(1)
proof (induction arbitrary: s rule: list_all2_induct)
  case Nil
  then show ?case by simp
next
  case (Cons x xs y ys)
  then show ?case using assms(2) [OF Cons(1)] by (auto split: sum.split)
qed

lemma walk_dir_same_step:
  assumes "list_all2 (\<lambda>a b. fst a = fst b \<and>
      (\<forall>inp out s. walk_node (snd a) inp out s = walk_node (snd b) inp out s)) es fs"
    and "mset fs = mset gs" and "distinct (map fst es)" and "\<forall>e\<in>set es. cstring (fst e)"
  shows "walk_dir (Some es) inp out s = walk_dir (Some gs) inp out s"
proof -
  have "map fst es = map fst fs"
    using assms(1) by (induction rule: list_all2_induct) auto
  with assms(3,4) have "distinct (map fst fs)" and "\<forall>e\<in>set fs. cstring (fst e)"
    by (simp, metis (no_types) image_set imageE imageI)
  with assms(2) have eq: "dir_names fs = dir_names gs" by (rule dir_names_perm)
  have "list_all2 (\<lambda>a b. fst a = fst b \<and>
      (\<forall>inp out s. walk_node (snd a) inp out s = walk_node (snd b) inp out s))
      (dir_names es) (dir_names fs)"
    using assms(1) by (rule list_all2_dir_names) simp
  then show ?thesis
    unfolding walk_dir.simps eq [symmetric]
    by (rule run_all_list_all2) (simp add: Let_def)
qed

lemma archive_same:
  "same_tree n n' \<Longrightarrow> walk_node n inp out s = walk_node n' inp out s"
proof (induction arbitrary: inp out s rule: same_tree.induct)
  case (same_refl n)
  show ?case ..
next
  case (same_dir es fs gs p)
  have "list_all2 (\<lambda>a b. fst a = fst b \<and>
      (\<forall>inp out s. walk_node (snd a) inp out s = walk_node (snd b) inp out s)) es fs"
    using same_dir(1) by (rule list_all2_mono) blast
  then have "walk_dir (Some es) inp out s = walk_dir (Some gs) inp out s" for inp out s
    using same_dir(2-4) by (rule walk_dir_same_step)
  then show ?case by (simp del: walk_dir.simps split: sum.split)
qed

lemma walk_dir_same:
  assumes "same_tree (Directory p es) (Directory p gs)"
  shows "walk_dir es inp out s = walk_dir gs inp out s"
  using assms
proof (cases rule: same_tree.cases)
  case (same_dir xs fs ys)
  have "list_all2 (\<lambda>a b. fst a = fst b \<and>
      (\<forall>inp out s. walk_node (snd a) inp out s = walk_node (snd b) inp out s)) xs fs"
    using same_dir(3) by (rule list_all2_mono) (auto intro: archive_same)
  then show ?thesis
    unfolding same_dir(1,2) using same_dir(4-6) by (rule walk_dir_same_step)
qed simp

section \<open>Names and success\<close>

text \<open>The name of a file reached from a directory by a list of names.\<close>

definition name_at :: "string \<Rightarrow> string list \<Rightarrow> string" where
  "name_at out ns = foldl child_path out ns"

lemma name_at_Cons: "name_at (child_path out n) ns = name_at out (n # ns)"
  by (simp add: name_at_def)

lemma tree_entries_names:
  assumes "e \<in> set (tree_entries n out)"
  shows "\<exists>ns. fst (snd e) = name_at out ns \<and> (\<forall>x\<in>set ns. \<not> skip_entry x)"
  using assms
proof (induction n out rule: tree_entries.induct)
  case (3 p es out)
  show ?case
  proof (cases "e = (st_mode_of (Directory p es), out, [])")
    case True
    then show ?thesis by (intro exI [of _ "[]"]) (simp add: name_at_def)
  next
    case False
    with 3(2) obtain es' c where c: "es = Some es'" "c \<in> set (dir_names es')"
      "e \<in> set (tree_entries (snd c) (child_path out (fst c)))"
      by (auto split: option.splits)
    then obtain ns where "fst (snd e) = name_at (child_path out (fst c)) ns"
      "\<forall>x\<in>set ns. \<not> skip_entry x"
      using 3(1) by blast
    with c(2) show ?thesis
      by (intro exI [of _ "fst c # ns"]) (simp add: name_at_Cons)
  qed
qed (auto simp: name_at_def split: option.splits intro: exI [of _ "[]"])

lemma dir_tree_entries_names:
  assumes "e \<in> set (dir_tree_entries es out)"
  shows "\<exists>ns. ns \<noteq> [] \<and> fst (snd e) = name_at out ns \<and> (\<forall>x\<in>set ns. \<not> skip_entry x)"
proof -
  from assms obtain es' c where c: "c \<in> set (dir_names es')"
    "e \<in> set (tree_entries (snd c) (child_path out (fst c)))"
    by (auto simp: dir_tree_entries_def split: option.splits)
  then obtain ns where "fst (snd e) = name_at (child_path out (fst c)) ns"
    "\<forall>x\<in>set ns. \<not> skip_entry x"
    using tree_entries_names by blast
  with c(1) show ?thesis by (intro exI [of _ "fst c # ns"]) (simp add: name_at_Cons)
qed

text \<open>
  A tree that can be archived: everything that is not skipped can be read, and the paths below it
  are at most \<open>k\<close> characters longer than its own.
\<close>

function fits :: "fsnode \<Rightarrow> nat \<Rightarrow> bool" where
  "fits NoStat k = False"
| "fits (Reg p c) k = (c \<noteq> None)"
| "fits (Directory p es) k =
     (case es of None \<Rightarrow> False
      | Some es' \<Rightarrow> (\<forall>e\<in>set (dir_names es').
           length (fst e) + 1 \<le> k \<and> fits (snd e) (k - (length (fst e) + 1))))"
| "fits (Symlink p t) k = (t \<noteq> None)"
| "fits (Special s p) k = False"
  by pat_completeness auto
termination
  by (relation "measure (\<lambda>(n, _). size n)") (auto dest: size_dir_names)

lemma run_all_succeeds:
  assumes "\<And>x s. x \<in> set xs \<Longrightarrow> P s \<Longrightarrow> \<exists>s'. f x s = Inr s' \<and> P s'" and "P s"
  shows "\<exists>s'. run_all f xs s = Inr s' \<and> P s'"
  using assms
proof (induction xs arbitrary: s)
  case Nil
  then show ?case by simp
next
  case (Cons x xs)
  then obtain t where "f x s = Inr t" "P t" by (meson list.set_intros(1))
  moreover from Cons this have "\<exists>s'. run_all f xs t = Inr s' \<and> P s'"
    by (meson list.set_intros(2))
  ultimately show ?case by simp
qed

lemma length_child_path: "length (child_path out name) \<le> length out + 1 + length name"
  by (simp add: child_path_def)

lemma eject_succeeds: "\<exists>s'. eject m out (length out) data dsz s = Inr s'"
  by (simp add: eject_def Let_def)

lemma archive_succeeds:
  shows "fits n k \<Longrightarrow> length inp + k < buf_size \<Longrightarrow> length out + k < buf_size \<Longrightarrow>
      \<exists>s'. walk_node n inp out s = Inr s'"
    and "fits (Directory 0 es) k \<Longrightarrow> length inp + k < buf_size \<Longrightarrow> length out + k < buf_size \<Longrightarrow>
      \<exists>s'. walk_dir es inp out s = Inr s'"
proof (induction n inp out s and es inp out s arbitrary: k and k
    rule: walk_node_walk_dir.induct)
  case (3 p bs inp out s)
  show ?case by (simp only: walk_node.simps) (rule eject_succeeds)
next
  case (4 p es inp out s)
  obtain t where t: "eject (st_mode_of (Directory p es)) out (length out) [] 0 s = Inr t"
    using eject_succeeds by blast
  have "fits (Directory 0 es) k" using 4(2) by simp
  with 4 t show ?case by (simp del: walk_dir.simps fits.simps st_mode_of.simps)
next
  case (6 p t inp out s)
  show ?case by (simp only: walk_node.simps) (rule eject_succeeds)
next
  case (9 es inp out s)
  show ?case
  proof -
    have "\<exists>s'. run_all (\<lambda>e s'.
         let inp' = inp @ CHR ''/'' # fst e; out' = child_path out (fst e) in
         if length inp' + 1 > buf_size \<or> length out' + 1 > buf_size then Inl Overrun
         else walk_node (snd e) inp' out' s')
       (dir_names es) s = Inr s' \<and> True"
    proof (rule run_all_succeeds)
      fix e and s1 :: archive_state
      assume e: "e \<in> set (dir_names es)"
      let ?inp = "inp @ CHR ''/'' # fst e" and ?out = "child_path out (fst e)"
      have k: "length (fst e) + 1 \<le> k" "fits (snd e) (k - (length (fst e) + 1))"
        using 9(2) e unfolding fits.simps option.case by blast+
      have room: "length ?inp + (k - (length (fst e) + 1)) < buf_size"
        "length ?out + (k - (length (fst e) + 1)) < buf_size"
        using 9(3,4) k(1) length_child_path [of out "fst e"] by auto
      then have "\<not> (length ?inp + 1 > buf_size \<or> length ?out + 1 > buf_size)" by linarith
      moreover from this have "\<exists>s'. walk_node (snd e) ?inp ?out s1 = Inr s'"
        by (rule 9(1) [OF e refl refl _ k(2) room])
      ultimately show "\<exists>s'. (let inp' = inp @ CHR ''/'' # fst e; out' = child_path out (fst e) in
          if length inp' + 1 > buf_size \<or> length out' + 1 > buf_size then Inl Overrun
          else walk_node (snd e) inp' out' s1) = Inr s' \<and> True"
        by (simp add: Let_def)
    qed simp
    then show ?thesis by (simp only: walk_dir.simps simp_thms)
  qed
qed simp_all

lemma mkbootfs_main_succeeds:
  assumes "args \<noteq> []"
    and "\<forall>arg\<in>set args. fits (Directory 0 (opendirs (fst (split_arg arg)))) k \<and>
      length (fst (split_arg arg)) + k < buf_size \<and> length (snd (split_arg arg)) + k < buf_size"
  shows "\<exists>s. mkbootfs_main opendirs args = Inr s"
proof -
  have "\<exists>s. run_all (\<lambda>arg s. let (start, pfx) = split_arg arg
      in archive opendirs start pfx s) args initial_state = Inr s \<and> True"
  proof (rule run_all_succeeds)
    fix arg s assume "arg \<in> set args"
    with assms(2) have fit: "fits (Directory 0 (opendirs (fst (split_arg arg)))) k"
      "length (fst (split_arg arg)) + k < buf_size" "length (snd (split_arg arg)) + k < buf_size"
      by blast+
    from archive_succeeds(2) [OF fit] fit(2,3)
    show "\<exists>s'. (let (start, pfx) = split_arg arg in archive opendirs start pfx s) = Inr s' \<and> True"
      by (simp add: archive_walk split_beta)
  qed simp
  then obtain t where t: "run_all (\<lambda>arg s. let (start, pfx) = split_arg arg
      in archive opendirs start pfx s) args initial_state = Inr t" by blast
  moreover obtain u where "eject 0 ''TRAILER!!!'' 10 [] 0 t = Inr u"
    using eject_succeeds [of 0 "''TRAILER!!!''" "[]" 0 t, unfolded trailer_length] by blast
  ultimately show ?thesis using assms(1) by (simp add: mkbootfs_main_def eject_trailer_def)
qed

lemma in_seenD: "(i, m, name, data) \<in> set (seen ino es) \<Longrightarrow> \<exists>e\<in>set es. name = bytes_of (fst (snd e))"
  by (induction ino es rule: seen.induct) auto

section \<open>Properties\<close>

lemma mkbootfs_chunks:
  assumes "mkbootfs_main opendirs args = Inr s"
  shows "\<exists>k. stdout s = chunks 300000 (args_entries opendirs args @ [trailer]) @ zeros k"
proof -
  define b where "b = emit_all [] 300000 (args_entries opendirs args @ [trailer])"
  have b: "b @ zeros (pad_len 4 (length b)) = chunks 300000 (args_entries opendirs args @ [trailer])"
    unfolding b_def by (subst emit_all_chunks) simp_all
  have "256 dvd length b + pad_len 256 (length b)" by (rule dvd_add_pad) simp
  then have "4 dvd length b + pad_len 256 (length b)" by (rule dvd_trans [rotated]) simp
  then have "pad_len 4 (length b) \<le> pad_len 256 (length b)" by (rule pad_len_le)
  then have "zeros (pad_len 256 (length b)) =
      zeros (pad_len 4 (length b)) @ zeros (pad_len 256 (length b) - pad_len 4 (length b))"
    by (simp add: zeros_add)
  then show ?thesis
    using mkbootfs_wrote(1) [OF assms] b unfolding b_def [symmetric] by (metis append.assoc)
qed

text \<open>
  C2: The archive reads back: after a run that succeeds, a reader of the cpio format finds in the
  output exactly the entries of the given trees, in order, with consecutive inode numbers from
  300000, the permissions of \<open>fs_config\<close>, the names and the data. As the format demands, no entry has the name of
  the trailer, and names and data are below 4 GiB (\<open>plain_entry\<close>).
\<close>

theorem mkbootfs_round_trip:
  assumes "mkbootfs_main opendirs args = Inr s"
    and "\<forall>e\<in>set (args_entries opendirs args). plain_entry e"
  shows "read_cpio (stdout s) = Some (seen 300000 (args_entries opendirs args))"
  using mkbootfs_chunks [OF assms(1)] read_cpio_chunks [OF assms(2)] by auto

text \<open>A small tree, for the witnesses.\<close>

definition sample_dirs :: "string \<Rightarrow> (string \<times> fsnode) list option" where
  "sample_dirs d =
     (if d = ''out'' then Some [(''init'', Reg 0x1ED (Some [1, 2, 3])), (''.git'', NoStat),
        (''bin'', Directory 0x1ED (Some [(''sh'', Symlink 0x1FF (Some [98]))])), (''root'', NoStat)]
      else None)"

lemma sample_names:
  "dir_names [(''init'', a), (''.git'', b), (''bin'', c), (''root'', d)] = [(''bin'', c), (''init'', a)]"
  "dir_names [(''sh'', e)] = [(''sh'', e)]"
  by (simp_all add: dir_names_def skip_entry_def)

lemma sample_entries:
  "args_entries sample_dirs [''out=x''] =
    [(0x41ED, ''x/bin'', []), (0xA1FF, ''x/bin/sh'', [98]), (0x81ED, ''x/init'', [1, 2, 3])]"
  by (simp add: args_entries_def split_arg_def dir_tree_entries_def sample_dirs_def sample_names
      child_path_def)

lemma sample_succeeds: "\<exists>s. mkbootfs_main sample_dirs [''out=x''] = Inr s"
  by (rule mkbootfs_main_succeeds [of _ _ 100])
    (simp_all add: split_arg_def sample_dirs_def sample_names buf_size_def)

theorem mkbootfs_round_trip_witness:
  "\<exists>s. mkbootfs_main sample_dirs [''out=x''] = Inr s \<and>
    read_cpio (stdout s) = Some (seen 300000
      [(0x41ED, ''x/bin'', []), (0xA1FF, ''x/bin/sh'', [98]), (0x81ED, ''x/init'', [1, 2, 3])])"
proof -
  obtain s where s: "mkbootfs_main sample_dirs [''out=x''] = Inr s"
    using sample_succeeds by blast
  have "\<forall>e\<in>set (args_entries sample_dirs [''out=x'']). plain_entry e"
    by (simp add: sample_entries plain_entry_def)
  from mkbootfs_round_trip [OF s this] s show ?thesis by (simp add: sample_entries)
qed

text \<open>
  The archive of a successful run is a multiple of 256 bytes long, and \<open>total_size\<close> is its
  length modulo \<open>2 ^ 32\<close>.
\<close>

theorem mkbootfs_size:
  assumes "mkbootfs_main opendirs args = Inr s"
  shows "256 dvd length (stdout s) \<and> total_size s = word_of_nat (length (stdout s))"
  using mkbootfs_wrote [OF assms] by (simp add: sized_def dvd_add_pad)

theorem mkbootfs_size_witness:
  "\<exists>s. mkbootfs_main sample_dirs [''out=x''] = Inr s \<and> 256 dvd length (stdout s)"
  using sample_succeeds mkbootfs_size [of sample_dirs "[''out=x'']"] by blast

text \<open>
  C8: The archive does not depend on the order in which \<open>readdir\<close> returns the entries of any
  directory.
\<close>

theorem mkbootfs_readdir_order:
  assumes "\<forall>d. same_tree (Directory 0 (opendirs d)) (Directory 0 (opendirs' d))"
  shows "mkbootfs_main opendirs args = mkbootfs_main opendirs' args"
proof -
  have "archive opendirs start pfx s = archive opendirs' start pfx s" for start pfx s
    using assms walk_dir_same [of 0 "opendirs start" "opendirs' start"]
    by (simp add: archive_walk)
  then have "archive opendirs = archive opendirs'" by (intro ext)
  then show ?thesis by (simp add: mkbootfs_main_def)
qed

theorem mkbootfs_readdir_order_witness:
  "mkbootfs_main (\<lambda>d. Some [(''b'', Reg 0 (Some [2])), (''a'', Reg 0 (Some [1]))]) [''d''] =
   mkbootfs_main (\<lambda>d. Some [(''a'', Reg 0 (Some [1])), (''b'', Reg 0 (Some [2]))]) [''d'']"
proof (rule mkbootfs_readdir_order, rule allI, rule same_dir)
  show "list_all2 (\<lambda>a b. fst a = fst b \<and> same_tree (snd a) (snd b))
      [(''b'', Reg 0 (Some [2])), (''a'', Reg 0 (Some [1]))]
      [(''b'', Reg 0 (Some [2])), (''a'', Reg 0 (Some [1]))]"
    by (simp add: same_refl)
qed (simp_all add: cstring_def add_mset_commute)

text \<open>
  No file whose name starts with a dot or is \<open>root\<close>, and nothing below such a file, gets into
  the archive: the name of every entry is a prefix from the command line extended by names that
  are not skipped.
\<close>

theorem mkbootfs_skips_hidden:
  assumes "mkbootfs_main opendirs args = Inr s"
    and "\<forall>e\<in>set (args_entries opendirs args). plain_entry e"
    and "read_cpio (stdout s) = Some es" and "(ino, m, name, data) \<in> set es"
  shows "\<exists>arg\<in>set args. \<exists>ns. ns \<noteq> [] \<and> name = bytes_of (name_at (snd (split_arg arg)) ns) \<and>
    (\<forall>x\<in>set ns. x \<noteq> ''root'' \<and> take 1 x \<noteq> ''.'')"
proof -
  have "es = seen 300000 (args_entries opendirs args)"
    using read_cpio_chunks [OF assms(2)] mkbootfs_chunks [OF assms(1)] assms(3) by auto
  with assms(4) obtain e where e: "e \<in> set (args_entries opendirs args)" "name = bytes_of (fst (snd e))"
    using in_seenD by blast
  then obtain arg where arg: "arg \<in> set args"
    "e \<in> set (dir_tree_entries (opendirs (fst (split_arg arg))) (snd (split_arg arg)))"
    by (auto simp: args_entries_def)
  from dir_tree_entries_names [OF arg(2)] obtain ns where ns: "ns \<noteq> []"
    "fst (snd e) = name_at (snd (split_arg arg)) ns" "\<forall>x\<in>set ns. \<not> skip_entry x" by blast
  have "x \<noteq> ''root'' \<and> take 1 x \<noteq> ''.''" if "\<not> skip_entry x" for x
    using that by (cases x) (auto simp: skip_entry_def)
  with ns(3) have "\<forall>x\<in>set ns. x \<noteq> ''root'' \<and> take 1 x \<noteq> ''.''" by blast
  with e(2) ns(1,2) arg(1) show ?thesis by (metis (lifting))
qed

theorem mkbootfs_skips_hidden_witness:
  "\<exists>arg\<in>{''out=x''}. \<exists>ns. ns \<noteq> [] \<and>
     bytes_of ''x/bin'' = bytes_of (name_at (snd (split_arg arg)) ns) \<and>
     (\<forall>x\<in>set ns. x \<noteq> ''root'' \<and> take 1 x \<noteq> ''.'')"
proof -
  obtain s where s: "mkbootfs_main sample_dirs [''out=x''] = Inr s"
    using sample_succeeds by blast
  have plain: "\<forall>e\<in>set (args_entries sample_dirs [''out=x'']). plain_entry e"
    by (simp add: sample_entries plain_entry_def)
  have read: "read_cpio (stdout s) = Some (seen 300000 (args_entries sample_dirs [''out=x'']))"
    using read_cpio_chunks [OF plain] mkbootfs_chunks [OF s] by auto
  have "(300000, unat (fix_stat ''x/bin'' 0x41ED), bytes_of ''x/bin'', [])
      \<in> set (seen 300000 (args_entries sample_dirs [''out=x'']))"
    by (simp add: sample_entries)
  from mkbootfs_skips_hidden [OF s plain read this] show ?thesis by simp
qed

text \<open>
  C9: The program succeeds on every tree that can be read and whose paths fit the 8192 byte
  buffers.
\<close>

theorem mkbootfs_succeeds:
  assumes "args \<noteq> []"
    and "\<forall>arg\<in>set args. fits (Directory 0 (opendirs (fst (split_arg arg)))) k \<and>
      length (fst (split_arg arg)) + k < 8192 \<and> length (snd (split_arg arg)) + k < 8192"
  shows "\<exists>s. mkbootfs_main opendirs args = Inr s"
  using assms by (intro mkbootfs_main_succeeds [of args opendirs k]) (simp_all add: buf_size_def)

theorem mkbootfs_succeeds_witness: "\<exists>s. mkbootfs_main sample_dirs [''out=x''] = Inr s"
  by (rule mkbootfs_succeeds [of _ _ 100])
    (simp_all add: split_arg_def sample_dirs_def sample_names)

end
