(* ===== verification/Hash_Interface.thy ===== *)
theory Hash_Interface
  imports Prelude
begin

text \<open>
  The interface of the streaming digests, SHA-1 and MD5: a context that absorbs data piece by
  piece. The callers (\<open>mkbootimg\<close>, \<open>__md5_crypt\<close>) feed several pieces and rely on the digest being
  that of their concatenation. Also the conversions between bytes and words of either byte order,
  and the blocks of a message.
\<close>

section \<open>The contract\<close>

text \<open>
  \<open>absorbed c m\<close>: the context \<open>c\<close> has taken in the message \<open>m\<close>; \<open>piece\<close> says which pieces one call may
  be given.
\<close>

locale streaming_hash =
  fixes init :: 'c and update :: "'c \<Rightarrow> byte list \<Rightarrow> 'c" and final :: "'c \<Rightarrow> 'd"
    and absorbed :: "'c \<Rightarrow> byte list \<Rightarrow> bool" and piece :: "byte list \<Rightarrow> bool"
    and hash :: "byte list \<Rightarrow> 'd"
  assumes absorbed_init: "absorbed init []"
    and absorbed_update: "absorbed c m \<Longrightarrow> piece xs \<Longrightarrow> absorbed (update c xs) (m @ xs)"
    and final_hash: "absorbed c m \<Longrightarrow> final c = hash m"
begin

lemma absorbed_foldl:
  "absorbed c m \<Longrightarrow> list_all piece xss \<Longrightarrow> absorbed (foldl update c xss) (m @ concat xss)"
proof (induction xss arbitrary: c m)
  case (Cons xs xss)
  then show ?case using absorbed_update [of c m xs] Cons.IH [of "update c xs" "m @ xs"] by simp
qed simp

lemma hash_pieces: "list_all piece xss \<Longrightarrow> final (foldl update init xss) = hash (concat xss)"
  using absorbed_foldl [OF absorbed_init] final_hash by fastforce

end

text \<open>
  The stronger contract of SHA-1, whose update loop goes through the bytes one by one: the context
  itself only depends on the data, not on how it was cut.
\<close>

locale exact_streaming =
  fixes init :: 'c and update :: "'c \<Rightarrow> byte list \<Rightarrow> 'c" and final :: "'c \<Rightarrow> 'd" and ok :: "'c \<Rightarrow> bool"
  assumes ok_init: "ok init"
    and ok_update: "ok c \<Longrightarrow> ok (update c xs)"
    and update_append: "ok c \<Longrightarrow> update c (xs @ ys) = update (update c xs) ys"
    and update_Nil: "ok c \<Longrightarrow> update c [] = c"
begin

definition digest :: "byte list \<Rightarrow> 'd" where
  "digest xs = final (update init xs)"

lemma foldl_update: "ok c \<Longrightarrow> foldl update c xss = update c (concat xss)"
  by (induction xss arbitrary: c) (simp_all add: update_append update_Nil ok_update)

lemma digest_pieces: "final (foldl update init xss) = digest (concat xss)"
  by (simp add: foldl_update ok_init digest_def)

lemma bytewise: "ok c \<Longrightarrow> foldl (\<lambda>c b. update c [b]) c xs = update c xs"
  using foldl_update [of c "map (\<lambda>b. [b]) xs"] by (simp add: foldl_map)

end

text \<open>It gives the other contract.\<close>

sublocale exact_streaming \<subseteq> streaming: streaming_hash init update final
    "\<lambda>c m. c = update init m" "\<lambda>_. True" digest
  by unfold_locales (simp_all add: ok_init update_Nil update_append digest_def)

section \<open>Blocks\<close>

text \<open>The whole blocks of 64 bytes at the start of a message.\<close>

function blocks :: "byte list \<Rightarrow> byte list list" where
  "blocks xs = (if length xs < 64 then [] else take 64 xs # blocks (drop 64 xs))"
  by pat_completeness auto
termination
  by (relation "measure length") auto

declare blocks.simps [simp del]

section \<open>Bytes and words\<close>

text \<open>\<open>be32\<close> reads four bytes most significant first, \<open>le32\<close> least significant first.\<close>

definition be32 :: "byte list \<Rightarrow> u32" where
  "be32 p = push_bit 24 (ucast (p ! 0)) OR push_bit 16 (ucast (p ! 1)) OR
     push_bit 8 (ucast (p ! 2)) OR ucast (p ! 3)"

definition le32 :: "byte list \<Rightarrow> u32" where
  "le32 p = ucast (p ! 0) OR push_bit 8 (ucast (p ! 1)) OR
     push_bit 16 (ucast (p ! 2)) OR push_bit 24 (ucast (p ! 3))"

definition be32_bytes :: "u32 \<Rightarrow> byte list" where
  "be32_bytes w = [ucast (drop_bit 24 w), ucast (drop_bit 16 w), ucast (drop_bit 8 w), ucast w]"

definition le32_bytes :: "u32 \<Rightarrow> byte list" where
  "le32_bytes w = [ucast w, ucast (drop_bit 8 w), ucast (drop_bit 16 w), ucast (drop_bit 24 w)]"

definition bswap_32 :: "u32 \<Rightarrow> u32" where
  "bswap_32 w = le32 (be32_bytes w)"

lemma length_be32_bytes [simp]: "length (be32_bytes w) = 4"
  by (simp add: be32_bytes_def)

lemma length_le32_bytes [simp]: "length (le32_bytes w) = 4"
  by (simp add: le32_bytes_def)

lemma bit_be32:
  "bit (be32 [a, b, c, d]) n \<longleftrightarrow>
     (if n < 8 then bit d n else if n < 16 then bit c (n - 8)
      else if n < 24 then bit b (n - 16) else bit a (n - 24))"
  by (auto simp: be32_def bit_simps dest: bit_imp_le_length)

lemma bit_le32:
  "bit (le32 [a, b, c, d]) n \<longleftrightarrow>
     (if n < 8 then bit a n else if n < 16 then bit b (n - 8)
      else if n < 24 then bit c (n - 16) else bit d (n - 24))"
  by (auto simp: le32_def bit_simps dest: bit_imp_le_length)

lemma be32_bytes_be32: "be32_bytes (be32 [a, b, c, d]) = [a, b, c, d]"
  by (auto simp: be32_bytes_def intro!: bit_word_eqI) (auto simp: bit_simps bit_be32)

lemma le32_bytes_le32: "le32_bytes (le32 [a, b, c, d]) = [a, b, c, d]"
  by (auto simp: le32_bytes_def intro!: bit_word_eqI) (auto simp: bit_simps bit_le32)

lemma be32_be32_bytes: "be32 (be32_bytes w) = w"
  by (rule bit_word_eqI) (auto simp: be32_bytes_def bit_be32 bit_simps)

lemma le32_le32_bytes: "le32 (le32_bytes w) = w"
  by (rule bit_word_eqI) (auto simp: le32_bytes_def bit_le32 bit_simps)

lemma be32_bytes_bswap: "le32_bytes (bswap_32 w) = be32_bytes w"
  by (simp only: bswap_32_def be32_bytes_def le32_bytes_le32)

lemma bswap_le32: "bswap_32 (le32 [a, b, c, d]) = be32 [a, b, c, d]"
proof -
  have "be32_bytes (le32 [a, b, c, d]) = [d, c, b, a]"
    using le32_bytes_le32 [of a b c d] by (simp add: be32_bytes_def le32_bytes_def)
  then show ?thesis by (simp add: bswap_32_def le32_def be32_def or.commute or.left_commute)
qed

text \<open>Two shifts are a rotation.\<close>

lemma shifts_word_rotl:
  fixes v :: u32
  assumes "0 < n" and "n < 32"
  shows "push_bit n v OR drop_bit (32 - n) v = word_rotl n v"
proof (rule bit_word_eqI)
  fix i assume i: "i < LENGTH(32)"
  show "bit (push_bit n v OR drop_bit (32 - n) v) i = bit (word_rotl n v) i"
  proof (cases "n \<le> i")
    case True
    then have "(i + (32 - n)) mod 32 = i - n"
      using i assms mod_add_self2 [of "i - n" 32] by (simp add: algebra_simps)
    with True i assms show ?thesis
      by (auto simp: bit_word_rotl_iff bit_simps dest: bit_imp_le_length)
  next
    case False
    then have "(i + (32 - n)) mod 32 = i + (32 - n)" and "32 - n + i = i + (32 - n)"
      using assms by simp_all
    with False i assms show ?thesis
      by (simp add: bit_word_rotl_iff bit_push_bit_iff bit_drop_bit_eq bit_or_iff)
  qed
qed

section \<open>Blocks of a message that is cut\<close>

lemma blocks_short [simp]: "length xs < 64 \<Longrightarrow> blocks xs = []"
  by (simp add: blocks.simps)

lemma blocks_append: "64 dvd length xs \<Longrightarrow> blocks (xs @ ys) = blocks xs @ blocks ys"
proof (induction xs rule: blocks.induct)
  case (1 xs)
  show ?case
  proof (cases "length xs < 64")
    case True
    with "1.prems" have "xs = []" by (auto elim: dvdE)
    then show ?thesis by simp
  next
    case False
    then have "64 dvd length (drop 64 xs)" using "1.prems" by (simp add: dvd_minus_self)
    from "1.IH" [OF False this] False show ?thesis
      by (subst (1 2) blocks.simps) simp
  qed
qed

text \<open>The bytes after the last whole block.\<close>

definition leftover :: "byte list \<Rightarrow> byte list" where
  "leftover m = drop (64 * (length m div 64)) m"

definition whole :: "byte list \<Rightarrow> byte list" where
  "whole m = take (64 * (length m div 64)) m"

lemma whole_leftover: "whole m @ leftover m = m"
  by (simp add: whole_def leftover_def)

lemma length_leftover: "length (leftover m) = length m mod 64"
  by (simp add: leftover_def minus_mult_div_eq_mod)

lemma length_whole: "64 dvd length (whole m)"
proof -
  have "64 * (length m div 64) \<le> length m" by simp
  then have "length (whole m) = 64 * (length m div 64)" 
    by (simp only: whole_def length_take min.absorb2)
  then show ?thesis by simp
qed

lemma leftover_append: "leftover (m @ xs) = leftover (leftover m @ xs)"
proof -
  obtain k where k: "length (whole m) = 64 * k" using length_whole by (auto elim: dvdE)
  have "leftover (whole m @ zs) = leftover zs" for zs
    by (simp add: leftover_def k)
  from this [of "leftover m @ xs"] show ?thesis
    by (simp add: whole_leftover flip: append_assoc)
qed

lemma blocks_leftover: "blocks (m @ xs) = blocks m @ blocks (leftover m @ xs)"
proof -
  have "blocks (whole m @ zs) = blocks (whole m) @ blocks zs" for zs
    by (rule blocks_append [OF length_whole])
  from this [of "leftover m @ xs"] this [of "leftover m"] show ?thesis
    by (simp add: whole_leftover length_leftover flip: append_assoc)
qed

lemma blocks_dvd: "64 dvd length m \<Longrightarrow> leftover m = []"
  using length_leftover [of m] by (simp add: dvd_eq_mod_eq_0)

end
