(* ===== verification/Sha.thy ===== *)
theory Sha
  imports Hash_Interface
begin

text \<open>
  SHA-1 of \<open>cookbook/android-mkbootfs/source/libmincrypt/sha.c\<close>. The file holds two versions, chosen
  by the preprocessor: a portable one, and an unrolled one for little-endian machines that reads
  its buffer as words, computes the message schedule on the fly and copies input in blocks. Both
  are modelled; the functions of the second carry the suffix \<open>_le\<close>.
\<close>

type_synonym regs = "u32 \<times> u32 \<times> u32 \<times> u32 \<times> u32"

text \<open>\<open>buf\<close> has 64 bytes.\<close>

record SHA_CTX =
  count :: u64
  state :: regs
  buf :: "byte list"

definition SHA_init :: "SHA_CTX \<Rightarrow> SHA_CTX" where
  "SHA_init ctx = ctx\<lparr>state := (0x67452301, 0xEFCDAB89, 0x98BADCFE, 0x10325476, 0xC3D2E1F0), count := 0\<rparr>"

section \<open>The portable version\<close>

definition rol :: "nat \<Rightarrow> u32 \<Rightarrow> u32" where
  "rol bits value = push_bit bits value OR drop_bit (32 - bits) value"

definition load_block :: "byte list \<Rightarrow> u32 list" where
  "load_block p = map (\<lambda>t. be32 (take 4 (drop (4 * t) p))) [0..<16]"

text \<open>The schedule \<open>W[16..79]\<close>, appended entry by entry.\<close>

definition expand_step :: "u32 list \<Rightarrow> u32 list" where
  "expand_step w =
     (let t = length w in w @ [rol 1 (w ! (t - 3) XOR w ! (t - 8) XOR w ! (t - 14) XOR w ! (t - 16))])"

definition schedule :: "byte list \<Rightarrow> u32 list" where
  "schedule p = (expand_step ^^ 64) (load_block p)"

definition sha_round :: "u32 list \<Rightarrow> nat \<Rightarrow> regs \<Rightarrow> regs" where
  "sha_round w t r =
     (case r of (A, B, C, D, E) \<Rightarrow>
        let tmp = rol 5 A + E + w ! t;
            tmp = (if t < 20 then tmp + ((D XOR (B AND (C XOR D))) + 0x5A827999)
                   else if t < 40 then tmp + ((B XOR C XOR D) + 0x6ED9EBA1)
                   else if t < 60 then tmp + (((B AND C) OR (D AND (B OR C))) + 0x8F1BBCDC)
                   else tmp + ((B XOR C XOR D) + 0xCA62C1D6))
        in (tmp, A, rol 30 B, C, D))"

definition add_regs :: "regs \<Rightarrow> regs \<Rightarrow> regs" where
  "add_regs r s =
     (case r of (a, b, c, d, e) \<Rightarrow> case s of (A, B, C, D, E) \<Rightarrow> (a + A, b + B, c + C, d + D, e + E))"

definition sha_compress :: "regs \<Rightarrow> byte list \<Rightarrow> regs" where
  "sha_compress h p = add_regs h (fold (sha_round (schedule p)) [0..<80] h)"

definition SHA1_transform :: "SHA_CTX \<Rightarrow> SHA_CTX" where
  "SHA1_transform ctx = ctx\<lparr>state := sha_compress (state ctx) (buf ctx)\<rparr>"

text \<open>The loop of \<open>SHA_update\<close>, at position \<open>i\<close> of the buffer.\<close>

fun update_loop :: "(SHA_CTX \<Rightarrow> SHA_CTX) \<Rightarrow> SHA_CTX \<Rightarrow> nat \<Rightarrow> byte list \<Rightarrow> SHA_CTX" where
  "update_loop tr ctx i [] = ctx"
| "update_loop tr ctx i (p # ps) =
     (let ctx1 = ctx\<lparr>buf := (buf ctx)[i := p]\<rparr> in
      if i + 1 = 64 then update_loop tr (tr ctx1) 0 ps
      else update_loop tr ctx1 (i + 1) ps)"

definition SHA_update :: "SHA_CTX \<Rightarrow> byte list \<Rightarrow> SHA_CTX" where
  "SHA_update ctx data =
     (let i = unat (count ctx) mod 64
      in update_loop SHA1_transform (ctx\<lparr>count := count ctx + word_of_nat (length data)\<rparr>) i data)"

lemma count_update_loop:
  assumes "\<And>c. count (tr c) = count c"
  shows "count (update_loop tr ctx i ps) = count ctx"
  by (induction ps arbitrary: ctx i) (simp_all add: Let_def assms)

lemma count_SHA_update: "count (SHA_update ctx xs) = count ctx + word_of_nat (length xs)"
  by (simp add: SHA_update_def count_update_loop SHA1_transform_def)

text \<open>The padding loop of \<open>SHA_final\<close>: zero bytes until 8 are left in the block.\<close>

lemma unat_Suc_mod_64: "unat (c + 1 :: u64) mod 64 = Suc (unat c) mod 64"
proof -
  have "unat (c + 1) mod 64 = (Suc (unat c) mod 2 ^ 64) mod 64"
    by (simp add: unat_word_ariths)
  also have "\<dots> = Suc (unat c) mod 64" by (simp add: mod_mod_cancel)
  finally show ?thesis .
qed

lemma zero_pad_step:
  "\<forall>m\<in>set [0..<64]. m \<noteq> 56 \<longrightarrow> (120 - Suc m mod 64) mod 64 < (120 - m) mod (64::nat)"
  by code_simp

lemma zero_pad_measure:
  assumes "(n::nat) mod 64 \<noteq> 56"
  shows "(120 - Suc n mod 64) mod 64 < (120 - n mod 64) mod 64"
proof -
  have "n mod 64 \<in> set [0..<64]" by simp
  with zero_pad_step assms have "(120 - Suc (n mod 64) mod 64) mod 64 < (120 - n mod 64) mod 64"
    by blast
  then show ?thesis by (simp only: mod_Suc_eq)
qed

function zero_pad :: "SHA_CTX \<Rightarrow> SHA_CTX" where
  "zero_pad ctx =
     (if unat (count ctx) mod 64 \<noteq> 64 - 8 then zero_pad (SHA_update ctx [0]) else ctx)"
  by pat_completeness auto
termination
  by (relation "measure (\<lambda>c. (120 - unat (count c) mod 64) mod 64)")
    (simp_all add: count_SHA_update unat_Suc_mod_64 zero_pad_measure)

declare zero_pad.simps [simp del]

text \<open>\<open>tmp = cnt >> ((7 - i) * 8)\<close>.\<close>

definition cnt_byte :: "u64 \<Rightarrow> nat \<Rightarrow> byte" where
  "cnt_byte cnt i = ucast (drop_bit ((7 - i) * 8) cnt)"

definition regs_bytes :: "regs \<Rightarrow> byte list" where
  "regs_bytes r =
     (case r of (a, b, c, d, e) \<Rightarrow>
        be32_bytes a @ be32_bytes b @ be32_bytes c @ be32_bytes d @ be32_bytes e)"

text \<open>
  \<open>SHA_final\<close> returns the context's buffer, whose first 20 bytes are the digest; the result is the
  context, whose \<open>buf\<close> the caller reads.
\<close>

definition SHA_final :: "SHA_CTX \<Rightarrow> SHA_CTX" where
  "SHA_final ctx =
     (let cnt = count ctx * 8;
          ctx1 = SHA_update ctx [0x80];
          ctx2 = zero_pad ctx1;
          ctx3 = foldl (\<lambda>c i. SHA_update c [cnt_byte cnt i]) ctx2 [0..<8]
      in ctx3\<lparr>buf := regs_bytes (state ctx3) @ drop 20 (buf ctx3)\<rparr>)"

definition SHA_DIGEST_SIZE :: nat where
  "SHA_DIGEST_SIZE = 20"

text \<open>\<open>SHA\<close>: the digest of a buffer; \<open>ctx\<close> is the uninitialised local context.\<close>

definition SHA :: "SHA_CTX \<Rightarrow> byte list \<Rightarrow> byte list" where
  "SHA ctx data = take SHA_DIGEST_SIZE (buf (SHA_final (SHA_update (SHA_init ctx) data)))"

section \<open>The little-endian version\<close>

definition ror27 :: "u32 \<Rightarrow> u32" where
  "ror27 val = drop_bit 27 val OR push_bit 5 val"

definition ror2 :: "u32 \<Rightarrow> u32" where
  "ror2 val = drop_bit 2 val OR push_bit 30 val"

definition ror31 :: "u32 \<Rightarrow> u32" where
  "ror31 val = drop_bit 31 val OR push_bit 1 val"

text \<open>
  The buffer seen as words, and the two ways in which the macros assign \<open>W[t]\<close>, \<open>t\<close> being the
  number of entries assigned so far.
\<close>

definition buf_word :: "byte list \<Rightarrow> nat \<Rightarrow> u32" where
  "buf_word p t = le32 (take 4 (drop (4 * t) p))"

definition w_load :: "byte list \<Rightarrow> u32 list \<Rightarrow> u32" where
  "w_load p w = bswap_32 (buf_word p (length w))"

definition w_expand :: "u32 list \<Rightarrow> u32" where
  "w_expand w =
     (let t = length w in ror31 (w ! (t - 3) XOR w ! (t - 8) XOR w ! (t - 14) XOR w ! (t - 16)))"

text \<open>
  The macros \<open>SHA_F1\<close> to \<open>SHA_F4\<close>: \<open>E += ror27(A) + (W[t] = ...) + f(B, C, D) + k; B = ror2(B)\<close>.
\<close>

type_synonym sched = "u32 list \<times> regs"

definition sha_macro ::
    "(u32 list \<Rightarrow> u32) \<Rightarrow> (u32 \<Rightarrow> u32 \<Rightarrow> u32 \<Rightarrow> u32) \<Rightarrow> u32 \<Rightarrow> sched \<Rightarrow> sched" where
  "sha_macro next f k x =
     (case x of (w, A, B, C, D, E) \<Rightarrow>
        (w @ [next w], A, ror2 B, C, D, E + (ror27 A + next w + f B C D + k)))"

definition F1 :: "u32 \<Rightarrow> u32 \<Rightarrow> u32 \<Rightarrow> u32" where
  "F1 B C D = D XOR (B AND (C XOR D))"

definition F2 :: "u32 \<Rightarrow> u32 \<Rightarrow> u32 \<Rightarrow> u32" where
  "F2 B C D = B XOR C XOR D"

definition F3 :: "u32 \<Rightarrow> u32 \<Rightarrow> u32 \<Rightarrow> u32" where
  "F3 B C D = (B AND C) OR (D AND (B OR C))"

text \<open>
  The bodies of the loops: five calls with the registers in rotated roles. The first argument is
  the assignment of \<open>W[t]\<close> in the first call, which differs only in the block from 15 to 19.
\<close>

definition five_macros ::
    "(u32 list \<Rightarrow> u32) \<Rightarrow> (u32 list \<Rightarrow> u32) \<Rightarrow> (u32 \<Rightarrow> u32 \<Rightarrow> u32 \<Rightarrow> u32) \<Rightarrow> u32 \<Rightarrow> sched \<Rightarrow> sched" where
  "five_macros first next f k x0 =
     (case x0 of (w, A, B, C, D, E) \<Rightarrow>
      case sha_macro first f k (w, A, B, C, D, E) of (w, A, B, C, D, E) \<Rightarrow>
      case sha_macro next f k (w, E, A, B, C, D) of (w, E, A, B, C, D) \<Rightarrow>
      case sha_macro next f k (w, D, E, A, B, C) of (w, D, E, A, B, C) \<Rightarrow>
      case sha_macro next f k (w, C, D, E, A, B) of (w, C, D, E, A, B) \<Rightarrow>
      case sha_macro next f k (w, B, C, D, E, A) of (w, B, C, D, E, A) \<Rightarrow>
        (w, A, B, C, D, E))"

definition sha_compress_le :: "regs \<Rightarrow> byte list \<Rightarrow> regs" where
  "sha_compress_le h p =
     (let x1 = (five_macros (w_load p) (w_load p) F1 0x5A827999 ^^ 3) ([], h);
          x2 = five_macros (w_load p) w_expand F1 0x5A827999 x1;
          x3 = (five_macros w_expand w_expand F2 0x6ED9EBA1 ^^ 4) x2;
          x4 = (five_macros w_expand w_expand F3 0x8F1BBCDC ^^ 4) x3;
          x5 = (five_macros w_expand w_expand F2 0xCA62C1D6 ^^ 4) x4
      in add_regs h (snd x5))"

definition SHA1_Transform_le :: "SHA_CTX \<Rightarrow> SHA_CTX" where
  "SHA1_Transform_le ctx = ctx\<lparr>state := sha_compress_le (state ctx) (buf ctx)\<rparr>"

text \<open>
  \<open>SHA_update\<close>: blocks while more than the free part of the buffer is left, then byte by byte.
\<close>

function copy_blocks :: "SHA_CTX \<Rightarrow> nat \<Rightarrow> byte list \<Rightarrow> SHA_CTX \<times> nat \<times> byte list" where
  "copy_blocks ctx i p =
     (if length p > 64 - i \<and> i < 64 then
        copy_blocks
          (SHA1_Transform_le (ctx\<lparr>buf := take i (buf ctx) @ take (64 - i) p @ drop 64 (buf ctx)\<rparr>))
          0 (drop (64 - i) p)
      else (ctx, i, p))"
  by pat_completeness auto
termination
  by (relation "measure (\<lambda>(c, i, p). length p)") auto

declare copy_blocks.simps [simp del]

definition SHA_update_le :: "SHA_CTX \<Rightarrow> byte list \<Rightarrow> SHA_CTX" where
  "SHA_update_le ctx data =
     (let i = unat (count ctx) mod 64;
          (ctx', i', p') =
            copy_blocks (ctx\<lparr>count := count ctx + word_of_nat (length data)\<rparr>) i data
      in update_loop SHA1_Transform_le ctx' i' p')"

lemma count_copy_blocks: "count (fst (copy_blocks c i p)) = count c"
proof (induction c i p rule: copy_blocks.induct)
  case (1 c i p)
  then show ?case
    by (subst copy_blocks.simps) (simp add: SHA1_Transform_le_def)
qed

lemma count_SHA_update_le: "count (SHA_update_le ctx xs) = count ctx + word_of_nat (length xs)"
proof -
  obtain c i p where c: "copy_blocks (ctx\<lparr>count := count ctx + word_of_nat (length xs)\<rparr>)
      (unat (count ctx) mod 64) xs = (c, i, p)"
    by (metis prod_cases3)
  then have "count c = count ctx + word_of_nat (length xs)"
    using count_copy_blocks [of "ctx\<lparr>count := count ctx + word_of_nat (length xs)\<rparr>"
        "unat (count ctx) mod 64" xs] by simp
  with c show ?thesis
    by (simp add: SHA_update_le_def count_update_loop SHA1_Transform_le_def)
qed

function zero_pad_le :: "SHA_CTX \<Rightarrow> SHA_CTX" where
  "zero_pad_le ctx =
     (if unat (count ctx) mod 64 \<noteq> 64 - 8 then zero_pad_le (SHA_update_le ctx [0]) else ctx)"
  by pat_completeness auto
termination
  by (relation "measure (\<lambda>c. (120 - unat (count c) mod 64) mod 64)")
    (simp_all add: count_SHA_update_le unat_Suc_mod_64 zero_pad_measure)

declare zero_pad_le.simps [simp del]

text \<open>\<open>ctx->buf.w[i] = bswap_32(ctx->state[i])\<close>: the bytes of the swapped words in memory order.\<close>

definition regs_words_le :: "regs \<Rightarrow> byte list" where
  "regs_words_le r =
     (case r of (a, b, c, d, e) \<Rightarrow>
        concat (map (\<lambda>v. le32_bytes (bswap_32 v)) [a, b, c, d, e]))"

definition SHA_final_le :: "SHA_CTX \<Rightarrow> SHA_CTX" where
  "SHA_final_le ctx =
     (let cnt = count ctx * 8;
          ctx1 = SHA_update_le ctx [0x80];
          ctx2 = zero_pad_le ctx1;
          ctx3 = foldl (\<lambda>c i. SHA_update_le c [cnt_byte cnt i]) ctx2 [0..<8]
      in ctx3\<lparr>buf := regs_words_le (state ctx3) @ drop 20 (buf ctx3)\<rparr>)"

definition SHA_le :: "SHA_CTX \<Rightarrow> byte list \<Rightarrow> byte list" where
  "SHA_le ctx data = take SHA_DIGEST_SIZE (buf (SHA_final_le (SHA_update_le (SHA_init ctx) data)))"

section \<open>The two compression functions agree\<close>

lemma length_load_block [simp]: "length (load_block p) = 16"
  by (simp add: load_block_def)

lemma nth_load_block: "t < 16 \<Longrightarrow> load_block p ! t = be32 (take 4 (drop (4 * t) p))"
  by (simp add: load_block_def)

lemma length_expand_step [simp]: "length (expand_step w) = Suc (length w)"
  by (simp add: expand_step_def Let_def)

lemma nth_expand_step: "t < length w \<Longrightarrow> expand_step w ! t = w ! t"
  by (simp add: expand_step_def Let_def nth_append)

lemma nth_expand_step_last:
  assumes "16 \<le> length w"
  shows "expand_step w ! length w = rol 1 (expand_step w ! (length w - 3) XOR
    expand_step w ! (length w - 8) XOR expand_step w ! (length w - 14) XOR
    expand_step w ! (length w - 16))"
  using assms by (simp add: nth_expand_step) (simp add: expand_step_def Let_def)

lemma length_expand_steps: "length ((expand_step ^^ n) w) = length w + n"
  by (induction n) simp_all

lemma nth_expand_steps: "t < length w \<Longrightarrow> (expand_step ^^ n) w ! t = w ! t"
  by (induction n) (simp_all add: nth_expand_step length_expand_steps)

lemma nth_expand_steps_last:
  assumes "16 \<le> t" and "length v = 16" and "t < 16 + n"
  shows "(expand_step ^^ n) v ! t =
    rol 1 ((expand_step ^^ n) v ! (t - 3) XOR (expand_step ^^ n) v ! (t - 8) XOR
      (expand_step ^^ n) v ! (t - 14) XOR (expand_step ^^ n) v ! (t - 16))"
  using assms(3)
proof (induction n)
  case (Suc n)
  have len: "length ((expand_step ^^ n) v) = 16 + n"
    by (simp add: length_expand_steps assms(2))
  show ?case
  proof (cases "t = 16 + n")
    case True
    then show ?thesis
      using nth_expand_step_last [of "(expand_step ^^ n) v"] by (simp add: len)
  next
    case False
    with Suc.prems have "t < 16 + n" by simp
    with Suc.IH assms(1) show ?thesis by (simp add: nth_expand_step len)
  qed
qed (use assms(1) in simp)

lemma schedule_props:
  "length (schedule p) = 80"
  "t < 16 \<Longrightarrow> schedule p ! t = be32 (take 4 (drop (4 * t) p))"
  "16 \<le> t \<Longrightarrow> t < 80 \<Longrightarrow> schedule p ! t = rol 1 (schedule p ! (t - 3) XOR schedule p ! (t - 8) XOR
     schedule p ! (t - 14) XOR schedule p ! (t - 16))"
  using nth_expand_steps_last [of t "load_block p" 64]
  by (simp_all add: schedule_def nth_load_block length_expand_steps nth_expand_steps)

text \<open>One macro call with the registers then renamed is one round.\<close>

definition rot_macro ::
    "(u32 list \<Rightarrow> u32) \<Rightarrow> (u32 \<Rightarrow> u32 \<Rightarrow> u32 \<Rightarrow> u32) \<Rightarrow> u32 \<Rightarrow> sched \<Rightarrow> sched" where
  "rot_macro next f k x =
     (case sha_macro next f k x of (w, A, B, C, D, E) \<Rightarrow> (w, E, A, B, C, D))"

definition round_fun :: "nat \<Rightarrow> (u32 \<Rightarrow> u32 \<Rightarrow> u32 \<Rightarrow> u32) \<times> u32" where
  "round_fun t = (if t < 20 then (F1, 0x5A827999) else if t < 40 then (F2, 0x6ED9EBA1)
     else if t < 60 then (F3, 0x8F1BBCDC) else (F2, 0xCA62C1D6))"

lemma ror_rol: "ror27 = rol 5" "ror2 = rol 30" "ror31 = rol 1"
  by (simp_all add: fun_eq_iff ror27_def ror2_def ror31_def rol_def or.commute)

lemma sha_round_fun:
  assumes "round_fun t = (f, k)"
  shows "sha_round w t (A, B, C, D, E) = (rol 5 A + E + w ! t + (f B C D + k), A, rol 30 B, C, D)"
  using assms
  by (auto simp: round_fun_def sha_round_def Let_def F1_def F2_def F3_def split: if_splits)

lemma rot_macro_round:
  assumes "next (take t w) = w ! t" and "t < length w" and "round_fun t = (f, k)"
  shows "rot_macro next f k (take t w, r) = (take (Suc t) w, sha_round w t r)"
  using assms
  by (cases r) (simp add: rot_macro_def sha_macro_def sha_round_fun [OF assms(3)] ror_rol
      take_Suc_conv_app_nth algebra_simps)

lemma rot_macro_rounds:
  assumes "\<And>i. t \<le> i \<Longrightarrow> i < t + n \<Longrightarrow> next (take i w) = w ! i \<and> round_fun i = (f, k)"
    and "t + n \<le> length w"
  shows "(rot_macro next f k ^^ n) (take t w, r) = (take (t + n) w, fold (sha_round w) [t..<t + n] r)"
  using assms
proof (induction n)
  case (Suc n)
  then have "(rot_macro next f k ^^ n) (take t w, r) =
      (take (t + n) w, fold (sha_round w) [t..<t + n] r)" by simp
  moreover have "next (take (t + n) w) = w ! (t + n)" "round_fun (t + n) = (f, k)"
    using Suc.prems(1) [of "t + n"] by simp_all
  ultimately show ?case using Suc.prems(2) by (simp add: rot_macro_round)
qed simp

lemma five_macros_rot:
  "five_macros first next f k x = (rot_macro next f k ^^ 4) (rot_macro first f k x)"
proof -
  obtain w A B C D E where x: "x = (w, A, B, C, D, E)" by (metis prod_cases6)
  obtain w1 A1 B1 C1 D1 E1 where x1: "sha_macro first f k (w, A, B, C, D, E) = (w1, A1, B1, C1, D1, E1)"
    by (metis prod_cases6)
  obtain w2 A2 B2 C2 D2 E2 where x2: "sha_macro next f k (w1, E1, A1, B1, C1, D1) = (w2, E2, A2, B2, C2, D2)"
    by (metis prod_cases6)
  obtain w3 A3 B3 C3 D3 E3 where x3: "sha_macro next f k (w2, D2, E2, A2, B2, C2) = (w3, D3, E3, A3, B3, C3)"
    by (metis prod_cases6)
  obtain w4 A4 B4 C4 D4 E4 where x4: "sha_macro next f k (w3, C3, D3, E3, A3, B3) = (w4, C4, D4, E4, A4, B4)"
    by (metis prod_cases6)
  obtain w5 A5 B5 C5 D5 E5 where x5: "sha_macro next f k (w4, B4, C4, D4, E4, A4) = (w5, B5, C5, D5, E5, A5)"
    by (metis prod_cases6)
  have "four = Suc (Suc (Suc (Suc 0))) \<Longrightarrow> (rot_macro next f k ^^ four) (rot_macro first f k x) =
      rot_macro next f k (rot_macro next f k (rot_macro next f k (rot_macro next f k
        (rot_macro first f k x))))" for four
    by simp
  from this [of 4] show ?thesis
    by (simp only: numeral_eq_Suc pred_numeral_simps BitM.simps five_macros_def rot_macro_def
        x x1 x2 x3 x4 x5 prod.case)
qed

lemma five_macros_rot_same: "five_macros next next f k = rot_macro next f k ^^ 5"
proof
  fix x
  have "(rot_macro next f k ^^ 4) (rot_macro next f k x) = (rot_macro next f k ^^ Suc 4) x"
    by (simp only: funpow_Suc_right o_apply)
  then show "five_macros next next f k x = (rot_macro next f k ^^ 5) x"
    by (simp add: five_macros_rot del: funpow.simps)
qed

lemma five_macros_rounds:
  assumes "\<And>i. t \<le> i \<Longrightarrow> i < t + 5 * m \<Longrightarrow> next (take i w) = w ! i \<and> round_fun i = (f, k)"
    and "t + 5 * m \<le> length w"
  shows "(five_macros next next f k ^^ m) (take t w, r) =
    (take (t + 5 * m) w, fold (sha_round w) [t..<t + 5 * m] r)"
  using rot_macro_rounds [of t "5 * m" "next" w f k r] assms
  by (simp add: five_macros_rot_same funpow_mult)

lemma w_load_schedule:
  assumes "length p = 64" and "t < 16"
  shows "w_load p (take t (schedule p)) = schedule p ! t"
proof -
  define q where "q = take 4 (drop (4 * t) p)"
  have "length q = 4" using assms by (simp add: q_def)
  then obtain a b c d where "q = [a, b, c, d]"
    by (auto simp: length_Suc_conv numeral_eq_Suc)
  then have "bswap_32 (le32 q) = be32 q" by (simp only: bswap_le32)
  then show ?thesis using assms
    by (simp add: w_load_def buf_word_def schedule_props q_def min_def)
qed

lemma w_expand_schedule:
  assumes "16 \<le> t" and "t < 80"
  shows "w_expand (take t (schedule p)) = schedule p ! t"
  using assms by (simp add: w_expand_def ror_rol schedule_props min_def Let_def)

lemma sha_compress_le_eq:
  assumes "length p = 64"
  shows "sha_compress_le h p = sha_compress h p"
proof -
  let ?w = "schedule p" and ?r = "\<lambda>a b. fold (sha_round (schedule p)) [a..<b]"
  note len = schedule_props(1) [of p]
  have x1: "(five_macros (w_load p) (w_load p) F1 0x5A827999 ^^ 3) ([], h) = (take 15 ?w, ?r 0 15 h)"
    using five_macros_rounds [of 0 3 "w_load p" ?w F1 "0x5A827999" h]
    by (simp add: len w_load_schedule [OF assms] round_fun_def)
  have x2: "five_macros (w_load p) w_expand F1 0x5A827999 (take 15 ?w, r) =
      (take 20 ?w, ?r 15 20 r)" for r
  proof -
    have "rot_macro (w_load p) F1 0x5A827999 (take 15 ?w, r) = (take 16 ?w, sha_round ?w 15 r)"
      using rot_macro_round [of "w_load p" 15 ?w F1 "0x5A827999" r]
      by (simp add: len w_load_schedule [OF assms] round_fun_def)
    then show ?thesis
      using rot_macro_rounds [of 16 4 w_expand ?w F1 "0x5A827999" "sha_round ?w 15 r"]
      by (simp add: five_macros_rot len w_expand_schedule round_fun_def upt_rec [of 15 20]
          del: funpow.simps)
  qed
  have x3: "(five_macros w_expand w_expand F2 0x6ED9EBA1 ^^ 4) (take 20 ?w, r) =
      (take 40 ?w, ?r 20 40 r)" for r
    using five_macros_rounds [of 20 4 w_expand ?w F2 "0x6ED9EBA1" r]
    by (simp add: len w_expand_schedule round_fun_def)
  have x4: "(five_macros w_expand w_expand F3 0x8F1BBCDC ^^ 4) (take 40 ?w, r) =
      (take 60 ?w, ?r 40 60 r)" for r
    using five_macros_rounds [of 40 4 w_expand ?w F3 "0x8F1BBCDC" r]
    by (simp add: len w_expand_schedule round_fun_def)
  have x5: "(five_macros w_expand w_expand F2 0xCA62C1D6 ^^ 4) (take 60 ?w, r) =
      (take 80 ?w, ?r 60 80 r)" for r
    using five_macros_rounds [of 60 4 w_expand ?w F2 "0xCA62C1D6" r]
    by (simp add: len w_expand_schedule round_fun_def)
  have "[0..<80] = [0..<15] @ [15..<20] @ [20..<40] @ [40..<60] @ [60..<80]"
    by code_simp
  then have "?r 0 80 h = ?r 60 80 (?r 40 60 (?r 20 40 (?r 15 20 (?r 0 15 h))))"
    by (simp only: fold_append o_apply)
  then show ?thesis
    by (simp only: sha_compress_le_def sha_compress_def Let_def x1 x2 x3 x4 x5 snd_conv)
qed

section \<open>Absorbing data\<close>

text \<open>
  What both block functions have in common: they change only the state, by compressing the buffer.
\<close>

definition block_fun :: "(SHA_CTX \<Rightarrow> SHA_CTX) \<Rightarrow> bool" where
  "block_fun tr \<longleftrightarrow>
     (\<forall>c. length (buf c) = 64 \<longrightarrow> tr c = c\<lparr>state := sha_compress (state c) (buf c)\<rparr>)"

lemma block_funs [simp]: "block_fun SHA1_transform" "block_fun SHA1_Transform_le"
  by (simp_all add: block_fun_def SHA1_transform_def SHA1_Transform_le_def sha_compress_le_eq)

lemma block_funD:
  "block_fun tr \<Longrightarrow> length (buf c) = 64 \<Longrightarrow> tr c = c\<lparr>state := sha_compress (state c) (buf c)\<rparr>"
  by (simp add: block_fun_def)

lemma length_buf_update_loop:
  "block_fun tr \<Longrightarrow> length (buf c) = 64 \<Longrightarrow> length (buf (update_loop tr c i ps)) = 64"
  by (induction ps arbitrary: c i) (simp_all add: Let_def block_funD)

lemma update_loop_same:
  assumes "block_fun tr" and "block_fun tr'" and "length (buf c) = 64"
  shows "update_loop tr c i ps = update_loop tr' c i ps"
  using assms by (induction ps arbitrary: c i) (simp_all add: Let_def block_funD)

lemma update_loop_count:
  assumes "block_fun tr" and "length (buf c) = 64"
  shows "update_loop tr (c\<lparr>count := n\<rparr>) i ps = (update_loop tr c i ps)\<lparr>count := n\<rparr>"
  using assms(2)
proof (induction ps arbitrary: c i)
  case (Cons p ps)
  let ?c = "c\<lparr>buf := (buf c)[i := p]\<rparr>"
  have comm: "c\<lparr>count := n\<rparr>\<lparr>buf := b\<rparr> = c\<lparr>buf := b\<rparr>\<lparr>count := n\<rparr>" for b by simp
  have "tr (?c\<lparr>count := n\<rparr>) = (tr ?c)\<lparr>count := n\<rparr>" and "length (buf (tr ?c)) = 64"
    using assms(1) Cons.prems by (simp_all add: block_funD)
  then show ?case
    using Cons.IH [of "tr ?c" 0] Cons.IH [of ?c "i + 1"] Cons.prems
    by (cases "i = 63") (simp_all add: Let_def comm)
qed simp

lemma update_loop_append:
  assumes "i < 64"
  shows "update_loop tr c i (xs @ ys) = update_loop tr (update_loop tr c i xs) ((i + length xs) mod 64) ys"
  using assms
proof (induction xs arbitrary: c i)
  case (Cons x xs)
  show ?case
  proof (cases "i = 63")
    case False
    with Cons.prems have "i + 1 < 64" by simp
    from Cons.IH [OF this] False show ?thesis by (simp add: Let_def)
  qed (use Cons.IH [of 0] in \<open>simp add: Let_def add.commute\<close>)
qed simp

lemma update_loop_fill:
  assumes "i + length xs < 64" and "length (buf c) = 64"
  shows "update_loop tr c i xs = c\<lparr>buf := take i (buf c) @ xs @ drop (i + length xs) (buf c)\<rparr>"
  using assms
proof (induction xs arbitrary: c i)
  case (Cons x xs)
  let ?c = "c\<lparr>buf := (buf c)[i := x]\<rparr>"
  have "update_loop tr c i (x # xs) = update_loop tr ?c (i + 1) xs"
    using Cons.prems by (simp add: Let_def)
  also have "\<dots> = ?c\<lparr>buf := take (i + 1) (buf ?c) @ xs @ drop (i + 1 + length xs) (buf ?c)\<rparr>"
    using Cons by simp
  also have "take (i + 1) (buf ?c) = take i (buf c) @ [x]"
    using Cons.prems by (simp add: take_Suc_conv_app_nth take_update_cancel)
  also have "drop (i + 1 + length xs) (buf ?c) = drop (i + length (x # xs)) (buf c)"
    by simp
  finally show ?case by simp
qed simp

lemma update_loop_block:
  assumes "i + length xs = 64" and "0 < length xs" and "length (buf c) = 64"
  shows "update_loop tr c i (xs @ ys) = update_loop tr (tr (c\<lparr>buf := take i (buf c) @ xs\<rparr>)) 0 ys"
proof -
  obtain zs z where xs: "xs = zs @ [z]" using assms(2) by (cases xs rule: rev_cases) auto
  with assms(1) have i: "i + length zs = 63" by simp
  have "update_loop tr c i (xs @ ys) =
      update_loop tr (update_loop tr c i zs) ((i + length zs) mod 64) (z # ys)"
    using assms(1,2) by (simp add: xs update_loop_append)
  also have "update_loop tr c i zs = c\<lparr>buf := take i (buf c) @ zs @ drop 63 (buf c)\<rparr>"
    using i assms(3) by (simp add: update_loop_fill)
  also have "update_loop tr (c\<lparr>buf := take i (buf c) @ zs @ drop 63 (buf c)\<rparr>)
      ((i + length zs) mod 64) (z # ys) =
      update_loop tr (tr (c\<lparr>buf := (take i (buf c) @ zs @ drop 63 (buf c))[63 := z]\<rparr>)) 0 ys"
    by (simp add: i Let_def)
  also have "(take i (buf c) @ zs @ drop 63 (buf c))[63 := z] = take i (buf c) @ xs"
  proof -
    have "length (drop 63 (buf c)) = 1" using assms(3) by simp
    then obtain y where "drop 63 (buf c) = [y]" by (cases "drop 63 (buf c)") auto
    then have "(take i (buf c) @ zs @ drop 63 (buf c)) = (take i (buf c) @ zs) @ [y]" by simp
    moreover have "length (take i (buf c) @ zs) = 63" using i assms(3) by simp
    ultimately show ?thesis
      using list_update_length [of "take i (buf c) @ zs" y "[]" z] by (simp only: xs append_assoc)
  qed
  finally show ?thesis .
qed

text \<open>Copying whole blocks first gives what the byte-wise loop gives.\<close>

lemma copy_blocks_update:
  assumes "i < 64" and "length (buf c) = 64" and "copy_blocks c i p = (c', i', p')"
  shows "update_loop SHA1_Transform_le c' i' p' = update_loop SHA1_transform c i p"
  using assms
proof (induction c i p rule: copy_blocks.induct)
  case (1 c i p)
  show ?case
  proof (cases "length p > 64 - i \<and> i < 64")
    case True
    let ?c = "SHA1_Transform_le (c\<lparr>buf := take i (buf c) @ take (64 - i) p @ drop 64 (buf c)\<rparr>)"
    have buf: "length (take i (buf c) @ take (64 - i) p) = 64"
      using True "1.prems" by simp
    have t: "?c = SHA1_transform (c\<lparr>buf := take i (buf c) @ take (64 - i) p\<rparr>)"
      using True "1.prems" buf by (simp add: SHA1_Transform_le_def SHA1_transform_def sha_compress_le_eq)
    have len: "length (buf ?c) = 64"
      unfolding t using buf by (simp add: SHA1_transform_def)
    have "copy_blocks ?c 0 (drop (64 - i) p) = (c', i', p')"
      using "1.prems"(3) True by (simp add: copy_blocks.simps [of c i p])
    then have "update_loop SHA1_Transform_le c' i' p' =
        update_loop SHA1_transform ?c 0 (drop (64 - i) p)"
      using "1.IH" [OF True _ len] by simp
    also have "\<dots> = update_loop SHA1_transform c i (take (64 - i) p @ drop (64 - i) p)"
      unfolding t using True "1.prems" by (subst update_loop_block) auto
    finally show ?thesis by simp
  next
    case False
    then show ?thesis using "1.prems"
      by (simp add: copy_blocks.simps [of c i p] update_loop_same [of SHA1_Transform_le SHA1_transform])
  qed
qed

lemma SHA_update_le_eq:
  assumes "length (buf c) = 64"
  shows "SHA_update_le c xs = SHA_update c xs"
proof -
  let ?c = "c\<lparr>count := count c + word_of_nat (length xs)\<rparr>" and ?i = "unat (count c) mod 64"
  obtain c' i' p' where s: "copy_blocks ?c ?i xs = (c', i', p')" by (metis prod_cases3)
  have "?i < 64" by simp
  from copy_blocks_update [OF this _ s] assms show ?thesis
    by (simp add: SHA_update_le_def SHA_update_def s)
qed

lemma length_buf_SHA_update: "length (buf c) = 64 \<Longrightarrow> length (buf (SHA_update c xs)) = 64"
  by (simp add: SHA_update_def length_buf_update_loop)

lemma unat_add_mod_64: "unat (c + word_of_nat n :: u64) mod 64 = (unat c + n) mod 64"
proof -
  have "unat (c + word_of_nat n) mod 64 = ((unat c + n) mod 2 ^ 64) mod 64"
    by (simp add: unat_word_ariths unsigned_of_nat take_bit_eq_mod mod_simps)
  also have "\<dots> = (unat c + n) mod 64" by (simp add: mod_mod_cancel)
  finally show ?thesis .
qed

lemma SHA_update_append:
  assumes "length (buf c) = 64"
  shows "SHA_update c (xs @ ys) = SHA_update (SHA_update c xs) ys"
proof -
  let ?i = "unat (count c) mod 64"
  let ?n = "count c + word_of_nat (length xs)"
  define d where "d = update_loop SHA1_transform c ?i xs"
  have d: "length (buf d) = 64" unfolding d_def by (rule length_buf_update_loop) (simp_all add: assms)
  have x: "SHA_update c xs = d\<lparr>count := ?n\<rparr>"
    using assms by (simp add: SHA_update_def Let_def d_def update_loop_count)
  have "SHA_update c (xs @ ys) =
      (update_loop SHA1_transform d ((?i + length xs) mod 64) ys)
        \<lparr>count := count c + word_of_nat (length (xs @ ys))\<rparr>"
    using assms by (simp add: SHA_update_def Let_def d_def update_loop_count update_loop_append)
  also have "(?i + length xs) mod 64 = unat ?n mod 64"
    by (simp add: unat_add_mod_64 mod_simps)
  finally show ?thesis
    unfolding x using d
    by (simp add: SHA_update_def Let_def update_loop_count add.assoc)
qed

section \<open>The digest as a function of the message\<close>

definition sha_padding :: "nat \<Rightarrow> byte list" where
  "sha_padding n = [0x80] @ replicate ((120 - (n + 1) mod 64) mod 64) 0 @
     map (cnt_byte (word_of_nat (8 * n))) [0..<8]"

definition sha1_iv :: regs where
  "sha1_iv = (0x67452301, 0xEFCDAB89, 0x98BADCFE, 0x10325476, 0xC3D2E1F0)"

text \<open>The code's own compression function folded over the padded message.\<close>

definition blockwise :: "byte list \<Rightarrow> byte list" where
  "blockwise msg = regs_bytes (foldl sha_compress sha1_iv (blocks (msg @ sha_padding (length msg))))"

lemma length_regs_bytes [simp]: "length (regs_bytes r) = 20"
  by (simp add: regs_bytes_def split: prod.split)

lemma update_loop_blocks:
  assumes "64 dvd length xs" and "length (buf c) = 64"
  shows "state (update_loop SHA1_transform c 0 xs) = foldl sha_compress (state c) (blocks xs)"
  using assms
proof (induction xs arbitrary: c rule: blocks.induct)
  case (1 xs)
  show ?case
  proof (cases "length xs < 64")
    case True
    with "1.prems" have "xs = []" by (auto elim: dvdE)
    then show ?thesis by (simp add: blocks.simps [of "[]"])
  next
    case False
    let ?c = "SHA1_transform (c\<lparr>buf := take 64 xs\<rparr>)"
    have dvd: "64 dvd length (drop 64 xs)"
      using "1.prems"(1) False by (simp add: dvd_diff_nat)
    have len: "length (buf ?c) = 64"
      using False by (simp add: SHA1_transform_def)
    have "update_loop SHA1_transform c 0 (take 64 xs @ drop 64 xs) =
        update_loop SHA1_transform ?c 0 (drop 64 xs)"
      using False "1.prems"(2) by (subst update_loop_block) simp_all
    then have "state (update_loop SHA1_transform c 0 xs) =
        foldl sha_compress (state ?c) (blocks (drop 64 xs))"
      using "1.IH" [OF False dvd len] by simp
    also have "state ?c = sha_compress (state c) (take 64 xs)"
      by (simp add: SHA1_transform_def)
    finally show ?thesis using False by (simp add: blocks.simps [of xs])
  qed
qed

lemma zero_pad_count:
  "\<forall>m\<in>set [0..<64]. m \<noteq> 56 \<longrightarrow> (120 - m) mod (64::nat) = Suc ((120 - Suc m mod 64) mod 64)"
  by code_simp

lemma SHA_update_Nil [simp]: "SHA_update c [] = c"
  by (simp add: SHA_update_def)

lemma zero_pad_update:
  assumes "length (buf c) = 64"
  shows "zero_pad c = SHA_update c (replicate ((120 - unat (count c) mod 64) mod 64) 0)"
  using assms
proof (induction c rule: zero_pad.induct)
  case (1 c)
  show ?case
  proof (cases "unat (count c) mod 64 = 56")
    case True
    then show ?thesis by (simp add: zero_pad.simps [of c])
  next
    case False
    let ?d = "SHA_update c [0]"
    have cnt: "unat (count ?d) mod 64 = Suc (unat (count c) mod 64) mod 64"
      by (simp add: count_SHA_update unat_Suc_mod_64 mod_simps)
    have k: "(120 - unat (count c) mod 64) mod 64 =
        Suc ((120 - unat (count ?d) mod 64) mod 64)"
      unfolding cnt by (rule zero_pad_count [rule_format]) (simp_all add: False)
    have "zero_pad c = zero_pad ?d" using False by (simp add: zero_pad.simps [of c])
    also have "\<dots> = SHA_update ?d (replicate ((120 - unat (count ?d) mod 64) mod 64) 0)"
      using 1 False by (simp add: length_buf_SHA_update)
    also have "\<dots> = SHA_update c ([0] @ replicate ((120 - unat (count ?d) mod 64) mod 64) 0)"
      using 1(2) by (simp only: SHA_update_append)
    finally show ?thesis unfolding k by simp
  qed
qed

text \<open>Both versions are streaming hashes, so data may be fed in pieces.\<close>

definition fresh_ctx :: SHA_CTX where
  "fresh_ctx = \<lparr>count = 0, state = sha1_iv, buf = replicate 64 0\<rparr>"

lemma streaming_SHA:
  assumes "length (buf ctx) = 64"
  shows "exact_streaming (SHA_init ctx) SHA_update (\<lambda>c. length (buf c) = 64)"
  using assms
  by unfold_locales (simp_all add: SHA_init_def length_buf_SHA_update SHA_update_append)

interpretation sha: exact_streaming "SHA_init fresh_ctx" SHA_update
    "\<lambda>c. take SHA_DIGEST_SIZE (buf (SHA_final c))" "\<lambda>c. length (buf c) = 64"
  by (rule streaming_SHA) (simp add: fresh_ctx_def)

interpretation sha_le: exact_streaming "SHA_init fresh_ctx" SHA_update_le
    "\<lambda>c. take SHA_DIGEST_SIZE (buf (SHA_final_le c))" "\<lambda>c. length (buf c) = 64"
  by unfold_locales
    (simp_all add: SHA_init_def fresh_ctx_def SHA_update_le_eq length_buf_SHA_update SHA_update_append)

lemma SHA_final_state:
  assumes "length (buf c) = 64"
  shows "SHA_final c = (let d = SHA_update c ([0x80] @
       replicate ((120 - unat (count c + 1) mod 64) mod 64) 0 @ map (cnt_byte (count c * 8)) [0..<8])
     in d\<lparr>buf := regs_bytes (state d) @ drop 20 (buf d)\<rparr>)"
proof -
  let ?z = "replicate ((120 - unat (count c + 1) mod 64) mod 64) (0::byte)"
  have c1: "length (buf (SHA_update c [0x80])) = 64"
    using assms by (rule length_buf_SHA_update)
  have "zero_pad (SHA_update c [0x80]) = SHA_update (SHA_update c [0x80]) ?z"
    using zero_pad_update [OF c1] by (simp add: count_SHA_update)
  also have "\<dots> = SHA_update c ([0x80] @ ?z)"
    using assms by (simp only: SHA_update_append)
  finally have c2: "zero_pad (SHA_update c [0x80]) = SHA_update c ([0x80] @ ?z)" .
  have fold: "foldl (\<lambda>c i. SHA_update c [f i]) d is = SHA_update d (map f is)"
    if "length (buf d) = 64" for f d "is"
    using sha.bytewise [OF that, of "map f is"] by (simp add: foldl_map)
  have "length (buf (SHA_update c ([0x80] @ ?z))) = 64"
    using assms by (rule length_buf_SHA_update)
  from fold [OF this] have "foldl (\<lambda>c i. SHA_update c [cnt_byte (count c0 * 8) i])
      (SHA_update c ([0x80] @ ?z)) [0..<8] =
      SHA_update c (([0x80] @ ?z) @ map (cnt_byte (count c0 * 8)) [0..<8])" for c0 :: SHA_CTX
    using assms by (simp only: SHA_update_append)
  then show ?thesis
    by (simp only: SHA_final_def Let_def c2 append_assoc)
qed

lemma padded_mod:
  "\<forall>m\<in>set [0..<64]. (m + (1 + ((120 - (m + 1) mod 64) mod 64 + 8))) mod (64::nat) = 0"
  by code_simp

lemma length_sha_padding: "length (sha_padding n) = 1 + ((120 - (n + 1) mod 64) mod 64 + 8)"
  by (simp add: sha_padding_def del: upt.simps)

lemma length_padded: "64 dvd length msg + length (sha_padding (length msg))"
proof -
  have "length msg mod 64 \<in> set [0..<64]" by simp
  from padded_mod [THEN bspec, OF this] show ?thesis
    unfolding length_sha_padding dvd_eq_mod_eq_0 by (simp only: mod_add_left_eq)
qed

lemma SHA_blockwise:
  assumes "length (buf ctx) = 64"
  shows "SHA ctx msg = blockwise msg"
proof -
  let ?i = "SHA_init ctx"
  let ?c = "SHA_update ?i msg"
  have i: "length (buf ?i) = 64" "count ?i = 0" "state ?i = sha1_iv"
    using assms by (simp_all add: SHA_init_def sha1_iv_def)
  have cnt: "count ?c = word_of_nat (length msg)"
    by (simp add: count_SHA_update i)
  have m: "unat (count ?c + 1) mod 64 = (length msg + 1) mod 64"
    using unat_add_mod_64 [of 0 "length msg + 1"] by (simp add: cnt add.commute)
  have "count ?c * 8 = word_of_nat (8 * length msg)"
    by (simp add: cnt mult.commute)
  with m have "SHA_final ?c = (let d = SHA_update ?c (sha_padding (length msg))
      in d\<lparr>buf := regs_bytes (state d) @ drop 20 (buf d)\<rparr>)"
    using SHA_final_state [OF length_buf_SHA_update [OF i(1)], of msg]
    by (simp only: sha_padding_def)
  also have "SHA_update ?c (sha_padding (length msg)) = SHA_update ?i (msg @ sha_padding (length msg))"
    using i(1) by (simp only: SHA_update_append)
  finally have "SHA ctx msg = regs_bytes (state (SHA_update ?i (msg @ sha_padding (length msg))))"
    by (simp add: SHA_def SHA_DIGEST_SIZE_def Let_def)
  also have "state (SHA_update ?i (msg @ sha_padding (length msg))) =
      foldl sha_compress sha1_iv (blocks (msg @ sha_padding (length msg)))"
    using update_loop_blocks [of "msg @ sha_padding (length msg)" ?i] i length_padded [of msg]
    by (simp add: SHA_update_def update_loop_count)
  finally show ?thesis by (simp add: blockwise_def)
qed

lemma zero_pad_le_eq: "length (buf c) = 64 \<Longrightarrow> zero_pad_le c = zero_pad c"
proof (induction c rule: zero_pad.induct)
  case (1 c)
  then show ?case
    by (simp add: zero_pad.simps [of c] zero_pad_le.simps [of c] SHA_update_le_eq
        length_buf_SHA_update)
qed

lemma length_buf_zero_pad: "length (buf c) = 64 \<Longrightarrow> length (buf (zero_pad c)) = 64"
  by (simp add: zero_pad_update length_buf_SHA_update)

lemma regs_words_le: "regs_words_le r = regs_bytes r"
  by (simp add: regs_words_le_def regs_bytes_def be32_bytes_bswap split: prod.split)

lemma SHA_final_le_eq:
  assumes "length (buf c) = 64"
  shows "SHA_final_le c = SHA_final c"
proof -
  have fold: "foldl (\<lambda>c i. SHA_update_le c [f i]) d is = foldl (\<lambda>c i. SHA_update c [f i]) d is"
    if "length (buf d) = 64" for f d "is"
    using that by (induction "is" arbitrary: d) (simp_all add: SHA_update_le_eq length_buf_SHA_update)
  show ?thesis
    using assms
    by (simp add: fold SHA_final_le_def SHA_final_def Let_def SHA_update_le_eq zero_pad_le_eq
        length_buf_SHA_update length_buf_zero_pad regs_words_le del: upt.simps)
qed

section \<open>The standard\<close>

text \<open>
  SHA-1 as FIPS 180-4 states it, with no step of the code in it: the schedule as a recurrence over
  the words of the block, the functions Ch, Parity and Maj, and rotations of words.
\<close>

fun fips_w :: "byte list \<Rightarrow> nat \<Rightarrow> u32" where
  "fips_w p t =
     (if t < 16 then be32 (take 4 (drop (4 * t) p))
      else word_rotl 1 (fips_w p (t - 3) XOR fips_w p (t - 8) XOR fips_w p (t - 14) XOR
        fips_w p (t - 16)))"

declare fips_w.simps [simp del]

definition fips_f :: "nat \<Rightarrow> u32 \<Rightarrow> u32 \<Rightarrow> u32 \<Rightarrow> u32" where
  "fips_f t x y z =
     (if t < 20 then (x AND y) XOR (NOT x AND z)
      else if 40 \<le> t \<and> t < 60 then (x AND y) XOR (x AND z) XOR (y AND z)
      else x XOR y XOR z)"

definition fips_k :: "nat \<Rightarrow> u32" where
  "fips_k t = [0x5A827999, 0x6ED9EBA1, 0x8F1BBCDC, 0xCA62C1D6] ! (t div 20)"

definition fips_step :: "byte list \<Rightarrow> nat \<Rightarrow> regs \<Rightarrow> regs" where
  "fips_step p t r =
     (case r of (a, b, c, d, e) \<Rightarrow>
        (word_rotl 5 a + fips_f t b c d + e + fips_k t + fips_w p t, a, word_rotl 30 b, c, d))"

definition fips_hash :: "regs \<Rightarrow> byte list \<Rightarrow> regs" where
  "fips_hash h p = add_regs h (fold (fips_step p) [0..<80] h)"

definition sha1 :: "byte list \<Rightarrow> byte list" where
  "sha1 msg = regs_bytes (foldl fips_hash sha1_iv (blocks (msg @ sha_padding (length msg))))"

lemma rol_word_rotl: "0 < n \<Longrightarrow> n < 32 \<Longrightarrow> rol n v = word_rotl n v"
  by (simp add: rol_def shifts_word_rotl)

lemma schedule_fips: "t < 80 \<Longrightarrow> schedule p ! t = fips_w p t"
proof (induction t rule: less_induct)
  case (less t)
  then show ?case
    by (cases "t < 16") (simp_all add: fips_w.simps [of p t] schedule_props(2,3) rol_word_rotl)
qed

lemma choice_eq: "D XOR (B AND (C XOR D)) = (B AND C) XOR (NOT B AND D)" for B C D :: u32
  by (rule bit_word_eqI) (auto simp: bit_simps)

lemma majority_eq: "(B AND C) OR (D AND (B OR C)) = (B AND C) XOR (B AND D) XOR (C AND D)"
  for B C D :: u32
  by (rule bit_word_eqI) (auto simp: bit_simps)

lemma div_20: "t < 20 \<Longrightarrow> t div 20 = 0" "20 \<le> t \<Longrightarrow> t < 40 \<Longrightarrow> t div 20 = 1"
  "40 \<le> t \<Longrightarrow> t < 60 \<Longrightarrow> t div 20 = 2" "60 \<le> t \<Longrightarrow> t < 80 \<Longrightarrow> t div 20 = (3::nat)"
  by simp_all

lemma sha_round_fips: "t < 80 \<Longrightarrow> sha_round (schedule p) t r = fips_step p t r"
  by (cases r)
    (simp add: sha_round_def fips_step_def fips_f_def fips_k_def schedule_fips rol_word_rotl
      choice_eq majority_eq div_20 Let_def algebra_simps)

lemma sha_compress_fips: "sha_compress h p = fips_hash h p"
proof -
  have "fold (sha_round (schedule p)) [0..<80] h = fold (fips_step p) [0..<80] h"
    by (rule fold_cong) (simp_all add: sha_round_fips fun_eq_iff)
  then show ?thesis by (simp add: sha_compress_def fips_hash_def del: upt.simps)
qed

lemma blockwise_sha1: "blockwise msg = sha1 msg"
  by (simp add: blockwise_def sha1_def sha_compress_fips [abs_def])

lemma length_sha1 [simp]: "length (sha1 msg) = 20"
  by (simp add: sha1_def)

lemma SHA_sha1: "length (buf ctx) = 64 \<Longrightarrow> SHA ctx msg = sha1 msg"
  by (simp add: SHA_blockwise blockwise_sha1)

lemma SHA_le_SHA: "length (buf ctx) = 64 \<Longrightarrow> SHA_le ctx msg = SHA ctx msg"
  by (simp add: SHA_le_def SHA_def SHA_update_le_eq SHA_final_le_eq length_buf_SHA_update SHA_init_def)

section \<open>Properties\<close>

text \<open>
  C3: Both versions of the file compute SHA-1: whatever was on the stack in the context, \<open>SHA\<close> of
  a buffer is the digest the standard defines, for every message. (The length is an \<open>int\<close> in the code, so a message
  has less than \<open>2 ^ 31\<close> bytes.)
\<close>

theorem SHA_computes_sha1:
  assumes "length (buf ctx) = 64"
  shows "SHA ctx msg = sha1 msg \<and> SHA_le ctx msg = sha1 msg"
  using assms by (simp add: SHA_sha1 SHA_le_SHA)

theorem SHA_computes_sha1_witness:
  "SHA \<lparr>count = 7, state = sha1_iv, buf = replicate 64 0xAA\<rparr> [97, 98, 99] = sha1 [97, 98, 99]"
  using SHA_computes_sha1 [of "\<lparr>count = 7, state = sha1_iv, buf = replicate 64 0xAA\<rparr>" "[97, 98, 99]"]
  by simp

text \<open>
  C10: The unrolled transform of the little-endian version, with its registers in rotated roles and
  its schedule computed in between, is the portable one on every state and every block.
\<close>

theorem SHA1_Transform_versions_agree:
  assumes "length (buf ctx) = 64"
  shows "SHA1_Transform_le ctx = SHA1_transform ctx"
  using assms by (simp add: SHA1_Transform_le_def SHA1_transform_def sha_compress_le_eq)

theorem SHA1_Transform_versions_agree_witness:
  "SHA1_Transform_le fresh_ctx = SHA1_transform fresh_ctx"
  by (rule SHA1_Transform_versions_agree) (simp add: fresh_ctx_def)

text \<open>
  Data may be fed in pieces of any size: the digest after a sequence of updates is the digest
  of the concatenation, in both versions, wherever the pieces cross the blocks.
\<close>

theorem SHA_streaming:
  "take SHA_DIGEST_SIZE (buf (SHA_final (foldl SHA_update (SHA_init fresh_ctx) xss))) =
     sha1 (concat xss) \<and>
   take SHA_DIGEST_SIZE (buf (SHA_final_le (foldl SHA_update_le (SHA_init fresh_ctx) xss))) =
     sha1 (concat xss)"
proof -
  have "length (buf fresh_ctx) = 64" by (simp add: fresh_ctx_def)
  from SHA_sha1 [OF this] SHA_le_SHA [OF this] show ?thesis
    unfolding sha.digest_pieces sha_le.digest_pieces sha.digest_def sha_le.digest_def
    by (simp add: SHA_def SHA_le_def)
qed

end
