(* ===== verification/Rsa.thy ===== *)
theory Rsa
  imports Sha "HOL-Library.Monad_Syntax"
begin

text \<open>
  The RSA signature check of \<open>cookbook/android-mkbootfs/source/libmincrypt/rsa.c\<close>: arithmetic on
  little-endian arrays of 32-bit words with Montgomery reduction, the public exponent 3, and the
  comparison with the PKCS1.5 padding. The 64-bit accumulators are words, so their wrap-around is
  the machine's; the proofs show that none of them wraps.
\<close>

section \<open>The key\<close>

definition RSANUMBYTES :: nat where
  "RSANUMBYTES = 256"

definition RSANUMWORDS :: nat where
  "RSANUMWORDS = RSANUMBYTES div 4"

record RSAPublicKey =
  len :: int
  n0inv :: u32
  n_words :: "u32 list"
  rr :: "u32 list"

text \<open>The number of iterations of a loop up to \<open>key->len\<close>.\<close>

definition nwords :: "RSAPublicKey \<Rightarrow> nat" where
  "nwords key = nat (len key)"

section \<open>Words arithmetic\<close>

text \<open>\<open>subM\<close>; the signed accumulator is a 64-bit word shifted arithmetically.\<close>

fun subM_loop :: "u64 \<Rightarrow> u32 list \<Rightarrow> u32 list \<Rightarrow> u32 list" where
  "subM_loop acc (a # as) (m # ms) =
     (let acc1 = acc + (ucast a - ucast m)
      in ucast acc1 # subM_loop (signed_drop_bit 32 acc1) as ms)"
| "subM_loop acc _ _ = []"

definition subM :: "RSAPublicKey \<Rightarrow> u32 list \<Rightarrow> u32 list" where
  "subM key a =
     subM_loop 0 (take (nwords key) a) (take (nwords key) (n_words key)) @ drop (nwords key) a"

text \<open>\<open>geM\<close>, from the most significant word down.\<close>

fun geM_loop :: "u32 list \<Rightarrow> u32 list \<Rightarrow> bool" where
  "geM_loop (a # as) (m # ms) =
     (if a < m then False else if a > m then True else geM_loop as ms)"
| "geM_loop _ _ = True"

definition geM :: "RSAPublicKey \<Rightarrow> u32 list \<Rightarrow> bool" where
  "geM key a = geM_loop (rev (take (nwords key) a)) (rev (take (nwords key) (n_words key)))"

text \<open>
  The loop of \<open>montMulAdd\<close> over the words from the second on: the new words \<open>c[i - 1]\<close> and the last
  values of the accumulators \<open>A\<close> and \<open>B\<close>.
\<close>

fun mont_loop ::
    "u32 \<Rightarrow> u32 \<Rightarrow> u64 \<Rightarrow> u64 \<Rightarrow> u32 list \<Rightarrow> u32 list \<Rightarrow> u32 list \<Rightarrow> u32 list \<times> u64 \<times> u64" where
  "mont_loop a d0 A B (c # cs) (b # bs) (m # ms) =
     (let A1 = drop_bit 32 A + ucast a * ucast b + ucast c;
          B1 = drop_bit 32 B + ucast d0 * ucast m + ucast (ucast A1 :: u32);
          (cs', A', B') = mont_loop a d0 A1 B1 cs bs ms
      in (ucast B1 # cs', A', B'))"
| "mont_loop a d0 A B _ _ _ = ([], A, B)"

definition montMulAdd :: "RSAPublicKey \<Rightarrow> u32 list \<Rightarrow> u32 \<Rightarrow> u32 list \<Rightarrow> u32 list" where
  "montMulAdd key c a b =
     (let A = ucast a * ucast (b ! 0) + ucast (c ! 0);
          d0 = ucast A * n0inv key;
          B = ucast d0 * ucast (n_words key ! 0) + ucast (ucast A :: u32);
          k = nwords key;
          (cs, A1, B1) = mont_loop a d0 A B (tl (take k c)) (tl (take k b)) (tl (take k (n_words key)));
          A2 = drop_bit 32 A1 + drop_bit 32 B1;
          c1 = cs @ [ucast A2] @ drop k c
      in if drop_bit 32 A2 \<noteq> 0 then subM key c1 else c1)"

definition montMul :: "RSAPublicKey \<Rightarrow> u32 list \<Rightarrow> u32 list \<Rightarrow> u32 list" where
  "montMul key a b =
     foldl (\<lambda>c ai. montMulAdd key c ai b) (replicate (nwords key) 0) (take (nwords key) a)"

text \<open>\<open>modpow3\<close>, on a byte array in place.\<close>

definition load_words :: "nat \<Rightarrow> byte list \<Rightarrow> u32 list" where
  "load_words k inout = map (\<lambda>i. be32 (take 4 (drop ((k - 1 - i) * 4) inout))) [0..<k]"

definition store_words :: "u32 list \<Rightarrow> byte list" where
  "store_words ws = concat (map be32_bytes (rev ws))"

definition modpow3 :: "RSAPublicKey \<Rightarrow> byte list \<Rightarrow> byte list" where
  "modpow3 key inout =
     (let a = load_words (nwords key) inout;
          aR = montMul key a (rr key);
          aaR = montMul key aR aR;
          aaa = montMul key aaR a;
          aaa = (if geM key aaa then subM key aaa else aaa)
      in store_words aaa @ drop (4 * nwords key) inout)"

section \<open>The signature check\<close>

definition padding :: "byte list" where
  "padding = [0x00, 0x01] @ replicate 218 0xff @
     [0x00, 0x30, 0x21, 0x30, 0x09, 0x06, 0x05, 0x2b, 0x0e, 0x03, 0x02, 0x1a, 0x05, 0x00, 0x04, 0x14]"

text \<open>A loop that returns at the first difference.\<close>

fun bytes_match :: "byte list \<Rightarrow> byte list \<Rightarrow> bool" where
  "bytes_match (x # xs) (y # ys) = (if x \<noteq> y then False else bytes_match xs ys)"
| "bytes_match _ _ = True"

definition RSA_verify :: "RSAPublicKey \<Rightarrow> byte list \<Rightarrow> int \<Rightarrow> byte list \<Rightarrow> int" where
  "RSA_verify key signature sig_len sha =
     (if len key \<noteq> int RSANUMWORDS then 0
      else if sig_len \<noteq> int RSANUMBYTES then 0
      else let bs = modpow3 key (take (nat sig_len) signature) in
        if \<not> bytes_match bs padding then 0
        else if \<not> bytes_match (drop (length padding) bs) sha then 0
        else 1)"

section \<open>The numbers that arrays of words stand for\<close>

fun wval :: "u32 list \<Rightarrow> nat" where
  "wval [] = 0"
| "wval (x # xs) = unat x + 2 ^ 32 * wval xs"

definition radix :: "nat \<Rightarrow> nat" where
  "radix k = 2 ^ (32 * k)"

lemma radix_0 [simp]: "radix 0 = 1"
  by (simp add: radix_def)

lemma radix_Suc: "radix (Suc k) = 2 ^ 32 * radix k"
  by (simp add: radix_def power_add)

lemma radix_pos [simp]: "0 < radix k"
  by (simp add: radix_def)

lemma unat_u32: "unat (x :: u32) < 2 ^ 32"
  using unsigned_less [of x] by simp

lemma unat_u64: "unat (x :: u64) < 2 ^ 64"
  using unsigned_less [of x] by simp

lemma unat_of_nat_64: "v < 2 ^ 64 \<Longrightarrow> unat (word_of_nat v :: u64) = v"
  by (simp add: unsigned_of_nat take_bit_nat_eq_self)

lemma wval_less: "wval xs < radix (length xs)"
proof (induction xs)
  case (Cons x xs)
  then have "wval xs + 1 \<le> radix (length xs)" by simp
  then have "2 ^ 32 * (wval xs + 1) \<le> 2 ^ 32 * radix (length xs)" by (rule mult_le_mono2)
  then show ?case using unat_u32 [of x] by (simp add: radix_Suc)
qed simp

lemma wval_append: "wval (xs @ ys) = wval xs + radix (length xs) * wval ys"
  by (induction xs) (simp_all add: radix_Suc algebra_simps)

lemma wval_replicate_0 [simp]: "wval (replicate k 0) = 0"
  by (induction k) simp_all

lemma wval_inj: "length xs = length ys \<Longrightarrow> wval xs = wval ys \<Longrightarrow> xs = ys"
proof (induction xs ys rule: list_induct2)
  case (Cons x xs y ys)
  then have eq: "unat x + 2 ^ 32 * wval xs = unat y + 2 ^ 32 * wval ys" by simp
  then have "(unat x + 2 ^ 32 * wval xs) mod 2 ^ 32 = (unat y + 2 ^ 32 * wval ys) mod 2 ^ 32"
    by (rule arg_cong)
  then have "unat x = unat y"
    using unat_u32 [of x] unat_u32 [of y] by simp
  then have "x = y" by (rule unsigned_word_eqI)
  with eq Cons.IH show ?case by simp
qed simp

section \<open>Subtraction and comparison\<close>

lemma mod_radix_step:
  fixes x y r :: int
  assumes "0 < r"
  shows "x mod 2 ^ 32 + 2 ^ 32 * ((x div 2 ^ 32 + y) mod r) = (x + 2 ^ 32 * y) mod (2 ^ 32 * r)"
proof -
  have "(x + 2 ^ 32 * y) mod (2 ^ 32 * r) =
      2 ^ 32 * ((x + 2 ^ 32 * y) div 2 ^ 32 mod r) + (x + 2 ^ 32 * y) mod 2 ^ 32"
    using assms by (simp only: zmod_zmult2_eq [of r "x + 2 ^ 32 * y" "2 ^ 32"] less_imp_le)
  also have "(x + 2 ^ 32 * y) div 2 ^ 32 = x div 2 ^ 32 + y" by simp
  also have "(x + 2 ^ 32 * y) mod 2 ^ 32 = x mod 2 ^ 32" by simp
  finally show ?thesis by simp
qed

lemma subM_acc:
  fixes acc :: u64 and a m :: u32
  assumes "sint acc \<in> {-1, 0}"
    and v_def: "v = sint acc + uint a - uint m"
    and acc1_def: "acc1 = acc + (ucast a - ucast m)"
  shows "uint (ucast acc1 :: u32) = v mod 2 ^ 32"
    and "sint (signed_drop_bit 32 acc1) = v div 2 ^ 32"
    and "sint (signed_drop_bit 32 acc1) \<in> {-1, 0}"
proof -
  have ua: "0 \<le> uint a" "uint a < 2 ^ 32" and um: "0 \<le> uint m" "uint m < 2 ^ 32"
    using unsigned_less [of a] unsigned_less [of m] by simp_all
  have "acc = word_of_int (sint acc)" "ucast a = (word_of_int (uint a) :: u64)"
    "ucast m = (word_of_int (uint m) :: u64)" by simp_all
  then have w: "acc1 = word_of_int v"
    unfolding acc1_def v_def by (simp only: of_int_add of_int_diff add_diff_eq)
  have v: "- (2 ^ 32) \<le> v" "v < 2 ^ 32"
  proof -
    have "- 1 \<le> sint acc" "sint acc \<le> 0" using assms(1) by auto
    with ua um show "- (2 ^ 32) \<le> v" "v < 2 ^ 32" unfolding v_def by linarith+
  qed
  show "uint (ucast acc1 :: u32) = v mod 2 ^ 32"
    by (simp add: w unsigned_ucast_eq unsigned_of_int take_bit_eq_mod mod_mod_cancel)
  have "sint acc1 = v"
    using v by (simp add: w signed_of_int signed_take_bit_int_eq_self)
  then show d: "sint (signed_drop_bit 32 acc1) = v div 2 ^ 32"
    by (simp add: sint_signed_drop_bit_eq drop_bit_eq_div)
  show "sint (signed_drop_bit 32 acc1) \<in> {-1, 0}"
  proof (cases "v < 0")
    case True
    then have "v div 2 ^ 32 = -1" using v by (intro int_div_pos_eq [of _ _ _ "v + 2 ^ 32"]) simp_all
    with d show ?thesis by simp
  next
    case False
    with v d show ?thesis by simp
  qed
qed

lemma length_subM_loop: "length (subM_loop acc as ms) = min (length as) (length ms)"
  by (induction acc as ms rule: subM_loop.induct) (simp_all add: Let_def)

lemma subM_loop_val:
  assumes "length as = length ms" and "sint acc \<in> {-1, 0}"
  shows "int (wval (subM_loop acc as ms)) =
    (sint acc + int (wval as) - int (wval ms)) mod int (radix (length as))"
  using assms
proof (induction as ms arbitrary: acc rule: list_induct2)
  case Nil
  then show ?case by simp
next
  case (Cons a as m ms)
  let ?v = "sint acc + uint a - uint m"
  note acc = subM_acc [OF Cons.prems refl refl, of a m]
  have "int (wval (subM_loop acc (a # as) (m # ms))) =
      ?v mod 2 ^ 32 + 2 ^ 32 * ((?v div 2 ^ 32 + (int (wval as) - int (wval ms))) mod int (radix (length as)))"
    using Cons.IH [OF acc(3)] acc(1,2) by (simp add: Let_def add_diff_eq)
  also have "\<dots> = (?v + 2 ^ 32 * (int (wval as) - int (wval ms))) mod (2 ^ 32 * int (radix (length as)))"
    by (rule mod_radix_step) simp
  finally show ?case by (simp add: radix_Suc algebra_simps)
qed

lemma geM_loop_val:
  assumes "length as = length ms"
  shows "geM_loop as ms \<longleftrightarrow> wval (rev ms) \<le> wval (rev as)"
  using assms
proof (induction as ms rule: list_induct2)
  case (Cons a as m ms)
  let ?r = "radix (length as)"
  have va: "wval (rev (a # as)) = wval (rev as) + ?r * unat a"
    and vm: "wval (rev (m # ms)) = wval (rev ms) + ?r * unat m"
    using Cons.hyps by (simp_all add: wval_append)
  have la: "wval (rev as) < ?r" and lm: "wval (rev ms) < ?r"
    using wval_less [of "rev as"] wval_less [of "rev ms"] Cons.hyps by simp_all
  have step: "x + ?r * i < y + ?r * j" if "i < j" "x < ?r" for x y i j
  proof -
    have "x + ?r * i < ?r * (i + 1)" using that by simp
    also have "\<dots> \<le> ?r * j" using that by (intro mult_le_mono2) simp
    finally show ?thesis by simp
  qed
  consider "a < m" | "m < a" | "a = m" by fastforce
  then show ?case
  proof cases
    case 1
    with step [of "unat a" "unat m", OF _ la] show ?thesis
      by (simp add: va vm word_less_nat_alt not_le del: rev.simps)
  next
    case 2
    then have "\<not> a < m" by simp
    with 2 step [of "unat m" "unat a", OF _ lm] show ?thesis
      by (simp add: va vm word_less_nat_alt less_imp_le del: rev.simps)
  next
    case 3
    have "geM_loop (a # as) (m # ms) = geM_loop as ms" using 3 by simp
    with 3 Cons.IH show ?thesis unfolding va vm by simp
  qed
qed simp

section \<open>The Montgomery step\<close>

lemma mont_acc:
  fixes a x c :: u32 and A :: u64
  assumes A1_def: "A1 = drop_bit 32 A + ucast a * ucast x + ucast c"
  shows "unat A1 = unat A div 2 ^ 32 + unat a * unat x + unat c"
proof -
  have A: "unat A div 2 ^ 32 \<le> 2 ^ 32 - 1"
    using unat_u64 [of A] by simp
  have le: "unat a \<le> 2 ^ 32 - 1" "unat x \<le> 2 ^ 32 - 1" "unat c \<le> 2 ^ 32 - 1"
    using unat_u32 [of a] unat_u32 [of x] unat_u32 [of c] by linarith+
  have "unat a * unat x \<le> (2 ^ 32 - 1) * (2 ^ 32 - 1)"
    by (rule mult_le_mono) (fact le)+
  with A le have "unat A div 2 ^ 32 + unat a * unat x + unat c < 2 ^ 64"
    by simp
  moreover have "A1 = word_of_nat (unat A div 2 ^ 32 + unat a * unat x + unat c)"
  proof -
    have dA: "unat (drop_bit 32 A) = unat A div 2 ^ 32"
      by (simp only: unat_drop_bit_eq drop_bit_eq_div [of 32 "unat A"])
    have "drop_bit 32 A = word_of_nat (unat (drop_bit 32 A))" by simp
    then have "drop_bit 32 A = word_of_nat (unat A div 2 ^ 32)" by (simp only: dA)
    moreover have "ucast a = (word_of_nat (unat a) :: u64)" "ucast x = (word_of_nat (unat x) :: u64)"
      "ucast c = (word_of_nat (unat c) :: u64)" by simp_all
    ultimately show ?thesis unfolding A1_def by (simp only: of_nat_add of_nat_mult)
  qed
  ultimately show ?thesis by (simp only: unat_of_nat_64)
qed

lemma unat_low: "unat (ucast (A :: u64) :: u32) = unat A mod 2 ^ 32"
  by (simp add: unsigned_ucast_eq take_bit_eq_mod)

lemma div_mod_32: "x mod 2 ^ 32 + 2 ^ 32 * (x div 2 ^ 32) = (x :: nat)"
  by simp

lemma mont_loop_val:
  assumes "length cs = length bs" and "length bs = length ms"
    and "mont_loop a d0 A B cs bs ms = (cs', A', B')"
  shows "length cs' = length cs \<and>
    wval cs' + radix (length cs) * (unat A' div 2 ^ 32 + unat B' div 2 ^ 32) =
      unat A div 2 ^ 32 + unat B div 2 ^ 32 + unat a * wval bs + wval cs + unat d0 * wval ms"
  using assms
proof (induction cs bs ms arbitrary: A B cs' A' B' rule: list_induct3)
  case (Cons c cs b bs m ms)
  define A1 where "A1 = drop_bit 32 A + ucast a * ucast b + ucast c"
  define B1 where "B1 = drop_bit 32 B + ucast d0 * ucast m + ucast (ucast A1 :: u32)"
  obtain ds where ds: "mont_loop a d0 A1 B1 cs bs ms = (ds, A', B')" "cs' = ucast B1 # ds"
    using Cons.prems by (auto simp: A1_def B1_def Let_def split: prod.splits)
  note IH = Cons.IH [OF ds(1)]
  have vA: "unat A1 = unat A div 2 ^ 32 + unat a * unat b + unat c"
    by (rule mont_acc [OF A1_def])
  have vB: "unat B1 = unat B div 2 ^ 32 + unat d0 * unat m + unat A1 mod 2 ^ 32"
    using mont_acc [OF B1_def] by (simp only: unat_low)
  have "wval cs' + radix (length (c # cs)) * (unat A' div 2 ^ 32 + unat B' div 2 ^ 32) =
      unat B1 mod 2 ^ 32 + 2 ^ 32 *
        (wval ds + radix (length cs) * (unat A' div 2 ^ 32 + unat B' div 2 ^ 32))"
    by (simp add: ds(2) unat_low radix_Suc algebra_simps)
  also have "\<dots> = (unat B1 mod 2 ^ 32 + 2 ^ 32 * (unat B1 div 2 ^ 32)) + 2 ^ 32 * (unat A1 div 2 ^ 32) +
      2 ^ 32 * (unat a * wval bs + wval cs + unat d0 * wval ms)"
    using IH by (simp only: distrib_left add.assoc add.commute add.left_commute)
  also have "\<dots> = unat B div 2 ^ 32 + unat d0 * unat m +
      (unat A1 mod 2 ^ 32 + 2 ^ 32 * (unat A1 div 2 ^ 32)) +
      2 ^ 32 * (unat a * wval bs + wval cs + unat d0 * wval ms)"
    by (simp only: div_mod_32 vB add.assoc)
  also have "\<dots> = unat A div 2 ^ 32 + unat B div 2 ^ 32 + unat a * wval (b # bs) + wval (c # cs) +
      unat d0 * wval (m # ms)"
    by (simp only: div_mod_32 vA wval.simps) (simp add: algebra_simps)
  finally show ?case using IH ds(2) by simp
qed simp

text \<open>The first digit: \<open>d0\<close> is chosen so that the lowest word of the sum vanishes.\<close>

lemma mont_d0:
  fixes A B :: u64 and m n0 :: u32
  assumes "n0 * m = - 1" and "B = ucast (ucast A * n0) * ucast m + ucast (ucast A :: u32)"
  shows "unat B = unat (ucast A * n0 :: u32) * unat m + unat A mod 2 ^ 32"
    and "unat B mod 2 ^ 32 = 0"
proof -
  show vB: "unat B = unat (ucast A * n0 :: u32) * unat m + unat A mod 2 ^ 32"
    using mont_acc [of B 0 "ucast A * n0" m "ucast A"] assms(2) by (simp add: unat_low)
  have "(ucast B :: u32) = ucast A * n0 * m + ucast A"
  proof (rule unsigned_word_eqI)
    show "unat (ucast B :: u32) = unat (ucast A * n0 * m + ucast A :: u32)"
      unfolding unat_low vB
      by (simp only: unat_word_ariths(1) unat_word_ariths(2) [of "ucast A * n0" m] unat_low
          len_of_numeral_defs) (simp add: mod_simps)
  qed
  also have "\<dots> = 0" using assms(1) by (simp add: mult.assoc)
  finally have "unat (ucast B :: u32) = 0" by simp
  then show "unat B mod 2 ^ 32 = 0" by (simp only: unat_low)
qed

text \<open>What the two accumulators add up to, before the final subtraction.\<close>

lemma mont_sum:
  assumes lens: "length cs = length bs" "length bs = length ms"
    and n0: "n0 * m = - 1"
    and A: "A = ucast a * ucast b + ucast c" and d0: "d0 = ucast A * n0"
    and B: "B = ucast d0 * ucast m + ucast (ucast A :: u32)"
    and loop: "mont_loop a d0 A B cs bs ms = (cs', A1, B1)"
    and A2: "A2 = drop_bit 32 A1 + drop_bit 32 B1"
  shows "length cs' = length cs"
    and "2 ^ 32 * (wval (cs' @ [ucast A2]) + radix (Suc (length cs)) * (unat A2 div 2 ^ 32)) =
      wval (c # cs) + unat a * wval (b # bs) + unat d0 * wval (m # ms)"
proof -
  have vA: "unat A = unat a * unat b + unat c"
    using mont_acc [of A 0 a b c] A by simp
  have vB: "unat B = unat d0 * unat m + unat A mod 2 ^ 32" and B0: "unat B mod 2 ^ 32 = 0"
    using mont_d0 [OF n0, of B A] B unfolding d0 by simp_all
  note L = mont_loop_val [OF lens loop]
  show len: "length cs' = length cs" using L by simp
  have "unat A1 div 2 ^ 32 < 2 ^ 32" "unat B1 div 2 ^ 32 < 2 ^ 32"
    using unat_u64 [of A1] unat_u64 [of B1] by (simp_all add: less_mult_imp_div_less)
  then have vA2: "unat A2 = unat A1 div 2 ^ 32 + unat B1 div 2 ^ 32"
    unfolding A2 by (simp add: unat_word_ariths unat_drop_bit_eq drop_bit_eq_div [of 32 "unat A1"]
        drop_bit_eq_div [of 32 "unat B1"])
  have "wval (cs' @ [ucast A2]) + radix (Suc (length cs)) * (unat A2 div 2 ^ 32) =
      wval cs' + radix (length cs) * (unat A2 mod 2 ^ 32 + 2 ^ 32 * (unat A2 div 2 ^ 32))"
    by (simp only: wval_append len unat_low radix_Suc wval.simps mult_0_right add_0_right
        distrib_left mult.assoc mult.left_commute add.assoc)
  also have "\<dots> = wval cs' + radix (length cs) * (unat A1 div 2 ^ 32 + unat B1 div 2 ^ 32)"
    by (simp only: div_mod_32 vA2)
  also have "\<dots> = unat A div 2 ^ 32 + unat B div 2 ^ 32 + unat a * wval bs + wval cs +
      unat d0 * wval ms"
    using L by simp
  finally have "2 ^ 32 * (wval (cs' @ [ucast A2]) + radix (Suc (length cs)) * (unat A2 div 2 ^ 32)) =
      2 ^ 32 * (unat A div 2 ^ 32) + (unat B mod 2 ^ 32 + 2 ^ 32 * (unat B div 2 ^ 32)) +
      2 ^ 32 * (unat a * wval bs + wval cs + unat d0 * wval ms)"
    by (simp only: B0) (simp add: algebra_simps)
  also have "\<dots> = unat d0 * unat m + (unat A mod 2 ^ 32 + 2 ^ 32 * (unat A div 2 ^ 32)) +
      2 ^ 32 * (unat a * wval bs + wval cs + unat d0 * wval ms)"
    by (simp only: div_mod_32 vB add.assoc add.commute add.left_commute)
  also have "\<dots> = wval (c # cs) + unat a * wval (b # bs) + unat d0 * wval (m # ms)"
    by (simp only: div_mod_32 vA wval.simps) (simp add: algebra_simps)
  finally show "2 ^ 32 * (wval (cs' @ [ucast A2]) + radix (Suc (length cs)) * (unat A2 div 2 ^ 32)) =
      wval (c # cs) + unat a * wval (b # bs) + unat d0 * wval (m # ms)" .
qed

text \<open>
  The key the code expects: an odd modulus whose top bit is set, the inverse of its lowest word and
  the square of the radix.
\<close>

definition modulus :: "RSAPublicKey \<Rightarrow> nat" where
  "modulus key = wval (n_words key)"

definition valid_key :: "RSAPublicKey \<Rightarrow> bool" where
  "valid_key key \<longleftrightarrow>
     0 < len key \<and> length (n_words key) = nwords key \<and> length (rr key) = nwords key \<and>
     n0inv key * n_words key ! 0 = - 1 \<and>
     radix (nwords key) \<le> 2 * modulus key \<and>
     wval (rr key) mod modulus key = (radix (nwords key))\<^sup>2 mod modulus key"

lemma length_subM [simp]:
  "length (n_words key) = nwords key \<Longrightarrow> length (subM key a) = length a"
  by (simp add: subM_def length_subM_loop)

lemma subM_val:
  assumes "length a = nwords key" and "length (n_words key) = nwords key"
  shows "int (wval (subM key a)) = (int (wval a) - int (modulus key)) mod int (radix (nwords key))"
  using subM_loop_val [of a "n_words key" 0] assms by (simp add: subM_def modulus_def)

lemma geM_val:
  assumes "length a = nwords key" and "length (n_words key) = nwords key"
  shows "geM key a \<longleftrightarrow> modulus key \<le> wval a"
  using geM_loop_val [of "rev a" "rev (n_words key)"] assms by (simp add: geM_def modulus_def)

lemma carry_bound:
  "x \<le> 4294967295 * r \<Longrightarrow> y \<le> 4294967295 * n \<Longrightarrow> 0 < n \<Longrightarrow> z < r \<Longrightarrow>
     z + x + y < 4294967296 * (r + n)" for x y z r n :: nat
  by simp

lemma montMulAdd_val:
  assumes key: "valid_key key" and lens: "length c = nwords key" "length b = nwords key"
  shows "length (montMulAdd key c a b) = nwords key \<and>
    2 ^ 32 * wval (montMulAdd key c a b) mod modulus key = (wval c + unat a * wval b) mod modulus key"
proof -
  let ?k = "nwords key" and ?N = "modulus key" and ?c' = "montMulAdd key c a b"
  have n: "length (n_words key) = ?k" "n0inv key * n_words key ! 0 = - 1" "0 < ?k"
    "radix ?k \<le> 2 * ?N"
    using key by (simp_all add: valid_key_def nwords_def)
  obtain c0 cs b0 bs m ms where split: "c = c0 # cs" "b = b0 # bs" "n_words key = m # ms"
    using lens n(1,3) by (metis length_greater_0_conv neq_Nil_conv)
  then have ls: "length cs = length bs" "length bs = length ms" "?k = Suc (length cs)"
    using lens n(1) by simp_all
  define A where "A = ucast a * ucast b0 + (ucast c0 :: u64)"
  define d0 where "d0 = ucast A * n0inv key"
  define B where "B = ucast d0 * ucast m + (ucast (ucast A :: u32) :: u64)"
  obtain cs' A1 B1 where loop: "mont_loop a d0 A B cs bs ms = (cs', A1, B1)"
    by (metis prod_cases3)
  define A2 where "A2 = drop_bit 32 A1 + drop_bit 32 B1"
  let ?c1 = "cs' @ [ucast A2]" and ?h = "unat A2 div 2 ^ 32"
  have c': "?c' = (if drop_bit 32 A2 \<noteq> 0 then subM key ?c1 else ?c1)"
    using loop ls by (simp add: montMulAdd_def split A_def [symmetric] d0_def [symmetric]
        B_def [symmetric] A2_def [symmetric])
  have n0: "n0inv key * m = - 1" using n(2) by (simp add: split)
  note sum = mont_sum [OF ls(1,2) n0 A_def d0_def B_def loop A2_def]
  have len1: "length ?c1 = ?k" using sum(1) ls(3) by simp
  have sum2: "2 ^ 32 * (wval ?c1 + radix ?k * ?h) = wval c + unat a * wval b + unat d0 * ?N"
    using sum(2) by (simp only: split ls(3) modulus_def)
  have carry: "drop_bit 32 A2 \<noteq> 0 \<longleftrightarrow> ?h \<noteq> 0"
    by (simp add: unat_drop_bit_eq drop_bit_eq_div [of 32 "unat A2"] flip: unat_eq_0 [of "drop_bit 32 A2"])
  have len': "length ?c' = ?k" using len1 n(1) by (simp add: c')
  have "\<exists>q. 2 ^ 32 * wval ?c' + 2 ^ 32 * (q * ?N) = 2 ^ 32 * (wval ?c1 + radix ?k * ?h)"
  proof (cases "?h = 0")
    case True
    then show ?thesis using carry by (intro exI [of _ 0]) (simp add: c')
  next
    case False
    have "unat a * wval b \<le> 4294967295 * radix ?k" "unat d0 * ?N \<le> 4294967295 * ?N"
      using unat_u32 [of a] unat_u32 [of d0] wval_less [of b] lens by (auto intro!: mult_le_mono)
    moreover have "0 < ?N" using n(4) radix_pos [of ?k] by linarith
    moreover have "wval c < radix ?k" using wval_less [of c] lens by simp
    ultimately have "2 ^ 32 * (wval ?c1 + radix ?k * ?h) < 4294967296 * (radix ?k + ?N)"
      unfolding sum2 by (rule carry_bound)
    then have lt: "wval ?c1 + radix ?k * ?h < radix ?k + ?N" by simp
    have N: "?N < radix ?k" using wval_less [of "n_words key"] n(1) by (simp add: modulus_def)
    have "?h = 1"
    proof (rule ccontr)
      assume "?h \<noteq> 1"
      with False have "radix ?k * 2 \<le> radix ?k * ?h" by (intro mult_le_mono2) simp
      with lt N show False by linarith
    qed
    with lt have lt1: "wval ?c1 < ?N" by simp
    have "int (wval ?c') = (int (wval ?c1) - int ?N) mod int (radix ?k)"
      using subM_val [OF len1 n(1)] False carry by (simp add: c')
    also have "\<dots> = int (wval ?c1) - int ?N + int (radix ?k)"
      using lt1 N mod_pos_pos_trivial [of "int (wval ?c1) - int ?N + int (radix ?k)" "int (radix ?k)"]
      by simp
    finally have "wval ?c' + ?N = wval ?c1 + radix ?k * ?h" using \<open>?h = 1\<close> by simp
    then have "2 ^ 32 * (wval ?c' + 1 * ?N) = 2 ^ 32 * (wval ?c1 + radix ?k * ?h)"
      by (simp only: mult_1)
    then show ?thesis by (intro exI [of _ 1]) (simp only: distrib_left)
  qed
  then obtain q where "2 ^ 32 * wval ?c' + (2 ^ 32 * q) * ?N = wval c + unat a * wval b + unat d0 * ?N"
    using sum2 by (auto simp: mult.assoc)
  then have "(2 ^ 32 * wval ?c' + (2 ^ 32 * q) * ?N) mod ?N =
      (wval c + unat a * wval b + unat d0 * ?N) mod ?N" by (rule arg_cong)
  then have "2 ^ 32 * wval ?c' mod ?N = (wval c + unat a * wval b) mod ?N"
    by (simp only: mod_mult_self1 mod_mult_self2 mod_mult_self3 mod_mult_self4)
  with len' show ?thesis by simp
qed

lemma valid_key_pos: "valid_key key \<Longrightarrow> 0 < modulus key"
  using radix_pos [of "nwords key"] by (auto simp: valid_key_def simp del: radix_pos)

lemma valid_key_coprime:
  assumes "valid_key key"
  shows "coprime (2 ^ j) (modulus key)"
proof -
  let ?m = "n_words key ! 0"
  have "odd ?m"
  proof
    assume "even ?m"
    then have "even (n0inv key * ?m)" by simp
    moreover have "n0inv key * ?m = - 1" using assms by (simp add: valid_key_def)
    ultimately have "even (- 1 :: u32)" by (simp only:)
    then show False by simp
  qed
  moreover have "modulus key = unat ?m + 2 ^ 32 * wval (tl (n_words key))"
    using assms by (cases "n_words key") (simp_all add: valid_key_def nwords_def modulus_def)
  moreover have "odd (unat ?m)" if "odd ?m"
    using that bit_unsigned_iff [of ?m 0, where ?'a = nat] by (simp add: bit_0)
  ultimately have "odd (modulus key)" by simp
  then show ?thesis by simp
qed

lemma mod_mult_cong: "x mod m = y mod m \<Longrightarrow> k * x mod m = k * y mod m" for x y k m :: nat
  by (metis mod_mult_right_eq)

lemma montMul_val:
  assumes key: "valid_key key" and lens: "length a = nwords key" "length b = nwords key"
  shows "length (montMul key a b) = nwords key \<and>
    wval (montMul key a b) * radix (nwords key) mod modulus key = wval a * wval b mod modulus key"
proof -
  let ?N = "modulus key" and ?step = "\<lambda>c ai. montMulAdd key c ai b"
  have "length (foldl ?step c as) = nwords key \<and>
      wval (foldl ?step c as) * radix (length as) mod ?N = (wval c + wval as * wval b) mod ?N"
    if "length c = nwords key" for c as
    using that
  proof (induction as arbitrary: c)
    case (Cons x xs)
    let ?c1 = "montMulAdd key c x b"
    have step: "length ?c1 = nwords key"
      "2 ^ 32 * wval ?c1 mod ?N = (wval c + unat x * wval b) mod ?N"
      using montMulAdd_val [OF key Cons.prems lens(2)] by simp_all
    note IH = Cons.IH [OF step(1)]
    have "wval (foldl ?step ?c1 xs) * radix (length (x # xs)) mod ?N =
        2 ^ 32 * (wval (foldl ?step ?c1 xs) * radix (length xs)) mod ?N"
      by (simp add: radix_Suc ac_simps)
    also have "\<dots> = 2 ^ 32 * (wval ?c1 + wval xs * wval b) mod ?N"
      by (rule mod_mult_cong [OF conjunct2 [OF IH]])
    also have "\<dots> = (2 ^ 32 * wval ?c1 mod ?N + 2 ^ 32 * (wval xs * wval b)) mod ?N"
      by (simp only: distrib_left mod_add_left_eq)
    also have "\<dots> = (wval c + unat x * wval b + 2 ^ 32 * (wval xs * wval b)) mod ?N"
      by (simp only: step(2) mod_add_left_eq)
    also have "wval c + unat x * wval b + 2 ^ 32 * (wval xs * wval b) =
        wval c + wval (x # xs) * wval b"
      by (simp add: algebra_simps)
    finally show ?case using IH by simp
  qed simp
  from this [of "replicate (nwords key) 0" a] lens show ?thesis by (simp add: montMul_def)
qed

section \<open>The accumulators do not wrap\<close>

text \<open>
  The same arithmetic with accumulators that are numbers without a bound, each value of which is checked
  against the 64 bits of the type it has in the code; \<open>None\<close> is a value that does not fit. The words
  \<open>d0\<close>, \<open>a[i]\<close> and \<open>c[i]\<close> are cut to 32 bits by the casts of the code, as before.
\<close>

definition fits_u64 :: "nat \<Rightarrow> nat option" where
  "fits_u64 x = (if x < 2 ^ 64 then Some x else None)"

definition fits_i64 :: "int \<Rightarrow> int option" where
  "fits_i64 x = (if - (2 ^ 63) \<le> x \<and> x < 2 ^ 63 then Some x else None)"

text \<open>
  In \<open>subM\<close> the unsigned difference of two words wraps when it is negative, which is intended; the checked value is
  that of the signed accumulator.
\<close>

fun subM_loop_checked :: "int \<Rightarrow> u32 list \<Rightarrow> u32 list \<Rightarrow> u32 list option" where
  "subM_loop_checked acc (a # as) (m # ms) = do {
     acc1 \<leftarrow> fits_i64 (acc + (uint a - uint m));
     r \<leftarrow> subM_loop_checked (acc1 div 2 ^ 32) as ms;
     Some (word_of_int acc1 # r) }"
| "subM_loop_checked acc _ _ = Some []"

definition subM_checked :: "RSAPublicKey \<Rightarrow> u32 list \<Rightarrow> u32 list option" where
  "subM_checked key a = do {
     r \<leftarrow> subM_loop_checked 0 (take (nwords key) a) (take (nwords key) (n_words key));
     Some (r @ drop (nwords key) a) }"

fun mont_loop_checked ::
    "u32 \<Rightarrow> u32 \<Rightarrow> nat \<Rightarrow> nat \<Rightarrow> u32 list \<Rightarrow> u32 list \<Rightarrow> u32 list \<Rightarrow> (u32 list \<times> nat \<times> nat) option" where
  "mont_loop_checked a d0 A B (c # cs) (b # bs) (m # ms) = do {
     A1 \<leftarrow> fits_u64 (A div 2 ^ 32 + unat a * unat b + unat c);
     B1 \<leftarrow> fits_u64 (B div 2 ^ 32 + unat d0 * unat m + A1 mod 2 ^ 32);
     (cs', A', B') \<leftarrow> mont_loop_checked a d0 A1 B1 cs bs ms;
     Some (word_of_nat B1 # cs', A', B') }"
| "mont_loop_checked a d0 A B _ _ _ = Some ([], A, B)"

definition montMulAdd_checked :: "RSAPublicKey \<Rightarrow> u32 list \<Rightarrow> u32 \<Rightarrow> u32 list \<Rightarrow> u32 list option" where
  "montMulAdd_checked key c a b = do {
     A \<leftarrow> fits_u64 (unat a * unat (b ! 0) + unat (c ! 0));
     let d0 = word_of_nat A * n0inv key;
     B \<leftarrow> fits_u64 (unat d0 * unat (n_words key ! 0) + A mod 2 ^ 32);
     let k = nwords key;
     (cs, A1, B1) \<leftarrow> mont_loop_checked a d0 A B (tl (take k c)) (tl (take k b)) (tl (take k (n_words key)));
     A2 \<leftarrow> fits_u64 (A1 div 2 ^ 32 + B1 div 2 ^ 32);
     let c1 = cs @ [word_of_nat A2] @ drop k c;
     if A2 div 2 ^ 32 \<noteq> 0 then subM_checked key c1 else Some c1 }"

definition montMul_checked :: "RSAPublicKey \<Rightarrow> u32 list \<Rightarrow> u32 list \<Rightarrow> u32 list option" where
  "montMul_checked key a b =
     foldl (\<lambda>r ai. do { c \<leftarrow> r; montMulAdd_checked key c ai b }) (Some (replicate (nwords key) 0)) (take (nwords key) a)"

lemma subM_loop_checked: "sint acc \<in> {-1, 0} \<Longrightarrow> subM_loop_checked (sint acc) as ms = Some (subM_loop acc as ms)"
proof (induction acc as ms rule: subM_loop.induct)
  case (1 acc a as m ms)
  let ?v = "sint acc + (uint a - uint m)" and ?acc1 = "acc + (ucast a - ucast m)"
  note acc = subM_acc [OF 1(2) refl refl, of a m, unfolded add_diff_eq [symmetric]]
  have u: "0 \<le> uint a" "uint a < 2 ^ 32" "0 \<le> uint m" "uint m < 2 ^ 32"
    using unsigned_less [of a] unsigned_less [of m] by simp_all
  have s: "- 1 \<le> sint acc" "sint acc \<le> 0"
    using 1(2) by auto
  have big: "(2 :: int) ^ 32 < 2 ^ 63"
    by simp
  have "- (2 ^ 63) \<le> ?v" "?v < 2 ^ 63"
    using u s big by - linarith+
  then have fits: "fits_i64 ?v = Some ?v"
    by (simp add: fits_i64_def)
  have "(word_of_int ?v :: u32) = ucast ?acc1"
    by (rule word_uint_eqI) (simp only: acc(1) uint_word_of_int, simp)
  with 1(1) [OF refl acc(3)] show ?case
    by (simp add: fits acc(2) Let_def)
qed simp_all

lemma subM_checked: "subM_checked key a = Some (subM key a)"
  using subM_loop_checked [of 0] by (simp add: subM_checked_def subM_def)

lemma fits_accumulator: "unat (A :: u64) = x \<Longrightarrow> fits_u64 x = Some x"
  using unat_u64 [of A] by (simp add: fits_u64_def)

lemma low_word: "unat (A :: u64) = x \<Longrightarrow> word_of_nat x = (ucast A :: u32)"
  by auto

lemma mont_loop_checked:
  "mont_loop_checked a d0 (unat A) (unat B) cs bs ms =
     (case mont_loop a d0 A B cs bs ms of (cs', A', B') \<Rightarrow> Some (cs', unat A', unat B'))"
proof (induction a d0 A B cs bs ms rule: mont_loop.induct)
  case (1 a d0 A B c cs b bs m ms)
  define A1 where "A1 = drop_bit 32 A + ucast a * ucast b + ucast c"
  define B1 where "B1 = drop_bit 32 B + ucast d0 * ucast m + ucast (ucast A1 :: u32)"
  have A1: "unat A1 = unat A div 2 ^ 32 + unat a * unat b + unat c"
    by (rule mont_acc [OF A1_def])
  have B1: "unat B1 = unat B div 2 ^ 32 + unat d0 * unat m + unat A1 mod 2 ^ 32"
    using mont_acc [OF B1_def] by (simp only: unat_low)
  have IH: "mont_loop_checked a d0 (unat A1) (unat B1) cs bs ms =
      (case mont_loop a d0 A1 B1 cs bs ms of (cs', A', B') \<Rightarrow> Some (cs', unat A', unat B'))"
    by (rule 1) (simp_all only: A1_def B1_def)
  show ?case
    by (simp only: mont_loop_checked.simps mont_loop.simps A1 [symmetric] B1 [symmetric] fits_accumulator [OF refl] bind.bind_lunit
        low_word [OF refl] IH A1_def [symmetric] B1_def [symmetric] Let_def)
      (simp add: IH split: prod.split)
qed simp_all

lemma montMulAdd_checked: "montMulAdd_checked key c a b = Some (montMulAdd key c a b)"
proof -
  define A where "A = (ucast a * ucast (b ! 0) + ucast (c ! 0) :: u64)"
  define d0 where "d0 = ucast A * n0inv key"
  define B where "B = (ucast d0 * ucast (n_words key ! 0) + ucast (ucast A :: u32) :: u64)"
  have A: "unat A = unat a * unat (b ! 0) + unat (c ! 0)"
    using mont_acc [of A 0 a "b ! 0" "c ! 0"] by (simp add: A_def)
  have B: "unat B = unat d0 * unat (n_words key ! 0) + unat A mod 2 ^ 32"
    using mont_acc [of B 0 d0 "n_words key ! 0" "ucast A"] by (simp only: B_def unat_low) simp
  obtain cs A1 B1 where loop:
      "mont_loop a d0 A B (tl (take (nwords key) c)) (tl (take (nwords key) b)) (tl (take (nwords key) (n_words key))) = (cs, A1, B1)"
    by (metis prod_cases3)
  define A2 where "A2 = drop_bit 32 A1 + drop_bit 32 B1"
  have "unat A1 div 2 ^ 32 < 2 ^ 32" "unat B1 div 2 ^ 32 < 2 ^ 32"
    using unat_u64 [of A1] unat_u64 [of B1] by simp_all
  then have A2: "unat A2 = unat A1 div 2 ^ 32 + unat B1 div 2 ^ 32"
    by (simp add: A2_def unat_word_ariths unat_drop_bit_eq drop_bit_eq_div)
  have carry: "(unat A2 div 2 ^ 32 \<noteq> 0) = (drop_bit 32 A2 \<noteq> 0)"
    by (metis drop_bit_eq_div unat_drop_bit_eq unat_eq_0)
  show ?thesis
    unfolding montMulAdd_checked_def montMulAdd_def
    by (simp only: A [symmetric] fits_accumulator [OF refl] bind.bind_lunit low_word [OF refl] Let_def A_def [symmetric] d0_def [symmetric]
        B [symmetric] B_def [symmetric] mont_loop_checked loop prod.case A2 [symmetric] A2_def [symmetric] carry subM_checked if_distrib [of Some])
qed

lemma montMul_checked: "montMul_checked key a b = Some (montMul key a b)"
proof -
  have "foldl (\<lambda>r ai. do { c \<leftarrow> r; montMulAdd_checked key c ai b }) (Some c) as =
      Some (foldl (\<lambda>c ai. montMulAdd key c ai b) c as)" for c as
    by (induction as arbitrary: c) (simp_all add: montMulAdd_checked)
  then show ?thesis
    by (simp add: montMul_checked_def montMul_def)
qed

section \<open>Cubing\<close>

text \<open>
  The interface of a Montgomery multiplication: a product divided by the radix, modulo \<open>N\<close>. The
  contract is all that the exponentiation uses.
\<close>

locale montgomery =
  fixes mul :: "'a \<Rightarrow> 'a \<Rightarrow> 'a" and val :: "'a \<Rightarrow> nat" and good :: "'a \<Rightarrow> bool"
    and R :: nat and N :: nat
  assumes good_mul: "good a \<Longrightarrow> good b \<Longrightarrow> good (mul a b)"
    and mul_val: "good a \<Longrightarrow> good b \<Longrightarrow> val (mul a b) * R mod N = val a * val b mod N"
    and coprime_R: "good a \<Longrightarrow> coprime R N"
begin

lemma cancel_R:
  assumes "good a" and "x * R mod N = y * R mod N"
  shows "x mod N = y mod N"
proof -
  have "int N dvd (int x - int y) * int R"
  proof -
    have "int (x * R) mod int N = int (y * R) mod int N"
      using assms(2) by (simp only: of_nat_mod [symmetric])
    then show ?thesis by (simp add: mod_eq_dvd_iff left_diff_distrib)
  qed
  moreover have "coprime (int N) (int R)"
    using coprime_R [OF assms(1)] by (simp add: coprime_commute)
  ultimately have "int N dvd int x - int y" by (simp add: coprime_dvd_mult_left_iff)
  then show ?thesis by (metis mod_eq_dvd_iff of_nat_eq_iff of_nat_mod)
qed

lemma to_montgomery:
  assumes "good a" and "good r" and "val r mod N = R\<^sup>2 mod N"
  shows "val (mul a r) mod N = val a * R mod N"
proof (rule cancel_R [OF assms(1)])
  have "val (mul a r) * R mod N = val a * (val r mod N) mod N"
    using mul_val [OF assms(1,2)] by (simp only: mod_mult_right_eq)
  also have "\<dots> = val a * R * R mod N"
    by (simp only: assms(3) mod_mult_right_eq power2_eq_square mult.assoc)
  finally show "val (mul a r) * R mod N = val a * R * R mod N" .
qed

lemma mul_mod:
  assumes "good a" and "good b" and "val a mod N = x * R mod N" and "val b mod N = y mod N"
  shows "val (mul a b) mod N = x * y mod N"
proof (rule cancel_R [OF assms(1)])
  have "val (mul a b) * R mod N = (val a mod N) * (val b mod N) mod N"
    using mul_val [OF assms(1,2)] by (simp only: mod_mult_eq)
  also have "\<dots> = x * y * R mod N"
    by (simp only: assms(3,4) mod_mult_eq ac_simps)
  finally show "val (mul a b) * R mod N = x * y * R mod N" .
qed

lemma cube:
  assumes "good a" and "good r" and "val r mod N = R\<^sup>2 mod N"
  defines "aR \<equiv> mul a r"
  shows "val (mul (mul aR aR) a) mod N = (val a) ^ 3 mod N"
proof -
  have aR: "good aR" "val aR mod N = val a * R mod N"
    using assms(1-3) by (simp_all add: aR_def good_mul to_montgomery)
  have "val (mul aR aR) mod N = val a * (val a * R) mod N"
    using aR by (intro mul_mod) simp_all
  then have "val (mul aR aR) mod N = (val a * val a) * R mod N" by (simp only: mult.assoc)
  then have "val (mul (mul aR aR) a) mod N = (val a * val a) * val a mod N"
    using aR(1) assms(1) mul_mod [of "mul aR aR" a "val a * val a" "val a"]
    by (simp add: good_mul)
  then show ?thesis by (simp add: power3_eq_cube)
qed

end

interpretation mont: montgomery "montMul key" wval
    "\<lambda>a. valid_key key \<and> length a = nwords key" "radix (nwords key)" "modulus key" for key
  using montMul_val [of key] valid_key_coprime [of key "32 * nwords key"]
  by unfold_locales (simp_all add: radix_def [of "nwords key"])

section \<open>Byte strings\<close>

text \<open>The number a byte string stands for, most significant byte first.\<close>

definition be_val :: "byte list \<Rightarrow> nat" where
  "be_val = foldl (\<lambda>v b. 256 * v + unat b) 0"

lemma be_val_foldl: "foldl (\<lambda>v b. 256 * v + unat b) v bs = 256 ^ length bs * v + be_val bs"
proof (induction bs arbitrary: v)
  case (Cons b bs)
  show ?case
    using Cons.IH [of "256 * v + unat b"] Cons.IH [of "unat b"]
    by (simp add: be_val_def algebra_simps)
qed (simp add: be_val_def)

lemma be_val_Nil [simp]: "be_val [] = 0"
  by (simp add: be_val_def)

lemma be_val_append: "be_val (xs @ ys) = 256 ^ length ys * be_val xs + be_val ys"
  using be_val_foldl [of "be_val xs" ys] by (simp add: be_val_def)

lemma be_val_less: "be_val bs < 256 ^ length bs"
proof (induction bs rule: rev_induct)
  case (snoc b bs)
  have "unat b < 256" using unsigned_less [of b] by simp
  with snoc show ?case by (simp add: be_val_append be_val_def)
qed simp

lemma be_val_inj: "length xs = length ys \<Longrightarrow> be_val xs = be_val ys \<Longrightarrow> xs = ys"
proof (induction xs arbitrary: ys rule: rev_induct)
  case (snoc x xs)
  then obtain y zs where ys: "ys = zs @ [y]" "length zs = length xs"
    by (metis length_append_singleton length_greater_0_conv rev_exhaust zero_less_Suc append_is_Nil_conv
        length_0_conv nat.inject)
  have xy: "unat x < 256" "unat y < 256" using unsigned_less [of x] unsigned_less [of y] by simp_all
  have eq: "256 * be_val xs + unat x = 256 * be_val zs + unat y"
    using snoc.prems ys by (simp add: be_val_append be_val_def)
  then have "(256 * be_val xs + unat x) mod 256 = (256 * be_val zs + unat y) mod 256" by (rule arg_cong)
  with xy have "unat x = unat y" by simp
  then have "x = y" by (rule unsigned_word_eqI)
  with eq snoc.IH [of zs] ys show ?case by simp
qed simp

lemma be_val_be32_bytes: "be_val (be32_bytes w) = unat w"
proof -
  let ?x = "unat w"
  have join: "256 * (y div 256) + y mod 256 = y" for y :: nat by simp
  have "be_val (be32_bytes w) = 256 * (256 * (256 * (?x div 2 ^ 24 mod 256) +
      ?x div 2 ^ 16 mod 256) + ?x div 2 ^ 8 mod 256) + ?x mod 256"
    by (simp add: be_val_def be32_bytes_def unsigned_ucast_eq take_bit_eq_mod unat_drop_bit_eq
        drop_bit_eq_div [of _ "unat w"])
  also have "?x div 2 ^ 24 mod 256 = ?x div 2 ^ 24"
    using unat_u32 [of w] by (intro mod_less) (simp add: div_less_iff_less_mult)
  also have "?x div 2 ^ 24 = ?x div 2 ^ 16 div 256" by (simp add: div_mult2_eq [symmetric])
  also have "256 * (?x div 2 ^ 16 div 256) + ?x div 2 ^ 16 mod 256 = ?x div 2 ^ 16" by (rule join)
  also have "?x div 2 ^ 16 = ?x div 2 ^ 8 div 256" by (simp add: div_mult2_eq [symmetric])
  also have "256 * (?x div 2 ^ 8 div 256) + ?x div 2 ^ 8 mod 256 = ?x div 2 ^ 8" by (rule join)
  also have "?x div 2 ^ 8 = ?x div 256" by simp
  also have "256 * (?x div 256) + ?x mod 256 = ?x" by (rule join)
  finally show ?thesis .
qed

lemma be_val_store_words: "be_val (store_words ws) = wval ws"
  by (induction ws) (simp_all add: store_words_def be_val_append be_val_be32_bytes)

lemma length_store_words [simp]: "length (store_words ws) = 4 * length ws"
  by (induction ws) (simp_all add: store_words_def)

lemma length_load_words [simp]: "length (load_words k bs) = k"
  by (simp add: load_words_def)

lemma rev_load_words:
  assumes "length bs = 4 * k"
  shows "store_words (load_words k bs) = bs"
  using assms
proof (induction k arbitrary: bs)
  case (Suc k)
  then obtain a b c d xs where bs: "bs = a # b # c # d # xs" "length xs = 4 * k"
    by (auto simp: length_Suc_conv numeral_eq_Suc)
  have "load_words (Suc k) bs = load_words k xs @ [be32 [a, b, c, d]]"
  proof -
    have "be32 (take 4 (drop ((Suc k - 1 - i) * 4) bs)) = be32 (take 4 (drop ((k - 1 - i) * 4) xs))"
      if "i < k" for i
    proof -
      have "(Suc k - 1 - i) * 4 = 4 + (k - 1 - i) * 4" using that by simp
      moreover have "drop (4 + j) bs = drop j xs" for j
        by (simp only: bs(1) add.commute [of 4] drop_drop [of j 4, symmetric]) simp
      ultimately show ?thesis by (simp only:)
    qed
    then show ?thesis by (simp add: load_words_def bs(1) del: drop_Cons_numeral)
  qed
  then show ?case
    using Suc.IH [OF bs(2)] bs(1) by (simp add: store_words_def be32_bytes_be32)
qed (simp add: store_words_def load_words_def)

lemma wval_load_words: "length bs = 4 * k \<Longrightarrow> wval (load_words k bs) = be_val bs"
  using be_val_store_words [of "load_words k bs"] by (simp add: rev_load_words)

section \<open>Cubes and signatures\<close>

lemma modpow3_val:
  assumes key: "valid_key key" and bs: "length bs = 4 * nwords key"
  shows "length (modpow3 key bs) = 4 * nwords key \<and>
    be_val (modpow3 key bs) = be_val bs ^ 3 mod modulus key"
proof -
  let ?k = "nwords key" and ?N = "modulus key"
  define a where "a = load_words ?k bs"
  define aR where "aR = montMul key a (rr key)"
  define aaa where "aaa = montMul key (montMul key aR aR) a"
  define fin where "fin = (if geM key aaa then subM key aaa else aaa)"
  have n: "length (n_words key) = ?k" "length (rr key) = ?k" "radix ?k \<le> 2 * ?N"
    "wval (rr key) mod ?N = (radix ?k)\<^sup>2 mod ?N"
    using key by (simp_all add: valid_key_def)
  have a: "length a = ?k" "wval a = be_val bs"
    using bs by (simp_all add: a_def wval_load_words)
  have len: "length aR = ?k" "length aaa = ?k"
    using key a(1) n(2) by (simp_all add: aR_def aaa_def montMul_val)
  have cube: "wval aaa mod ?N = be_val bs ^ 3 mod ?N"
    using mont.cube [of key a "rr key"] key a n(2,4) by (simp add: aaa_def aR_def)
  have fin: "length fin = ?k \<and> wval fin = wval aaa mod ?N"
  proof (cases "geM key aaa")
    case True
    then have ge: "?N \<le> wval aaa" using geM_val [OF len(2) n(1)] by simp
    have less: "wval aaa < radix ?k" using wval_less [of aaa] len(2) by simp
    then have "wval aaa - ?N < ?N" using n(3) ge by linarith
    then have "wval aaa mod ?N = wval aaa - ?N" using ge by (simp add: le_mod_geq)
    moreover have "int (wval (subM key aaa)) = int (wval aaa) - int ?N"
      using subM_val [OF len(2) n(1)] ge less by simp
    ultimately show ?thesis using True ge n(1) len(2) by (simp add: fin_def)
  next
    case False
    then have "wval aaa < ?N" using geM_val [OF len(2) n(1)] by simp
    with False len(2) show ?thesis by (simp add: fin_def)
  qed
  have "modpow3 key bs = store_words fin"
    using bs by (simp add: modpow3_def a_def aR_def aaa_def fin_def Let_def)
  with fin cube show ?thesis by (simp add: be_val_store_words)
qed

lemma bytes_match_append:
  "bytes_match xs ys \<longleftrightarrow> take (min (length xs) (length ys)) xs = take (min (length xs) (length ys)) ys"
  by (induction xs ys rule: bytes_match.induct) auto

lemma length_padding [simp]: "length padding = 236"
  by (simp add: padding_def)

text \<open>The comparison loops of \<open>RSA_verify\<close> compare the whole buffer.\<close>

lemma bytes_match_both:
  assumes "length bs = length xs + length ys"
  shows "bytes_match bs xs \<and> bytes_match (drop (length xs) bs) ys \<longleftrightarrow> bs = xs @ ys"
proof -
  have "bytes_match bs xs \<longleftrightarrow> take (length xs) bs = xs"
    "bytes_match (drop (length xs) bs) ys \<longleftrightarrow> drop (length xs) bs = ys"
    using assms by (simp_all add: bytes_match_append)
  moreover have "bs = xs @ ys \<longleftrightarrow> take (length xs) bs = xs \<and> drop (length xs) bs = ys"
    by (metis append_eq_conv_conj)
  ultimately show ?thesis by blast
qed

lemma RSA_verify_val:
  assumes key: "valid_key key" and lens: "length sig = 256" "length sha = 20"
  shows "RSA_verify key sig l sha =
    (if len key = 64 \<and> l = 256 \<and> be_val sig ^ 3 mod modulus key = be_val (padding @ sha)
     then 1 else 0)"
proof (cases "len key = 64 \<and> l = 256")
  case True
  then have k: "nwords key = 64" by (simp add: nwords_def)
  let ?buf = "modpow3 key sig"
  have buf: "length ?buf = 256" "be_val ?buf = be_val sig ^ 3 mod modulus key"
    using modpow3_val [OF key, of sig] lens k by simp_all
  have "bytes_match ?buf padding \<and> bytes_match (drop (length padding) ?buf) sha \<longleftrightarrow>
      ?buf = padding @ sha"
    using buf(1) lens by (intro bytes_match_both) simp
  also have "\<dots> \<longleftrightarrow> be_val ?buf = be_val (padding @ sha)"
    using be_val_inj [of ?buf "padding @ sha"] buf(1) lens by auto
  finally show ?thesis
    using True lens buf(2) by (auto simp: RSA_verify_def RSANUMWORDS_def RSANUMBYTES_def Let_def)
next
  case False
  then show ?thesis by (auto simp: RSA_verify_def RSANUMWORDS_def RSANUMBYTES_def)
qed

section \<open>A key for the witnesses\<close>

text \<open>
  With the signature \<open>s = 3 * 2 ^ 681\<close>, a modulus \<open>s ^ 3 - m\<close> makes \<open>m\<close> the cube of \<open>s\<close>; the digest
  in \<open>m\<close> is chosen so that the lowest word of the modulus is \<open>- 1\<close>.
\<close>

fun words_of :: "nat \<Rightarrow> nat \<Rightarrow> u32 list" where
  "words_of 0 x = []"
| "words_of (Suc k) x = word_of_nat x # words_of k (x div 2 ^ 32)"

lemma length_words_of [simp]: "length (words_of k x) = k"
  by (induction k arbitrary: x) simp_all

lemma wval_words_of: "wval (words_of k x) = x mod radix k"
proof (induction k arbitrary: x)
  case (Suc k)
  have "wval (words_of (Suc k) x) = x mod 2 ^ 32 + 2 ^ 32 * (x div 2 ^ 32 mod radix k)"
    by (simp add: Suc.IH unsigned_of_nat take_bit_eq_mod)
  also have "\<dots> = x mod (2 ^ 32 * radix k)"
    by (simp only: mod_mult2_eq add.commute)
  finally show ?case by (simp only: radix_Suc)
qed simp

definition sample_sha :: "byte list" where
  "sample_sha = replicate 19 0 @ [1]"

definition sample_modulus :: nat where
  "sample_modulus = (3 * 2 ^ 681) ^ 3 - be_val (padding @ sample_sha)"

definition sample_key :: RSAPublicKey where
  "sample_key = \<lparr>len = 64, n0inv = 1, n_words = words_of 64 sample_modulus,
     rr = words_of 64 ((radix 64)\<^sup>2 mod sample_modulus)\<rparr>"

definition sample_signature :: "byte list" where
  "sample_signature = store_words (words_of 64 (3 * 2 ^ 681))"

lemma be_val_replicate_0 [simp]: "be_val (replicate k 0) = 0"
  by (induction k) (simp_all add: be_val_append replicate_append_same [symmetric] be_val_def)

lemma sample_digest: "be_val (padding @ sample_sha) = 256 ^ 20 * be_val padding + 1"
  by (simp add: be_val_append sample_sha_def) (simp add: be_val_def)

lemma be_val_padding: "be_val padding < 2 ^ 1873"
proof -
  have "padding = [0, 1] @ drop 2 padding" by (simp add: padding_def)
  then have "be_val padding = 256 ^ 234 + be_val (drop 2 padding)"
    using be_val_append [of "[0, 1]" "drop 2 padding"] by (simp add: be_val_def)
  also have "\<dots> < 256 ^ 234 + 256 ^ 234"
    using be_val_less [of "drop 2 padding"] by simp
  finally show ?thesis by simp
qed

lemma sample_bounds:
  "be_val (padding @ sample_sha) < 2 ^ 2034" "2 ^ 2047 \<le> sample_modulus" "sample_modulus < 2 ^ 2048"
proof -
  show m: "be_val (padding @ sample_sha) < 2 ^ 2034"
    using be_val_padding by (simp add: sample_digest)
  then show "2 ^ 2047 \<le> sample_modulus" "sample_modulus < 2 ^ 2048"
    by (simp_all add: sample_modulus_def)
qed

lemma radix_64: "radix 64 = 2 ^ 2048"
  by (simp only: radix_def) simp

lemma sample_low: "(word_of_nat sample_modulus :: u32) = - 1"
proof -
  let ?p = "be_val padding"
  have "256 ^ 20 * ?p + 1 \<le> (3 * 2 ^ 681) ^ 3"
    using sample_bounds(1) unfolding sample_digest by simp
  then have "sample_modulus + 1 = (3 * 2 ^ 681) ^ 3 - 256 ^ 20 * ?p"
    unfolding sample_modulus_def sample_digest by simp
  also have "(2 :: nat) ^ 32 dvd \<dots>"
    by (intro dvd_diff_nat dvd_mult2) simp_all
  finally have "(word_of_nat (sample_modulus + 1) :: u32) = 0"
    by (simp only: word_of_nat_eq_0_iff) simp
  then have "word_of_nat sample_modulus + (1 :: u32) = 0" by (simp only: of_nat_add of_nat_1)
  then show ?thesis by (simp only: eq_neg_iff_add_eq_0)
qed

lemma nwords_sample: "nwords sample_key = 64"
  by (simp add: nwords_def sample_key_def)

lemma nth_words_of: "0 < k \<Longrightarrow> words_of k x ! 0 = word_of_nat x"
  by (cases k) simp_all

lemma modulus_sample: "modulus sample_key = sample_modulus"
  using sample_bounds by (simp add: modulus_def sample_key_def wval_words_of radix_64)

lemma valid_sample_key: "valid_key sample_key"
proof -
  have first: "n_words sample_key ! 0 = word_of_nat sample_modulus"
    by (simp add: sample_key_def nth_words_of)
  have "(radix 64)\<^sup>2 mod sample_modulus < radix 64"
    unfolding radix_64
    by (rule less_trans [OF mod_less_divisor sample_bounds(3)])
      (rule less_le_trans [OF _ sample_bounds(2)], simp)
  then have "wval (rr sample_key) = (radix 64)\<^sup>2 mod sample_modulus"
    by (simp add: sample_key_def wval_words_of)
  then show ?thesis
    using sample_bounds(2) sample_low
    by (simp add: valid_key_def modulus_sample first) (simp add: sample_key_def nwords_def radix_64)
qed

lemma sample_signature:
  "length sample_signature = 256"
  "be_val sample_signature ^ 3 mod sample_modulus = be_val (padding @ sample_sha)"
proof -
  show "length sample_signature = 256" by (simp add: sample_signature_def)
  have "be_val sample_signature = 3 * 2 ^ 681"
    by (simp only: sample_signature_def be_val_store_words wval_words_of radix_64) simp
  moreover have "(3 * 2 ^ 681) ^ 3 = be_val (padding @ sample_sha) + sample_modulus"
    using sample_bounds(1) by (simp add: sample_modulus_def)
  ultimately have "be_val sample_signature ^ 3 mod sample_modulus =
      (be_val (padding @ sample_sha) + sample_modulus) mod sample_modulus" by (simp only:)
  also have "\<dots> = be_val (padding @ sample_sha)"
    using sample_bounds(1,2) by simp
  finally show "be_val sample_signature ^ 3 mod sample_modulus = be_val (padding @ sample_sha)" .
qed

lemma length_sample_sha: "length sample_sha = 20"
  by (simp add: sample_sha_def)

section \<open>Properties\<close>

text \<open>
  C11: With a valid key, \<open>RSA_verify\<close> accepts exactly the signatures of 256 bytes whose cube
  modulo the modulus of 2048 bits is the PKCS1.5 padding followed by the digest.
\<close>

theorem RSA_verify_accepts:
  assumes "valid_key key" and "length sig = 256" and "length sha = 20"
  shows "RSA_verify key sig l sha =
    (if len key = 64 \<and> l = 256 \<and> be_val sig ^ 3 mod modulus key = be_val (padding @ sha)
     then 1 else 0)"
  using assms by (rule RSA_verify_val)

theorem RSA_verify_accepts_witness:
  "RSA_verify sample_key sample_signature 256 sample_sha = 1 \<and>
   RSA_verify sample_key sample_signature 255 sample_sha = 0"
  using RSA_verify_accepts [OF valid_sample_key sample_signature(1) length_sample_sha]
  by (simp add: modulus_sample sample_signature(2)) (simp add: sample_key_def)

text \<open>
  C12: None of the 64-bit accumulators of \<open>montMul\<close> wraps around: the run in which each of their values is
  checked against 64 bits succeeds, with the same result. That result again fits the \<open>len\<close> words, although it is
  reduced only when a step carries, and is the product divided by the radix \<open>R = 2 ^ (32 * len)\<close>, modulo the modulus.
\<close>

theorem montMul_correct:
  assumes "valid_key key" and "length a = nwords key" and "length b = nwords key"
  shows "montMul_checked key a b = Some (montMul key a b) \<and> length (montMul key a b) = nwords key \<and>
    wval (montMul key a b) * radix (nwords key) mod modulus key = wval a * wval b mod modulus key"
  using montMul_checked montMul_val [OF assms] by blast

theorem montMul_correct_witness:
  "wval (montMul sample_key (rr sample_key) (rr sample_key)) * radix 64 mod sample_modulus =
     wval (rr sample_key) * wval (rr sample_key) mod sample_modulus"
  using montMul_correct [OF valid_sample_key, of "rr sample_key" "rr sample_key"]
  by (simp add: modulus_sample nwords_sample sample_key_def [THEN arg_cong [of _ _ "\<lambda>k. length (rr k)"]])

text \<open>
  \<open>modpow3\<close> replaces a big-endian number by its cube modulo the modulus, fully reduced by the
  one conditional subtraction at the end.
\<close>

theorem modpow3_cubes:
  assumes "valid_key key" and "length inout = 4 * nwords key"
  shows "length (modpow3 key inout) = 4 * nwords key \<and>
    be_val (modpow3 key inout) = be_val inout ^ 3 mod modulus key"
  using assms by (rule modpow3_val)

theorem modpow3_cubes_witness:
  "be_val (modpow3 sample_key sample_signature) = be_val (padding @ sample_sha)"
  using modpow3_cubes [OF valid_sample_key, of sample_signature] sample_signature
  by (simp add: modulus_sample nwords_sample)

text \<open>
  The check does not ask for a signature below the modulus: adding the modulus to a signature
  does not change its verdict.
\<close>

theorem RSA_verify_unreduced:
  assumes "valid_key key" and "length sig = 256" and "length sig' = 256" and "length sha = 20"
    and "be_val sig' = be_val sig + modulus key"
  shows "RSA_verify key sig' l sha = RSA_verify key sig l sha"
  using assms power_mod [of "be_val sig + modulus key" "modulus key" 3]
    power_mod [of "be_val sig" "modulus key" 3]
  by (simp add: RSA_verify_val)

theorem RSA_verify_unreduced_witness:
  "RSA_verify sample_key (store_words (words_of 64 sample_modulus)) 256 sample_sha =
   RSA_verify sample_key (store_words (words_of 64 0)) 256 sample_sha"
  using sample_bounds(2,3)
  by (intro RSA_verify_unreduced valid_sample_key length_sample_sha)
    (simp_all add: modulus_sample be_val_store_words wval_words_of radix_64)

end
