(* ===== verification/Bootimg.thy ===== *)
theory Bootimg
  imports Sha Libc
begin

text \<open>
  Android boot images, \<open>cookbook/android-mkbootfs/source/mkbootimg\<close>: the header of \<open>bootimg.h\<close>, the
  writer \<open>mkbootimg.c\<close> and the reader \<open>unpackbootimg.c\<close>. The machine is little-endian, as the
  headers' users are.
\<close>

section \<open>The header\<close>

definition BOOT_MAGIC :: "byte list" where
  "BOOT_MAGIC = bytes_of ''ANDROID!''"

definition BOOT_NAME_SIZE :: nat where
  "BOOT_NAME_SIZE = 16"

definition BOOT_ARGS_SIZE :: nat where
  "BOOT_ARGS_SIZE = 512"

record boot_img_hdr =
  magic :: "byte list"
  kernel_size :: u32
  kernel_addr :: u32
  ramdisk_size :: u32
  ramdisk_addr :: u32
  second_size :: u32
  second_addr :: u32
  tags_addr :: u32
  page_size :: u32
  unused :: "u32 \<times> u32"
  hdr_name :: "byte list"
  hdr_cmdline :: "byte list"
  hdr_id :: "byte list"

text \<open>\<open>memset(&hdr, 0, sizeof(hdr))\<close>.\<close>

definition zero_hdr :: boot_img_hdr where
  "zero_hdr = \<lparr>magic = zeros 8, kernel_size = 0, kernel_addr = 0, ramdisk_size = 0,
     ramdisk_addr = 0, second_size = 0, second_addr = 0, tags_addr = 0, page_size = 0,
     unused = (0, 0), hdr_name = zeros BOOT_NAME_SIZE, hdr_cmdline = zeros BOOT_ARGS_SIZE,
     hdr_id = zeros 32\<rparr>"

text \<open>The header in memory, which has no padding between its fields, and back.\<close>

definition hdr_bytes :: "boot_img_hdr \<Rightarrow> byte list" where
  "hdr_bytes h =
     magic h @ le32_bytes (kernel_size h) @ le32_bytes (kernel_addr h) @
     le32_bytes (ramdisk_size h) @ le32_bytes (ramdisk_addr h) @
     le32_bytes (second_size h) @ le32_bytes (second_addr h) @
     le32_bytes (tags_addr h) @ le32_bytes (page_size h) @
     le32_bytes (fst (unused h)) @ le32_bytes (snd (unused h)) @
     hdr_name h @ hdr_cmdline h @ hdr_id h"

definition hdr_field :: "nat \<Rightarrow> byte list \<Rightarrow> u32" where
  "hdr_field i bs = le32 (take 4 (drop (8 + 4 * i) bs))"

definition hdr_of_bytes :: "byte list \<Rightarrow> boot_img_hdr" where
  "hdr_of_bytes bs =
     \<lparr>magic = take 8 bs, kernel_size = hdr_field 0 bs, kernel_addr = hdr_field 1 bs,
      ramdisk_size = hdr_field 2 bs, ramdisk_addr = hdr_field 3 bs,
      second_size = hdr_field 4 bs, second_addr = hdr_field 5 bs,
      tags_addr = hdr_field 6 bs, page_size = hdr_field 7 bs,
      unused = (hdr_field 8 bs, hdr_field 9 bs),
      hdr_name = take 16 (drop 48 bs), hdr_cmdline = take 512 (drop 64 bs),
      hdr_id = take 32 (drop 576 bs)\<rparr>"

definition sizeof_hdr :: nat where
  "sizeof_hdr = 608"

section \<open>Files\<close>

text \<open>
  The file system as the programs see it: the contents of files by name, the names under which
  files can be created, and the number of bytes the device still takes. Truncating and removing a
  file frees its bytes.
\<close>

record disk =
  files :: "string \<Rightarrow> byte list option"
  creatable :: "string \<Rightarrow> bool"
  room :: nat

text \<open>\<open>open\<close> with \<open>O_CREAT | O_TRUNC\<close>, \<open>unlink\<close>, and \<open>write\<close> at the end of the file, which may be short.\<close>

definition used_by :: "string \<Rightarrow> disk \<Rightarrow> nat" where
  "used_by fn d = (case files d fn of None \<Rightarrow> 0 | Some bs \<Rightarrow> length bs)"

definition os_create :: "string \<Rightarrow> disk \<Rightarrow> disk option" where
  "os_create fn d =
     (if creatable d fn
      then Some (d\<lparr>files := (files d)(fn \<mapsto> []), room := room d + used_by fn d\<rparr>) else None)"

definition os_unlink :: "string \<Rightarrow> disk \<Rightarrow> disk" where
  "os_unlink fn d = d\<lparr>files := (files d)(fn := None), room := room d + used_by fn d\<rparr>"

definition os_append :: "string \<Rightarrow> byte list \<Rightarrow> disk \<Rightarrow> nat \<times> disk" where
  "os_append fn data d =
     (let bs = take (room d) data;
          old = (case files d fn of None \<Rightarrow> [] | Some old \<Rightarrow> old)
      in (length bs, d\<lparr>files := (files d)(fn \<mapsto> old @ bs), room := room d - length bs\<rparr>))"

section \<open>mkbootimg\<close>

text \<open>\<open>load_file\<close>; the size is the file's length as a signed 32-bit integer.\<close>

definition load_file :: "disk \<Rightarrow> string \<Rightarrow> (byte list \<times> u32) option" where
  "load_file d fn =
     (case files d fn of
        None \<Rightarrow> None
      | Some bs \<Rightarrow>
          let sz = (word_of_nat (length bs) :: u32)
          in if sint sz < 0 then None else Some (take (unat sz) bs, sz))"

text \<open>The ways in which \<open>main\<close> stops, and its exit status.\<close>

datatype mk_error =
    MkUsage
  | UnsupportedPageSize
  | NoOutputFilename
  | NoKernelImage
  | NoRamdiskImage
  | BoardTooLarge
  | CmdlineTooLarge
  | CannotLoadKernel
  | CannotLoadRamdisk
  | CannotLoadSecond
  | CannotCreate
  | WriteFailed

fun mk_status :: "mk_error \<Rightarrow> int" where
  "mk_status UnsupportedPageSize = - 1"
| "mk_status _ = 1"

text \<open>The local variables that the argument loop sets; the addresses are those of \<open>hdr\<close>.\<close>

record mk_options =
  kernel_fn :: "string option"
  ramdisk_fn :: "string option"
  second_fn :: "string option"
  cmdline :: string
  bootimg :: "string option"
  board :: string
  pagesize :: u32
  addrs :: "u32 \<times> u32 \<times> u32 \<times> u32"

definition default_options :: mk_options where
  "default_options = \<lparr>kernel_fn = None, ramdisk_fn = None, second_fn = None, cmdline = [],
     bootimg = None, board = [], pagesize = 2048,
     addrs = (0x10008000, 0x11000000, 0x10F00000, 0x10000100)\<rparr>"

text \<open>One option with its value; \<open>unsigned long\<close> is converted to 32 bits.\<close>

definition parse_option :: "nat \<Rightarrow> string \<Rightarrow> string \<Rightarrow> mk_options \<Rightarrow> mk_error + mk_options" where
  "parse_option ulong_max arg val opts =
     (if strcmp arg ''--output'' = 0 \<or> strcmp arg ''-o'' = 0 then Inr (opts\<lparr>bootimg := Some val\<rparr>)
      else if strcmp arg ''--kernel'' = 0 then Inr (opts\<lparr>kernel_fn := Some val\<rparr>)
      else if strcmp arg ''--ramdisk'' = 0 then Inr (opts\<lparr>ramdisk_fn := Some val\<rparr>)
      else if strcmp arg ''--second'' = 0 then Inr (opts\<lparr>second_fn := Some val\<rparr>)
      else if strcmp arg ''--cmdline'' = 0 then Inr (opts\<lparr>cmdline := val\<rparr>)
      else if strcmp arg ''--base'' = 0 then
        let base = word_of_nat (strtoul16 ulong_max val)
        in Inr (opts\<lparr>addrs := (base + 0x00008000, base + 0x01000000, base + 0x00F00000,
                             base + 0x00000100)\<rparr>)
      else if strcmp arg ''--ramdiskaddr'' = 0 then
        case addrs opts of (k, r, s, t) \<Rightarrow>
          Inr (opts\<lparr>addrs := (k, word_of_nat (strtoul16 ulong_max val), s, t)\<rparr>)
      else if strcmp arg ''--board'' = 0 then Inr (opts\<lparr>board := val\<rparr>)
      else if strcmp arg ''--pagesize'' = 0 then
        let p = word_of_nat (fst (strtoul10 ulong_max val))
        in if p \<noteq> 2048 \<and> p \<noteq> 4096 then Inl UnsupportedPageSize else Inr (opts\<lparr>pagesize := p\<rparr>)
      else Inl MkUsage)"

fun parse_args :: "nat \<Rightarrow> string list \<Rightarrow> mk_options \<Rightarrow> mk_error + mk_options" where
  "parse_args ulong_max [] opts = Inr opts"
| "parse_args ulong_max [arg] opts = Inl MkUsage"
| "parse_args ulong_max (arg # val # args) opts =
     (case parse_option ulong_max arg val opts of
        Inl e \<Rightarrow> Inl e
      | Inr opts' \<Rightarrow> parse_args ulong_max args opts')"

text \<open>
  The checks after the loop and the header up to the sizes: the file names and the header, whose
  \<open>name\<close> and \<open>cmdline\<close> are filled by \<open>strcpy\<close>.
\<close>

definition fill_hdr ::
    "mk_options \<Rightarrow> mk_error + (string \<times> string \<times> string \<times> boot_img_hdr)" where
  "fill_hdr opts =
     (case bootimg opts of None \<Rightarrow> Inl NoOutputFilename | Some out \<Rightarrow>
      case kernel_fn opts of None \<Rightarrow> Inl NoKernelImage | Some kfn \<Rightarrow>
      case ramdisk_fn opts of None \<Rightarrow> Inl NoRamdiskImage | Some rfn \<Rightarrow>
        if length (board opts) \<ge> BOOT_NAME_SIZE then Inl BoardTooLarge
        else if length (cmdline opts) > BOOT_ARGS_SIZE - 1 then Inl CmdlineTooLarge
        else case addrs opts of (k, r, s, t) \<Rightarrow>
          Inr (out, kfn, rfn, zero_hdr\<lparr>
            magic := BOOT_MAGIC, kernel_addr := k, ramdisk_addr := r, second_addr := s,
            tags_addr := t, page_size := pagesize opts,
            hdr_name := bytes_of (board opts) @ zeros (BOOT_NAME_SIZE - length (board opts)),
            hdr_cmdline := bytes_of (cmdline opts) @
              zeros (BOOT_ARGS_SIZE - length (cmdline opts))\<rparr>))"

text \<open>
  The input files and the header with their sizes; a second stage that was not asked for is
  \<open>None\<close>, and the ramdisk \<open>NONE\<close> is empty.
\<close>

definition load_inputs ::
    "disk \<Rightarrow> string \<Rightarrow> string \<Rightarrow> string option \<Rightarrow> boot_img_hdr \<Rightarrow>
       mk_error + (byte list \<times> byte list \<times> byte list option \<times> boot_img_hdr)" where
  "load_inputs d kfn rfn sfn h =
     (case load_file d kfn of None \<Rightarrow> Inl CannotLoadKernel | Some (kd, ks) \<Rightarrow>
      case (if strcmp rfn ''NONE'' = 0 then Some ([], 0) else load_file d rfn) of
        None \<Rightarrow> Inl CannotLoadRamdisk
      | Some (rd, rs) \<Rightarrow>
      let h = h\<lparr>kernel_size := ks, ramdisk_size := rs\<rparr> in
      case sfn of
        None \<Rightarrow> Inr (kd, rd, None, h)
      | Some fn \<Rightarrow>
          case load_file d fn of None \<Rightarrow> Inl CannotLoadSecond | Some (sd, ss) \<Rightarrow>
            Inr (kd, rd, Some sd, h\<lparr>second_size := ss\<rparr>))"

text \<open>The checksum in \<open>id\<close>, with the interface of the streaming hash; \<open>ctx\<close> is uninitialised.\<close>

definition hash_pieces :: "byte list \<Rightarrow> byte list \<Rightarrow> byte list option \<Rightarrow> boot_img_hdr \<Rightarrow> byte list list" where
  "hash_pieces kd rd sd h =
     [kd, le32_bytes (kernel_size h), rd, le32_bytes (ramdisk_size h),
      (case sd of None \<Rightarrow> [] | Some bs \<Rightarrow> bs), le32_bytes (second_size h)]"

definition hash_id :: "SHA_CTX \<Rightarrow> byte list \<Rightarrow> byte list \<Rightarrow> byte list option \<Rightarrow> boot_img_hdr \<Rightarrow> byte list" where
  "hash_id ctx kd rd sd h =
     (let c = SHA_final (foldl SHA_update (SHA_init ctx) (hash_pieces kd rd sd h));
          k = (if SHA_DIGEST_SIZE > 32 then 32 else SHA_DIGEST_SIZE)
      in take k (buf c) @ drop k (hdr_id h))"

text \<open>Writing; \<open>Inl\<close> is a failed write, with the disk it leaves behind.\<close>

definition write_data :: "string \<Rightarrow> byte list \<Rightarrow> disk \<Rightarrow> disk + disk" where
  "write_data fn data d =
     (case os_append fn data d of (n, d') \<Rightarrow> if n \<noteq> length data then Inl d' else Inr d')"

definition write_padding :: "string \<Rightarrow> u32 \<Rightarrow> u32 \<Rightarrow> disk \<Rightarrow> disk + disk" where
  "write_padding fn pgsz itemsize d =
     (let pagemask = pgsz - 1 in
      if itemsize AND pagemask = 0 then Inr d
      else write_data fn (zeros (unat (pgsz - (itemsize AND pagemask)))) d)"

definition write_steps ::
    "string \<Rightarrow> u32 \<Rightarrow> boot_img_hdr \<Rightarrow> byte list \<Rightarrow> byte list \<Rightarrow> byte list option \<Rightarrow>
       (disk \<Rightarrow> disk + disk) list" where
  "write_steps fn p h kd rd sd =
     [write_data fn (hdr_bytes h), write_padding fn p (word_of_nat sizeof_hdr),
      write_data fn kd, write_padding fn p (kernel_size h),
      write_data fn rd, write_padding fn p (ramdisk_size h)] @
     (case sd of None \<Rightarrow> []
      | Some bs \<Rightarrow> [write_data fn bs, write_padding fn p (ramdisk_size h)])"

text \<open>\<open>main\<close>, on the arguments after the program's name.\<close>

definition mkbootimg_main ::
    "nat \<Rightarrow> SHA_CTX \<Rightarrow> string list \<Rightarrow> disk \<Rightarrow> (mk_error + unit) \<times> disk" where
  "mkbootimg_main ulong_max ctx args d =
     (case parse_args ulong_max args default_options of Inl e \<Rightarrow> (Inl e, d) | Inr opts \<Rightarrow>
      case fill_hdr opts of Inl e \<Rightarrow> (Inl e, d) | Inr (out, kfn, rfn, h) \<Rightarrow>
      case load_inputs d kfn rfn (second_fn opts) h of Inl e \<Rightarrow> (Inl e, d) | Inr (kd, rd, sd, h) \<Rightarrow>
      let h = h\<lparr>hdr_id := hash_id ctx kd rd sd h\<rparr> in
      case os_create out d of None \<Rightarrow> (Inl CannotCreate, d) | Some d1 \<Rightarrow>
      case run_all (\<lambda>f s. f s) (write_steps out (pagesize opts) h kd rd sd) d1 of
        Inl d2 \<Rightarrow> (Inl WriteFailed, os_unlink out d2)
      | Inr d2 \<Rightarrow> (Inr (), d2))"

section \<open>unpackbootimg\<close>

text \<open>
  \<open>main\<close> returns 0 whether it prints the usage or unpacks. \<open>Undefined\<close> stands for what the C
  standard leaves undefined and the code does not check: a missing argument or a file that cannot
  be opened used as a null pointer, data that could not be read in full, a buffer overrun.
\<close>

datatype 'a outcome = Usage | Undefined | Done 'a

record up_options =
  up_filename :: "string option"
  up_directory :: string
  up_pagesize :: u32

definition up_default_options :: up_options where
  "up_default_options = \<lparr>up_filename = None, up_directory = ''./'', up_pagesize = 0\<rparr>"

text \<open>
  One option; the value of the last argument is a null pointer. As the directory it is used after the loop, unless
  there is no file name.
\<close>

definition up_option :: "nat \<Rightarrow> string \<Rightarrow> string option \<Rightarrow> up_options \<Rightarrow> up_options outcome" where
  "up_option ulong_max arg val opts =
     (if strcmp arg ''--input'' = 0 \<or> strcmp arg ''-i'' = 0 then Done (opts\<lparr>up_filename := val\<rparr>)
      else if strcmp arg ''--output'' = 0 \<or> strcmp arg ''-o'' = 0 then
        (case val of
           None \<Rightarrow> if up_filename opts = None then Usage else Undefined
         | Some v \<Rightarrow> Done (opts\<lparr>up_directory := v\<rparr>))
      else if strcmp arg ''--pagesize'' = 0 \<or> strcmp arg ''-p'' = 0 then
        (case val of None \<Rightarrow> Undefined
         | Some v \<Rightarrow> Done (opts\<lparr>up_pagesize := word_of_nat (strtoul16 ulong_max v)\<rparr>))
      else Usage)"

fun up_args :: "nat \<Rightarrow> string list \<Rightarrow> up_options \<Rightarrow> up_options outcome" where
  "up_args ulong_max [] opts = Done opts"
| "up_args ulong_max [arg] opts = up_option ulong_max arg None opts"
| "up_args ulong_max (arg # val # args) opts =
     (case up_option ulong_max arg (Some val) opts of
        Done opts' \<Rightarrow> up_args ulong_max args opts'
      | Usage \<Rightarrow> Usage
      | Undefined \<Rightarrow> Undefined)"

text \<open>\<open>basename\<close> of the C library.\<close>

definition base_name :: "string \<Rightarrow> string" where
  "base_name p =
     (let q = rev (dropWhile (\<lambda>c. c = CHR ''/'') (rev p))
      in if p = [] then ''.'' else if q = [] then ''/''
         else rev (takeWhile (\<lambda>c. c \<noteq> CHR ''/'') (rev q)))"

text \<open>The stream: the bytes not read yet. \<open>fread\<close> of one item, which must be there in full.\<close>

definition fread :: "nat \<Rightarrow> byte list \<Rightarrow> (byte list \<times> byte list) outcome" where
  "fread n f = (if length f < n then Undefined else Done (take n f, drop n f))"

text \<open>\<open>read_padding\<close>: the rest of the page is read into a buffer of a page, as far as it is there.\<close>

definition read_padding :: "byte list \<Rightarrow> u32 \<Rightarrow> u32 \<Rightarrow> byte list outcome" where
  "read_padding f itemsize pgsz =
     (let pagemask = pgsz - 1 in
      if itemsize AND pagemask = 0 then Done f
      else if sint pgsz \<le> 0 \<and> f \<noteq> [] then Undefined
      else Done (drop (unat (pgsz - (itemsize AND pagemask))) f))"

text \<open>
  Output files: \<open>fopen\<close>, \<open>fwrite\<close>, \<open>fclose\<close>. Errors of \<open>fwrite\<close> are not looked at. The names
  are built in a buffer of \<open>PATH_MAX\<close> bytes.
\<close>

definition PATH_MAX :: nat where
  "PATH_MAX = 4096"

definition out_name :: "up_options \<Rightarrow> string \<Rightarrow> string \<Rightarrow> string" where
  "out_name opts filename suffix = up_directory opts @ ''/'' @ base_name filename @ suffix"

definition put_file :: "string \<Rightarrow> byte list \<Rightarrow> disk \<Rightarrow> disk outcome" where
  "put_file fn data d =
     (if length fn + 1 > PATH_MAX then Undefined
      else case os_create fn d of None \<Rightarrow> Undefined | Some d1 \<Rightarrow> Done (snd (os_append fn data d1)))"

definition write_string_to_file :: "string \<Rightarrow> byte list \<Rightarrow> disk \<Rightarrow> disk outcome" where
  "write_string_to_file fn s d = put_file fn (s @ [10]) d"

text \<open>The string at the start of an array that must hold a NUL.\<close>

definition c_string :: "byte list \<Rightarrow> byte list outcome" where
  "c_string a = (if 0 \<in> set a then Done (takeWhile (\<lambda>b. b \<noteq> 0) a) else Undefined)"

text \<open>What \<open>main\<close> prints: the lines about the command line, the base and the page size.\<close>

definition report :: "byte list \<Rightarrow> boot_img_hdr \<Rightarrow> byte list" where
  "report cmd h =
     bytes_of ''BOARD_KERNEL_CMDLINE '' @ cmd @ [10] @
     bytes_of ''BOARD_KERNEL_BASE '' @ hex 8 (kernel_addr h - 0x00008000) @ [10] @
     bytes_of ''BOARD_PAGE_SIZE '' @ hex 8 (page_size h) @ [10]"

definition and_then :: "'a outcome \<Rightarrow> ('a \<Rightarrow> 'b outcome) \<Rightarrow> 'b outcome" where
  "and_then x f = (case x of Usage \<Rightarrow> Usage | Undefined \<Rightarrow> Undefined | Done a \<Rightarrow> f a)"

text \<open>\<open>main\<close> after the argument loop, on the file it opens; also what it prints.\<close>

definition unpack :: "up_options \<Rightarrow> string \<Rightarrow> byte list \<Rightarrow> disk \<Rightarrow> (byte list \<times> disk) outcome" where
  "unpack opts filename f d =
     and_then (fread sizeof_hdr f) (\<lambda>(hdr, f).
     let h = hdr_of_bytes hdr;
         pgsz = (if up_pagesize opts = 0 then page_size h else up_pagesize opts)
     in and_then (c_string (hdr_cmdline h)) (\<lambda>cmd.
     and_then (write_string_to_file (out_name opts filename ''-cmdline'') cmd d) (\<lambda>d.
     and_then (write_string_to_file (out_name opts filename ''-base'')
       (hex 8 (kernel_addr h - 0x00008000)) d) (\<lambda>d.
     and_then (write_string_to_file (out_name opts filename ''-pagesize'')
       (hex 8 (page_size h)) d) (\<lambda>d.
     and_then (read_padding f (word_of_nat sizeof_hdr) pgsz) (\<lambda>f.
     and_then (fread (unat (kernel_size h)) f) (\<lambda>(kernel, f).
     and_then (put_file (out_name opts filename ''-zImage'') kernel d) (\<lambda>d.
     and_then (read_padding f (kernel_size h) pgsz) (\<lambda>f.
     and_then (fread (unat (ramdisk_size h)) f) (\<lambda>(ramdisk, f).
     and_then (put_file (out_name opts filename ''-ramdisk.gz'') ramdisk d) (\<lambda>d.
       Done (report cmd h, d))))))))))))"

definition unpackbootimg_main :: "nat \<Rightarrow> string list \<Rightarrow> disk \<Rightarrow> (byte list \<times> disk) outcome" where
  "unpackbootimg_main ulong_max args d =
     and_then (up_args ulong_max args up_default_options) (\<lambda>opts.
       case up_filename opts of
         None \<Rightarrow> Usage
       | Some filename \<Rightarrow>
           (case files d filename of
              None \<Rightarrow> Undefined
            | Some f \<Rightarrow> unpack opts filename f d))"

section \<open>The header in memory\<close>

text \<open>The sizes of the header's arrays.\<close>

definition hdr_ok :: "boot_img_hdr \<Rightarrow> bool" where
  "hdr_ok h \<longleftrightarrow> length (magic h) = 8 \<and> length (hdr_name h) = BOOT_NAME_SIZE \<and>
     length (hdr_cmdline h) = BOOT_ARGS_SIZE \<and> length (hdr_id h) = 32"

lemmas boot_sizes = BOOT_NAME_SIZE_def BOOT_ARGS_SIZE_def sizeof_hdr_def

lemma length_hdr_bytes: "hdr_ok h \<Longrightarrow> length (hdr_bytes h) = sizeof_hdr"
  by (simp add: hdr_ok_def hdr_bytes_def boot_sizes)

text \<open>A field at its offset.\<close>

lemma field_at:
  "length xs = n \<Longrightarrow> length ys = k \<Longrightarrow> take k (drop n (xs @ ys @ zs)) = ys"
  by simp

lemma le32_at: "length xs = 8 + 4 * i \<Longrightarrow> hdr_field i (xs @ le32_bytes w @ zs) = w"
  using field_at [of xs "8 + 4 * i" "le32_bytes w" 4 zs]
  by (simp add: hdr_field_def le32_le32_bytes)

lemma hdr_of_hdr_bytes:
  assumes "hdr_ok h"
  shows "hdr_of_bytes (hdr_bytes h) = h"
proof -
  define ws where "ws = [kernel_size h, kernel_addr h, ramdisk_size h, ramdisk_addr h, second_size h,
    second_addr h, tags_addr h, page_size h, fst (unused h), snd (unused h)]"
  define rest where "rest = hdr_name h @ hdr_cmdline h @ hdr_id h"
  have eq: "hdr_bytes h = magic h @ concat (map le32_bytes ws) @ rest"
    by (simp add: hdr_bytes_def ws_def rest_def)
  have len: "length (magic h) = 8" "length (concat (map le32_bytes ws)) = 40"
    using assms by (simp_all add: hdr_ok_def ws_def)
  have field: "hdr_field i (hdr_bytes h) = ws ! i" if i: "i < 10" for i
  proof -
    have "i < length ws" using i by (simp add: ws_def)
    then have "ws = take i ws @ ws ! i # drop (Suc i) ws" by (rule id_take_nth_drop)
    then have "hdr_bytes h = (magic h @ concat (map le32_bytes (take i ws))) @ le32_bytes (ws ! i) @
        concat (map le32_bytes (drop (Suc i) ws)) @ rest"
      unfolding eq by (metis append.assoc concat.simps(2) concat_append list.simps(9) map_append)
    moreover have "length (magic h @ concat (map le32_bytes (take i ws))) = 8 + 4 * i"
      using len(1) \<open>i < length ws\<close> by (simp add: length_concat comp_def sum_list_triv)
    ultimately show ?thesis using le32_at by metis
  qed
  have "drop 48 (hdr_bytes h) = rest" "take 8 (hdr_bytes h) = magic h"
    using len by (simp_all add: eq)
  moreover have "drop 64 (hdr_bytes h) = drop 16 (drop 48 (hdr_bytes h))"
    "drop 576 (hdr_bytes h) = drop 528 (drop 48 (hdr_bytes h))" by simp_all
  ultimately show ?thesis
    using field [of 0] field [of 1] field [of 2] field [of 3] field [of 4] field [of 5]
      field [of 6] field [of 7] field [of 8] field [of 9] assms
    by (simp add: hdr_of_bytes_def ws_def rest_def hdr_ok_def boot_sizes)
qed

section \<open>Writing\<close>

lemma padding_count:
  fixes p itemsize :: u32
  assumes "p = 2048 \<or> p = 4096"
  shows "itemsize AND (p - 1) = 0 \<longleftrightarrow> pad_len (unat p) (unat itemsize) = 0"
    and "itemsize AND (p - 1) \<noteq> 0 \<Longrightarrow>
      unat (p - (itemsize AND (p - 1))) = pad_len (unat p) (unat itemsize)"
proof -
  obtain k :: nat where k: "k = 11 \<or> k = 12" and p: "p = 2 ^ k" "unat p = 2 ^ k"
    using assms by force
  let ?r = "unat itemsize mod 2 ^ k" and ?w = "itemsize AND (p - 1)"
  have r: "?r < 2 ^ k" by simp
  have "?w = take_bit k itemsize"
    unfolding p(1) take_bit_eq_mask mask_eq_exp_minus_1 ..
  then have u: "unat ?w = ?r"
    by (simp only: unsigned_take_bit_eq) (simp only: take_bit_eq_mod)
  have len: "pad_len (unat p) (unat itemsize) = (if ?r = 0 then 0 else 2 ^ k - ?r)"
    using r by (simp add: pad_len_def p(2))
  have w0: "?w = 0 \<longleftrightarrow> ?r = 0" unfolding u [symmetric] by (simp only: unsigned_eq_0_iff)
  with len r show "?w = 0 \<longleftrightarrow> pad_len (unat p) (unat itemsize) = 0" by (simp add: not_le)
  assume "?w \<noteq> 0"
  moreover have "?w \<le> p" using r by (simp add: word_le_nat_alt u p(2))
  then have "unat (p - ?w) = 2 ^ k - ?r" using u p(2) by (simp add: unat_sub)
  ultimately show "unat (p - ?w) = pad_len (unat p) (unat itemsize)" using len w0 by simp
qed

text \<open>
  A program that appends a chunk to a file: it succeeds if and only if there is room, and then
  changes nothing else.
\<close>

definition appended :: "string \<Rightarrow> byte list \<Rightarrow> disk \<Rightarrow> disk" where
  "appended fn bs d =
     d\<lparr>files := (files d)(fn := Some ((case files d fn of None \<Rightarrow> [] | Some old \<Rightarrow> old) @ bs)),
       room := room d - length bs\<rparr>"

definition appends :: "string \<Rightarrow> byte list \<Rightarrow> (disk \<Rightarrow> disk + disk) \<Rightarrow> bool" where
  "appends fn bs f \<longleftrightarrow> (\<forall>d. files d fn \<noteq> None \<longrightarrow>
     f d = (if length bs \<le> room d then Inr (appended fn bs d)
            else Inl (appended fn (take (room d) bs) d)))"

lemma appends_write_data: "appends fn bs (write_data fn bs)"
  by (auto simp: appends_def write_data_def os_append_def appended_def Let_def min_def)

lemma appended_Nil: "files d fn \<noteq> None \<Longrightarrow> appended fn [] d = d"
  by (auto simp: appended_def fun_upd_idem)

lemma appended_appended: "appended fn ys (appended fn xs d) = appended fn (xs @ ys) d"
  by (simp add: appended_def)

lemma files_appended: "files (appended fn bs d) fn \<noteq> None"
  by (simp add: appended_def)

lemma appends_write_padding:
  assumes "p = 2048 \<or> p = 4096"
  shows "appends fn (zeros (pad_len (unat p) (unat itemsize))) (write_padding fn p itemsize)"
proof (cases "itemsize AND (p - 1) = 0")
  case True
  then have "zeros (pad_len (unat p) (unat itemsize)) = []"
    using padding_count(1) [OF assms] by simp
  with True show ?thesis by (simp add: appends_def write_padding_def appended_Nil)
next
  case False
  then show ?thesis
    using padding_count(2) [OF assms False] appends_write_data
    by (simp add: write_padding_def appends_def)
qed

lemma run_all_appends:
  assumes "list_all2 (appends fn) bss fs" and "files d fn \<noteq> None"
  shows "run_all (\<lambda>f s. f s) fs d =
    (if length (concat bss) \<le> room d then Inr (appended fn (concat bss) d)
     else Inl (appended fn (take (room d) (concat bss)) d))"
  using assms
proof (induction arbitrary: d rule: list_all2_induct)
  case Nil
  then show ?case by (simp add: appended_Nil)
next
  case (Cons bs bss f fs)
  then have f: "f d = (if length bs \<le> room d then Inr (appended fn bs d)
      else Inl (appended fn (take (room d) bs) d))"
    by (simp add: appends_def)
  show ?case
  proof (cases "length bs \<le> room d")
    case True
    moreover have "room (appended fn bs d) = room d - length bs" by (simp add: appended_def)
    ultimately show ?thesis
      using Cons.IH [OF files_appended, of bs d] f
      by (auto simp: appended_appended)
  next
    case False
    with f show ?thesis by simp
  qed
qed

section \<open>The image\<close>

text \<open>A section of the image: its bytes, filled up to whole pages.\<close>

definition paged :: "nat \<Rightarrow> byte list \<Rightarrow> byte list" where
  "paged p bs = bs @ zeros (pad_len p (length bs))"

text \<open>
  The image as the code writes it: the padding after a second stage is the one of the ramdisk.
\<close>

definition image :: "nat \<Rightarrow> byte list \<Rightarrow> byte list \<Rightarrow> byte list \<Rightarrow> byte list option \<Rightarrow> byte list" where
  "image p hdr kd rd sd =
     paged p hdr @ paged p kd @ paged p rd @
     (case sd of None \<Rightarrow> [] | Some bs \<Rightarrow> bs @ zeros (pad_len p (length rd)))"

text \<open>
  The image as \<open>bootimg.h\<close> documents it: the header in one page, then the kernel, the ramdisk and the second stage in
  whole pages.
\<close>

definition bootimg_layout :: "nat \<Rightarrow> byte list \<Rightarrow> byte list \<Rightarrow> byte list \<Rightarrow> byte list option \<Rightarrow> byte list" where
  "bootimg_layout p hdr kd rd sd =
     paged p hdr @ paged p kd @ paged p rd @ (case sd of None \<Rightarrow> [] | Some bs \<Rightarrow> paged p bs)"

lemma image_layout: "sd = None \<or> length (the sd) mod p = length rd mod p \<Longrightarrow> image p hdr kd rd sd = bootimg_layout p hdr kd rd sd"
  by (auto simp: image_def bootimg_layout_def paged_def pad_len_def split: option.split)

text \<open>The header that describes the contents.\<close>

definition image_hdr :: "mk_options \<Rightarrow> byte list \<Rightarrow> byte list \<Rightarrow> byte list option \<Rightarrow> boot_img_hdr" where
  "image_hdr opts kd rd sd =
     (let ss = (case sd of None \<Rightarrow> [] | Some bs \<Rightarrow> bs);
          size = (\<lambda>bs. word_of_nat (length bs) :: u32)
      in case addrs opts of (k, r, s, t) \<Rightarrow>
        \<lparr>magic = bytes_of ''ANDROID!'', kernel_size = size kd, kernel_addr = k,
         ramdisk_size = size rd, ramdisk_addr = r, second_size = size ss, second_addr = s,
         tags_addr = t, page_size = pagesize opts, unused = (0, 0),
         hdr_name = bytes_of (board opts) @ zeros (16 - length (board opts)),
         hdr_cmdline = bytes_of (cmdline opts) @ zeros (512 - length (cmdline opts)),
         hdr_id = sha1 (kd @ le32_bytes (size kd) @ rd @ le32_bytes (size rd) @ ss @
           le32_bytes (size ss)) @ zeros 12\<rparr>)"

text \<open>What the input files hold, as \<open>load_file\<close> sees them.\<close>

definition input :: "disk \<Rightarrow> string \<Rightarrow> byte list option" where
  "input d fn = map_option fst (load_file d fn)"

lemma load_file_size: "load_file d fn = Some (bs, sz) \<Longrightarrow> sz = word_of_nat (length bs) \<and> length bs < 2 ^ 31"
proof -
  assume "load_file d fn = Some (bs, sz)"
  then obtain old where old: "files d fn = Some old" "sz = word_of_nat (length old)" "0 \<le> sint sz"
    "bs = take (unat sz) old"
    by (auto simp: load_file_def Let_def split: option.splits if_splits)
  have "unat sz \<le> length old"
    unfolding old(2) by (simp add: unsigned_of_nat take_bit_nat_less_eq_self)
  then have len: "length bs = unat sz" using old(4) by simp
  have "\<not> bit (uint sz) 31"
    using old(3) by (simp add: sint_uint)
  moreover have "uint sz = take_bit (Suc 31) (uint sz)"
    using take_bit_int_eq_self [of "uint sz" 32] unsigned_less [of sz, where ?'a = int] by simp
  ultimately have "uint sz = take_bit 31 (uint sz)"
    by (simp only: take_bit_Suc_from_most) simp
  then have "uint sz < 2 ^ 31" by (metis take_bit_int_less_exp)
  then have "int (unat sz) < int (2 ^ 31)" by (simp only: uint_nat of_nat_power of_nat_numeral)
  then have "unat sz < 2 ^ 31" by (simp only: of_nat_less_iff)
  moreover have "sz = word_of_nat (unat sz)" by simp
  ultimately show ?thesis unfolding len by blast
qed

lemma hash_id_sha1:
  assumes "length (buf ctx) = 64"
  shows "hash_id ctx kd rd sd h =
    sha1 (kd @ le32_bytes (kernel_size h) @ rd @ le32_bytes (ramdisk_size h) @
      (case sd of None \<Rightarrow> [] | Some bs \<Rightarrow> bs) @ le32_bytes (second_size h)) @ drop 20 (hdr_id h)"
proof -
  have "foldl SHA_update (SHA_init ctx) xss = SHA_update (SHA_init ctx) (concat xss)" for xss
    by (rule exact_streaming.foldl_update [OF streaming_SHA [OF assms]])
      (simp add: assms SHA_init_def)
  then have "hash_id ctx kd rd sd h = SHA ctx (concat (hash_pieces kd rd sd h)) @ drop 20 (hdr_id h)"
    by (simp only: hash_id_def SHA_def SHA_DIGEST_SIZE_def Let_def) simp
  then show ?thesis
    by (simp add: SHA_sha1 [OF assms] hash_pieces_def)
qed

text \<open>The ramdisk \<open>NONE\<close> is empty, and a second stage that is not asked for is absent.\<close>

definition ramdisk_input :: "disk \<Rightarrow> string \<Rightarrow> byte list option" where
  "ramdisk_input d fn = (if strcmp fn ''NONE'' = 0 then Some [] else input d fn)"

definition second_input :: "disk \<Rightarrow> string option \<Rightarrow> byte list option option" where
  "second_input d sfn = (case sfn of None \<Rightarrow> Some None | Some fn \<Rightarrow> map_option Some (input d fn))"

lemma input_SomeD: "input d fn = Some bs \<Longrightarrow> load_file d fn = Some (bs, word_of_nat (length bs))"
  using load_file_size by (cases "load_file d fn") (auto simp: input_def)

lemma load_file_input: "load_file d fn = map_option (\<lambda>bs. (bs, word_of_nat (length bs))) (input d fn)"
  using load_file_size by (cases "load_file d fn") (auto simp: input_def)

lemma input_None: "input d fn = None \<longleftrightarrow> load_file d fn = None"
  by (simp add: input_def)

lemma length_input: "input d fn = Some bs \<Longrightarrow> length bs < 2 ^ 31"
  using input_SomeD load_file_size by blast

lemma length_ramdisk_input: "ramdisk_input d fn = Some bs \<Longrightarrow> length bs < 2 ^ 31"
  using length_input by (auto simp: ramdisk_input_def split: if_splits)

definition sized_hdr :: "byte list \<Rightarrow> byte list \<Rightarrow> byte list option \<Rightarrow> boot_img_hdr \<Rightarrow> boot_img_hdr" where
  "sized_hdr kd rd sd h =
     (let h = h\<lparr>kernel_size := word_of_nat (length kd), ramdisk_size := word_of_nat (length rd)\<rparr>
      in case sd of None \<Rightarrow> h | Some bs \<Rightarrow> h\<lparr>second_size := word_of_nat (length bs)\<rparr>)"

text \<open>The inputs are loaded exactly when all of them can be.\<close>

lemma load_inputs_eq:
  "load_inputs d kfn rfn sfn h =
     (case input d kfn of None \<Rightarrow> Inl CannotLoadKernel | Some kd \<Rightarrow>
      case ramdisk_input d rfn of None \<Rightarrow> Inl CannotLoadRamdisk | Some rd \<Rightarrow>
      case second_input d sfn of None \<Rightarrow> Inl CannotLoadSecond | Some sd \<Rightarrow>
        Inr (kd, rd, sd, sized_hdr kd rd sd h))"
proof (cases "input d kfn")
  case (Some kd)
  note k = Some
  show ?thesis
  proof (cases "ramdisk_input d rfn")
    case (Some rd)
    then have "(if strcmp rfn ''NONE'' = 0 then Some ([], 0) else load_file d rfn) =
        Some (rd, word_of_nat (length rd))"
      by (auto simp: ramdisk_input_def dest: input_SomeD split: if_splits)
    then show ?thesis
      using k Some
      by (simp add: load_inputs_def second_input_def sized_hdr_def Let_def load_file_input
          split: option.split)
  next
    case None
    then have "(if strcmp rfn ''NONE'' = 0 then Some ([], 0 :: u32) else load_file d rfn) = None"
      by (auto simp: ramdisk_input_def input_None split: if_splits)
    with None input_SomeD [OF k] k show ?thesis by (simp add: load_inputs_def)
  qed
next
  case None
  then show ?thesis by (simp add: load_inputs_def load_file_input)
qed

lemma fill_hdr_eq:
  "fill_hdr opts = Inr (out, kfn, rfn, h) \<longleftrightarrow>
     bootimg opts = Some out \<and> kernel_fn opts = Some kfn \<and> ramdisk_fn opts = Some rfn \<and>
     length (board opts) < 16 \<and> length (cmdline opts) < 512 \<and>
     h = (case addrs opts of (k, r, s, t) \<Rightarrow> zero_hdr\<lparr>
            magic := BOOT_MAGIC, kernel_addr := k, ramdisk_addr := r, second_addr := s,
            tags_addr := t, page_size := pagesize opts,
            hdr_name := bytes_of (board opts) @ zeros (16 - length (board opts)),
            hdr_cmdline := bytes_of (cmdline opts) @ zeros (512 - length (cmdline opts))\<rparr>)"
  by (auto simp: fill_hdr_def boot_sizes split: option.splits prod.splits)

text \<open>The header that \<open>main\<close> ends up with.\<close>

lemma final_hdr:
  assumes "length (buf ctx) = 64" and "fill_hdr opts = Inr (out, kfn, rfn, h)"
    and h'_def: "h' = sized_hdr kd rd sd h"
  shows "h'\<lparr>hdr_id := hash_id ctx kd rd sd h'\<rparr> = image_hdr opts kd rd sd"
proof -
  obtain k r s t where a: "addrs opts = (k, r, s, t)" by (metis prod_cases4)
  have h: "h = zero_hdr\<lparr>magic := BOOT_MAGIC, kernel_addr := k, ramdisk_addr := r,
      second_addr := s, tags_addr := t, page_size := pagesize opts,
      hdr_name := bytes_of (board opts) @ zeros (16 - length (board opts)),
      hdr_cmdline := bytes_of (cmdline opts) @ zeros (512 - length (cmdline opts))\<rparr>"
    using assms(2) by (simp add: fill_hdr_eq a)
  have "drop 20 (zeros 32) = zeros 12" by (simp add: zeros_def)
  then show ?thesis
    unfolding h'_def h hash_id_sha1 [OF assms(1)]
    by (cases sd) (simp_all add: image_hdr_def sized_hdr_def zero_hdr_def a BOOT_MAGIC_def)
qed

lemma hdr_ok_image_hdr:
  "length (board opts) < 16 \<Longrightarrow> length (cmdline opts) < 512 \<Longrightarrow> hdr_ok (image_hdr opts kd rd sd)"
  by (auto simp: hdr_ok_def image_hdr_def Let_def boot_sizes split: prod.split)

text \<open>The page size is one of the two supported ones.\<close>

definition page_ok :: "u32 \<Rightarrow> bool" where
  "page_ok p \<longleftrightarrow> p = 2048 \<or> p = 4096"

lemma parse_option_pagesize:
  assumes "parse_option ulong_max arg val opts = Inr opts'"
  shows "pagesize opts' = pagesize opts \<or> page_ok (pagesize opts')"
  using assms unfolding parse_option_def Let_def
  by (simp add: page_ok_def split: if_split_asm prod.split_asm) auto

lemma parse_args_pagesize:
  "parse_args ulong_max args opts = Inr opts' \<Longrightarrow> page_ok (pagesize opts) \<Longrightarrow>
     page_ok (pagesize opts')"
proof (induction ulong_max args opts rule: parse_args.induct)
  case (3 ulong_max arg val args opts)
  then obtain opts1 where opts1: "parse_option ulong_max arg val opts = Inr opts1"
    "parse_args ulong_max args opts1 = Inr opts'"
    by (auto split: sum.splits)
  with parse_option_pagesize [OF opts1(1)] 3 show ?case by metis
qed simp_all

lemma parse_option_error: "parse_option ulong_max arg val opts \<noteq> Inl WriteFailed"
  unfolding parse_option_def Let_def by (simp split: prod.split)

lemma parse_args_error: "parse_args ulong_max args opts = Inl WriteFailed \<Longrightarrow> False"
proof (induction ulong_max args opts rule: parse_args.induct)
  case (3 ulong_max arg val args opts)
  then show ?case using parse_option_error [of ulong_max arg val opts] by (auto split: sum.splits)
qed simp_all

lemma fill_hdr_error: "fill_hdr opts = Inl WriteFailed \<Longrightarrow> False"
  by (auto simp: fill_hdr_def split: option.splits if_splits prod.splits)

lemma load_inputs_error: "load_inputs d kfn rfn sfn h = Inl WriteFailed \<Longrightarrow> False"
  by (auto simp: load_inputs_eq split: option.splits)

lemma write_steps_appends:
  assumes "page_ok p" and "length kd < 2 ^ 32" and "length rd < 2 ^ 32"
    and "kernel_size h = word_of_nat (length kd)" and "ramdisk_size h = word_of_nat (length rd)"
    and "hdr_ok h"
  shows "\<exists>bss. list_all2 (appends fn) bss (write_steps fn p h kd rd sd) \<and>
    concat bss = image (unat p) (hdr_bytes h) kd rd sd"
proof -
  let ?pad = "\<lambda>n. zeros (pad_len (unat p) n)"
  have size: "unat (word_of_nat n :: u32) = n" if "n < 2 ^ 32" for n
    using that by (simp add: unsigned_of_nat take_bit_nat_eq_self)
  have pad: "appends fn (?pad n) (write_padding fn p (word_of_nat n))" if "n < 2 ^ 32" for n
    using appends_write_padding [OF assms(1) [unfolded page_ok_def], of fn "word_of_nat n"]
      size [OF that] by simp
  have steps: "list_all2 (appends fn)
      [hdr_bytes h, ?pad sizeof_hdr, kd, ?pad (length kd), rd, ?pad (length rd)]
      [write_data fn (hdr_bytes h), write_padding fn p (word_of_nat sizeof_hdr),
       write_data fn kd, write_padding fn p (kernel_size h),
       write_data fn rd, write_padding fn p (ramdisk_size h)]"
    using assms(2-5) pad pad [of sizeof_hdr] by (simp add: appends_write_data sizeof_hdr_def)
  have second: "list_all2 (appends fn)
      (case sd of None \<Rightarrow> [] | Some bs \<Rightarrow> [bs, ?pad (length rd)])
      (case sd of None \<Rightarrow> [] | Some bs \<Rightarrow> [write_data fn bs, write_padding fn p (ramdisk_size h)])"
    using assms(3,5) pad by (simp add: appends_write_data split: option.split)
  show ?thesis
  proof (intro exI conjI)
    show "list_all2 (appends fn)
        ([hdr_bytes h, ?pad sizeof_hdr, kd, ?pad (length kd), rd, ?pad (length rd)] @
         (case sd of None \<Rightarrow> [] | Some bs \<Rightarrow> [bs, ?pad (length rd)])) (write_steps fn p h kd rd sd)"
      unfolding write_steps_def by (rule list_all2_appendI [OF steps second])
    show "concat ([hdr_bytes h, ?pad sizeof_hdr, kd, ?pad (length kd), rd, ?pad (length rd)] @
        (case sd of None \<Rightarrow> [] | Some bs \<Rightarrow> [bs, ?pad (length rd)])) =
        image (unat p) (hdr_bytes h) kd rd sd"
      using length_hdr_bytes [OF assms(6)] by (simp add: image_def paged_def split: option.split)
  qed
qed

text \<open>A run on inputs that can all be loaded.\<close>

lemma mkbootimg_run:
  assumes opts: "parse_args ulong_max args default_options = Inr opts"
    and hdr: "fill_hdr opts = Inr (out, kfn, rfn, h)"
    and inputs: "input d kfn = Some kd" "ramdisk_input d rfn = Some rd"
      "second_input d (second_fn opts) = Some sd"
    and ctx: "length (buf ctx) = 64"
    and img: "img = image (unat (pagesize opts)) (hdr_bytes (image_hdr opts kd rd sd)) kd rd sd"
    and d1: "d1 = d\<lparr>files := (files d)(out \<mapsto> []), room := room d + used_by out d\<rparr>"
  shows "mkbootimg_main ulong_max ctx args d =
    (if \<not> creatable d out then (Inl CannotCreate, d)
     else if length img \<le> room d1 then (Inr (), appended out img d1)
     else (Inl WriteFailed, os_unlink out (appended out (take (room d1) img) d1)))"
proof -
  let ?h = "sized_hdr kd rd sd h"
  let ?h' = "?h\<lparr>hdr_id := hash_id ctx kd rd sd ?h\<rparr>"
  have h': "?h' = image_hdr opts kd rd sd" by (rule final_hdr [OF ctx hdr refl])
  have page: "page_ok (pagesize opts)"
    by (rule parse_args_pagesize [OF opts]) (simp add: default_options_def page_ok_def)
  have len: "length kd < 2 ^ 32" "length rd < 2 ^ 32"
    using length_input [OF inputs(1)] length_ramdisk_input [OF inputs(2)] by simp_all
  have "\<exists>bss. list_all2 (appends out) bss (write_steps out (pagesize opts) ?h' kd rd sd) \<and>
      concat bss = img"
    unfolding img h' using hdr
    by (intro write_steps_appends page len hdr_ok_image_hdr)
      (simp_all add: fill_hdr_eq image_hdr_def Let_def split: prod.split)
  then obtain bss where bss: "list_all2 (appends out) bss (write_steps out (pagesize opts) ?h' kd rd sd)"
    "concat bss = img" by blast
  have "files d1 out \<noteq> None" by (simp add: d1)
  from run_all_appends [OF bss(1) this] bss(2) show ?thesis
    by (auto simp: mkbootimg_main_def opts hdr load_inputs_eq inputs os_create_def d1 Let_def)
qed

text \<open>What a successful run tells.\<close>

lemma mkbootimg_success:
  assumes "mkbootimg_main ulong_max ctx args d = (Inr (), d')"
  shows "\<exists>opts out kfn rfn h kd rd sd. parse_args ulong_max args default_options = Inr opts \<and>
    fill_hdr opts = Inr (out, kfn, rfn, h) \<and> input d kfn = Some kd \<and>
    ramdisk_input d rfn = Some rd \<and> second_input d (second_fn opts) = Some sd"
  using assms by (auto simp: mkbootimg_main_def load_inputs_eq split: sum.splits option.splits)

lemma mkbootimg_success_image:
  assumes "mkbootimg_main ulong_max ctx args d = (Inr (), d')" and ctx: "length (buf ctx) = 64"
  shows "\<exists>opts out kfn rfn kd rd sd. parse_args ulong_max args default_options = Inr opts \<and>
    bootimg opts = Some out \<and> kernel_fn opts = Some kfn \<and> ramdisk_fn opts = Some rfn \<and>
    length (board opts) < 16 \<and> length (cmdline opts) < 512 \<and>
    input d kfn = Some kd \<and> ramdisk_input d rfn = Some rd \<and>
    second_input d (second_fn opts) = Some sd \<and> creatable d' = creatable d \<and>
    files d' = (files d)(out \<mapsto>
      image (unat (pagesize opts)) (hdr_bytes (image_hdr opts kd rd sd)) kd rd sd)"
proof -
  from mkbootimg_success [OF assms(1)] obtain opts out kfn rfn h kd rd sd
    where run: "parse_args ulong_max args default_options = Inr opts"
      "fill_hdr opts = Inr (out, kfn, rfn, h)" "input d kfn = Some kd"
      "ramdisk_input d rfn = Some rd" "second_input d (second_fn opts) = Some sd"
    by blast
  have d': "files d' = (files d)(out \<mapsto>
      image (unat (pagesize opts)) (hdr_bytes (image_hdr opts kd rd sd)) kd rd sd)"
    "creatable d' = creatable d"
    using mkbootimg_run [OF run ctx refl refl] assms(1) by (auto simp: appended_def split: if_splits)
  then show ?thesis
    using run(1,3-5) run(2) [unfolded fill_hdr_eq] by blast
qed

section \<open>The sections of an image\<close>

text \<open>The number of pages of a section, as \<open>bootimg.h\<close> gives it.\<close>

definition pages :: "nat \<Rightarrow> nat \<Rightarrow> nat" where
  "pages p n = (n + p - 1) div p"

lemma add_pad_len_pages:
  assumes "0 < p"
  shows "n + pad_len p n = p * pages p n"
proof -
  have "p dvd n + pad_len p n" using assms by (rule dvd_add_pad)
  then obtain q where q: "n + pad_len p n = p * q" by blast
  have "pad_len p n < p" using assms by (rule pad_len_less)
  then have "n + p - 1 = p * q + (p - 1 - pad_len p n)" "p - 1 - pad_len p n < p"
    using q assms by linarith+
  then have "pages p n = q" using assms by (simp add: pages_def div_mult_self4)
  with q show ?thesis by simp
qed

lemma length_paged: "0 < p \<Longrightarrow> length (paged p bs) = p * pages p (length bs)"
  by (simp add: paged_def add_pad_len_pages)

lemma take_paged: "take (length bs) (paged p bs @ rest) = bs"
  by (simp add: paged_def)

lemma image_sections:
  assumes p: "0 < p" and "length hdr \<le> p" "0 < length hdr"
    and n_def: "n = pages p (length kd)" and m_def: "m = pages p (length rd)"
  shows "take (length hdr) (image p hdr kd rd sd) = hdr"
    and "take (length kd) (drop p (image p hdr kd rd sd)) = kd"
    and "take (length rd) (drop (p * (1 + n)) (image p hdr kd rd sd)) = rd"
    and "sd = Some bs \<Longrightarrow> take (length bs) (drop (p * (1 + n + m)) (image p hdr kd rd sd)) = bs"
    and "length (image p hdr kd rd sd) =
      p * (1 + n + m) + (case sd of None \<Rightarrow> 0 | Some bs \<Rightarrow> length bs + pad_len p (length rd))"
proof -
  have "p \<le> length hdr + p - 1" "length hdr + p - 1 < p * 2" using assms by linarith+
  then have one: "pages p (length hdr) = 1"
    using div_nat_eqI [of p 1 "length hdr + p - 1"] by (simp add: pages_def)
  have len: "length (paged p hdr) = p" "length (paged p kd) = p * n" "length (paged p rd) = p * m"
    using p one by (simp_all add: length_paged n_def m_def)
  define rest where "rest = (case sd of None \<Rightarrow> [] | Some bs \<Rightarrow> bs @ zeros (pad_len p (length rd)))"
  have img: "image p hdr kd rd sd = paged p hdr @ paged p kd @ paged p rd @ rest"
    by (simp add: image_def rest_def)
  have drops: "drop p (image p hdr kd rd sd) = paged p kd @ paged p rd @ rest"
    "drop (p * (1 + n)) (image p hdr kd rd sd) = paged p rd @ rest"
    "drop (p * (1 + n + m)) (image p hdr kd rd sd) = rest"
    using len by (simp_all add: img distrib_left)
  show "take (length hdr) (image p hdr kd rd sd) = hdr" by (simp only: img take_paged)
  show "take (length kd) (drop p (image p hdr kd rd sd)) = kd" by (simp only: drops take_paged)
  show "take (length rd) (drop (p * (1 + n)) (image p hdr kd rd sd)) = rd"
    by (simp only: drops take_paged)
  show "take (length bs) (drop (p * (1 + n + m)) (image p hdr kd rd sd)) = bs" if "sd = Some bs"
    by (simp only: drops(3)) (simp add: rest_def that)
  show "length (image p hdr kd rd sd) =
      p * (1 + n + m) + (case sd of None \<Rightarrow> 0 | Some bs \<Rightarrow> length bs + pad_len p (length rd))"
    using len by (simp add: img rest_def distrib_left split: option.split)
qed

lemma second_stage_alignment:
  assumes "0 < p"
  shows "p dvd n + pad_len p k \<longleftrightarrow> n mod p = k mod p"
proof -
  let ?l = "int (pad_len p k)"
  have k: "int p dvd int k + ?l"
    using dvd_add_pad [OF assms, of k] by (metis of_nat_add of_nat_dvd_iff)
  have "p dvd n + pad_len p k \<longleftrightarrow> int p dvd int n + ?l"
    by (metis of_nat_add of_nat_dvd_iff)
  also have "int n + ?l = (int k + ?l) + (int n - int k)" by simp
  also have "int p dvd \<dots> \<longleftrightarrow> int p dvd int n - int k" by (rule dvd_add_right_iff [OF k])
  also have "\<dots> \<longleftrightarrow> int n mod int p = int k mod int p" by (simp only: mod_eq_dvd_iff)
  also have "\<dots> \<longleftrightarrow> n mod p = k mod p" by (simp only: of_nat_mod [symmetric] of_nat_eq_iff)
  finally show ?thesis .
qed

section \<open>Unpacking\<close>

lemma read_padding_drop:
  assumes "page_ok p"
  shows "read_padding f itemsize p = Done (drop (pad_len (unat p) (unat itemsize)) f)"
proof -
  have "0 < sint p" using assms by (auto simp: page_ok_def)
  then show ?thesis
    using padding_count [OF assms [unfolded page_ok_def], of itemsize]
    by (auto simp: read_padding_def Let_def)
qed

lemma put_file_ok:
  assumes "length fn < PATH_MAX" and "creatable d fn" and "length data \<le> room d"
  shows "\<exists>d'. put_file fn data d = Done d' \<and> files d' = (files d)(fn \<mapsto> data) \<and>
    creatable d' = creatable d \<and> room d \<le> room d' + length data"
  using assms by (auto simp: put_file_def os_create_def os_append_def Let_def)

lemma c_string_cmdline:
  assumes "cstring s" and "length s < n"
  shows "c_string (bytes_of s @ zeros (n - length s)) = Done (bytes_of s)"
proof -
  obtain k where "n - length s = Suc k" using assms(2) by (metis Suc_diff_Suc)
  then have z: "zeros (n - length s) = 0 # zeros k" by (simp add: zeros_Suc)
  have "takeWhile (\<lambda>b. b \<noteq> 0) (bytes_of s @ 0 # zeros k) = bytes_of s"
    using zero_notin_bytes_of [OF assms(1)] by (subst takeWhile_append2) auto
  then show ?thesis by (simp add: c_string_def z)
qed

lemma and_then_Done [simp]: "and_then (Done a) f = f a"
  by (simp add: and_then_def)

lemma fread_append [simp]: "fread (length xs) (xs @ ys) = Done (xs, ys)"
  by (simp add: fread_def)

text \<open>The five output files of a run.\<close>

definition unpacked ::
    "up_options \<Rightarrow> string \<Rightarrow> boot_img_hdr \<Rightarrow> byte list \<Rightarrow> byte list \<Rightarrow> byte list \<Rightarrow> (string \<times> byte list) list" where
  "unpacked opts fn h cmd kd rd =
     [(out_name opts fn ''-cmdline'', cmd @ [10]),
      (out_name opts fn ''-base'', hex 8 (kernel_addr h - 0x8000) @ [10]),
      (out_name opts fn ''-pagesize'', hex 8 (page_size h) @ [10]),
      (out_name opts fn ''-zImage'', kd),
      (out_name opts fn ''-ramdisk.gz'', rd)]"

lemma put_file_okE:
  assumes "length fn < PATH_MAX" and "creatable d fn" and "length data \<le> room d"
  obtains d' where "put_file fn data d = Done d'" "files d' = (files d)(fn \<mapsto> data)"
    "creatable d' = creatable d" "room d \<le> room d' + length data"
  using put_file_ok [OF assms] by blast

lemma unpack_image:
  assumes "hdr_ok h" and "page_ok (page_size h)" and "up_pagesize opts = 0"
    and sizes: "kernel_size h = word_of_nat (length kd)" "length kd < 2 ^ 32"
      "ramdisk_size h = word_of_nat (length rd)" "length rd < 2 ^ 32"
    and cmd: "c_string (hdr_cmdline h) = Done cmd"
    and names: "\<forall>(name, data)\<in>set (unpacked opts fn h cmd kd rd). length name < PATH_MAX \<and> creatable d name"
    and room: "length cmd + length kd + length rd + 19 \<le> room d"
  shows "\<exists>d'. unpack opts fn (image (unat (page_size h)) (hdr_bytes h) kd rd sd) d =
      Done (report cmd h, d') \<and>
    files d' = fold (\<lambda>(name, data) m. m(name \<mapsto> data)) (unpacked opts fn h cmd kd rd) (files d)"
proof -
  let ?p = "unat (page_size h)"
  have size: "unat (word_of_nat n :: u32) = n" if "n < 2 ^ 32" for n
    using that by (simp add: unsigned_of_nat take_bit_nat_eq_self)
  have len: "length (hdr_bytes h) = sizeof_hdr" by (rule length_hdr_bytes [OF assms(1)])
  define rest where "rest = (case sd of None \<Rightarrow> [] | Some bs \<Rightarrow> bs @ zeros (pad_len ?p (length rd)))"
  have skip: "read_padding (zeros (pad_len ?p n) @ xs) (word_of_nat n) (page_size h) = Done xs"
    if "n < 2 ^ 32" for n xs
    using read_padding_drop [OF assms(2), of _ "word_of_nat n"] size [OF that] by simp
  let ?o = "out_name opts fn"
  note ok = names [unfolded unpacked_def, simplified]
  obtain d1 where d1: "put_file (?o ''-cmdline'') (cmd @ [10]) d = Done d1"
    "files d1 = (files d)(?o ''-cmdline'' \<mapsto> cmd @ [10])" "creatable d1 = creatable d"
    "room d \<le> room d1 + length (cmd @ [10])"
    by (rule put_file_okE [of "?o ''-cmdline''" d "cmd @ [10]"]) (use ok room in simp_all)
  let ?base = "hex 8 (kernel_addr h - 0x8000) @ [10]" and ?size = "hex 8 (page_size h) @ [10]"
  obtain d2 where d2: "put_file (?o ''-base'') ?base d1 = Done d2"
    "files d2 = (files d1)(?o ''-base'' \<mapsto> ?base)" "creatable d2 = creatable d1"
    "room d1 \<le> room d2 + length ?base"
    by (rule put_file_okE [of "?o ''-base''" d1 ?base]) (use ok room d1 in simp_all)
  obtain d3 where d3: "put_file (?o ''-pagesize'') ?size d2 = Done d3"
    "files d3 = (files d2)(?o ''-pagesize'' \<mapsto> ?size)" "creatable d3 = creatable d2"
    "room d2 \<le> room d3 + length ?size"
    by (rule put_file_okE [of "?o ''-pagesize''" d2 ?size]) (use ok room d1 d2 in simp_all)
  obtain d4 where d4: "put_file (?o ''-zImage'') kd d3 = Done d4"
    "files d4 = (files d3)(?o ''-zImage'' \<mapsto> kd)" "creatable d4 = creatable d3"
    "room d3 \<le> room d4 + length kd"
    by (rule put_file_okE [of "?o ''-zImage''" d3 kd]) (use ok room d1 d2 d3 in simp_all)
  obtain d5 where d5: "put_file (?o ''-ramdisk.gz'') rd d4 = Done d5"
    "files d5 = (files d4)(?o ''-ramdisk.gz'' \<mapsto> rd)"
    by (rule put_file_okE [of "?o ''-ramdisk.gz''" d4 rd]) (use ok room d1 d2 d3 d4 in simp_all)
  have img: "image ?p (hdr_bytes h) kd rd sd =
      hdr_bytes h @ zeros (pad_len ?p sizeof_hdr) @ kd @ zeros (pad_len ?p (length kd)) @ rd @
      zeros (pad_len ?p (length rd)) @ rest"
    by (simp add: image_def paged_def len rest_def)
  have fread: "fread 608 (hdr_bytes h @ xs) = Done (hdr_bytes h, xs)" for xs
    using fread_append [of "hdr_bytes h" xs] len by (simp add: sizeof_hdr_def)
  have "unpack opts fn (image ?p (hdr_bytes h) kd rd sd) d = Done (report cmd h, d5)"
    using d1(1) d2(1) d3(1) d4(1) d5(1) assms(3) sizes skip [of sizeof_hdr]
    by (simp add: unpack_def img fread hdr_of_hdr_bytes [OF assms(1)] cmd skip size
        write_string_to_file_def sizeof_hdr_def del: hex.simps)
  moreover have "files d5 = fold (\<lambda>(name, data) m. m(name \<mapsto> data)) (unpacked opts fn h cmd kd rd) (files d)"
    by (simp add: unpacked_def d5(2) d4(2) d3(2) d2(2) d1(2))
  ultimately show ?thesis by blast
qed

section \<open>A sample run, for the witnesses\<close>

definition sample_disk :: disk where
  "sample_disk = \<lparr>files = [''zImage'' \<mapsto> [1, 2, 3], ''initrd'' \<mapsto> [4, 5], ''boot2'' \<mapsto> [6]],
     creatable = (\<lambda>_. True), room = 100000\<rparr>"

definition sample_args :: "string list" where
  "sample_args = [''--kernel'', ''zImage'', ''--ramdisk'', ''initrd'', ''-o'', ''boot.img'']"

definition sample_options :: mk_options where
  "sample_options = default_options\<lparr>kernel_fn := Some ''zImage'', ramdisk_fn := Some ''initrd'',
     bootimg := Some ''boot.img''\<rparr>"

lemma sample_parse: "parse_args u sample_args default_options = Inr sample_options"
  by (simp add: sample_args_def parse_option_def sample_options_def default_options_def)

lemma sample_parse_second:
  "parse_args u (sample_args @ [''--second'', ''boot2'']) default_options =
     Inr (sample_options\<lparr>second_fn := Some ''boot2''\<rparr>)"
  by (simp add: sample_args_def parse_option_def sample_options_def default_options_def)

lemma sample_inputs:
  "input sample_disk ''zImage'' = Some [1, 2, 3]"
  "ramdisk_input sample_disk ''initrd'' = Some [4, 5]"
  "input sample_disk ''boot2'' = Some [6]"
  by (simp_all add: input_def ramdisk_input_def load_file_def sample_disk_def)

lemma sample_fill:
  "\<exists>h. fill_hdr sample_options = Inr (''boot.img'', ''zImage'', ''initrd'', h)"
  "\<exists>h. fill_hdr (sample_options\<lparr>second_fn := Some ''boot2''\<rparr>) = Inr (''boot.img'', ''zImage'', ''initrd'', h)"
  by (simp_all add: fill_hdr_eq sample_options_def default_options_def)

lemma sample_image_length:
  "length (image 2048 (hdr_bytes (image_hdr sample_options [1, 2, 3] [4, 5] None)) [1, 2, 3] [4, 5] None)
     = 6144"
  "length (image 2048 (hdr_bytes (image_hdr (sample_options\<lparr>second_fn := Some ''boot2''\<rparr>)
     [1, 2, 3] [4, 5] (Some [6]))) [1, 2, 3] [4, 5] (Some [6])) = 8191"
proof -
  have "length (hdr_bytes (image_hdr sample_options [1, 2, 3] [4, 5] None)) = 608"
    "length (hdr_bytes (image_hdr (sample_options\<lparr>second_fn := Some ''boot2''\<rparr>)
      [1, 2, 3] [4, 5] (Some [6]))) = 608"
    by (subst length_hdr_bytes, rule hdr_ok_image_hdr,
        simp_all add: sample_options_def default_options_def sizeof_hdr_def)+
  then show "length (image 2048 (hdr_bytes (image_hdr sample_options [1, 2, 3] [4, 5] None))
       [1, 2, 3] [4, 5] None) = 6144"
    "length (image 2048 (hdr_bytes (image_hdr (sample_options\<lparr>second_fn := Some ''boot2''\<rparr>)
     [1, 2, 3] [4, 5] (Some [6]))) [1, 2, 3] [4, 5] (Some [6])) = 8191"
    by (simp_all add: image_def paged_def pad_len_def)
qed

lemma sample_run:
  "\<exists>d'. mkbootimg_main u fresh_ctx sample_args sample_disk = (Inr (), d') \<and> room d' = 93856 \<and>
     creatable d' = creatable sample_disk"
  "\<exists>d'. mkbootimg_main u fresh_ctx (sample_args @ [''--second'', ''boot2'']) sample_disk = (Inr (), d')"
proof -
  have ctx: "length (buf fresh_ctx) = 64" by (simp add: fresh_ctx_def)
  obtain h where h: "fill_hdr sample_options = Inr (''boot.img'', ''zImage'', ''initrd'', h)"
    using sample_fill(1) by blast
  obtain h2 where h2: "fill_hdr (sample_options\<lparr>second_fn := Some ''boot2''\<rparr>) =
      Inr (''boot.img'', ''zImage'', ''initrd'', h2)"
    using sample_fill(2) by blast
  have s: "second_input sample_disk (second_fn sample_options) = Some None"
    "second_input sample_disk (second_fn (sample_options\<lparr>second_fn := Some ''boot2''\<rparr>)) = Some (Some [6])"
    by (simp_all add: second_input_def sample_inputs) (simp add: sample_options_def default_options_def)
  have p: "unat (pagesize sample_options) = 2048"
    by (simp add: sample_options_def default_options_def)
  note run = mkbootimg_run [OF sample_parse h sample_inputs(1,2) s(1) ctx refl refl]
  show "\<exists>d'. mkbootimg_main u fresh_ctx sample_args sample_disk = (Inr (), d') \<and> room d' = 93856 \<and>
     creatable d' = creatable sample_disk"
    unfolding run by (simp add: p sample_image_length sample_disk_def used_by_def appended_def)
  note run2 = mkbootimg_run [OF sample_parse_second h2 sample_inputs(1,2) s(2) ctx refl refl]
  show "\<exists>d'. mkbootimg_main u fresh_ctx (sample_args @ [''--second'', ''boot2'']) sample_disk = (Inr (), d')"
    unfolding run2 using p sample_image_length(2) by (simp add: sample_disk_def used_by_def)
qed

lemma sample_fun:
  "kernel_fn sample_options = Some ''zImage''" "ramdisk_fn sample_options = Some ''initrd''"
  "bootimg sample_options = Some ''boot.img''" "second_fn sample_options = None"
  "pagesize sample_options = 2048" "cmdline sample_options = []" "length (buf fresh_ctx) = 64"
  by (simp_all add: sample_options_def default_options_def fresh_ctx_def)

section \<open>Properties\<close>

text \<open>
  C13: A successful run of \<open>mkbootimg\<close> creates the output file and changes no other. The file has the layout that
  \<open>bootimg.h\<close> documents, with a header that holds the sizes of the inputs, the addresses, the name, the command line and
  in \<open>id\<close> the SHA-1 of the contents and sizes, if there is no second stage or its size agrees with that of the
  ramdisk modulo the page size. Otherwise it differs from that layout only after the last byte of the second stage:
  it ends with the number of zeros that fills the ramdisk's last page.
\<close>

theorem mkbootimg_writes_image:
  assumes "mkbootimg_main ulong_max ctx args d = (Inr (), d')" and "length (buf ctx) = 64"
  shows "\<exists>opts out kfn rfn kd rd sd p hdr. parse_args ulong_max args default_options = Inr opts \<and>
    bootimg opts = Some out \<and> kernel_fn opts = Some kfn \<and> ramdisk_fn opts = Some rfn \<and>
    input d kfn = Some kd \<and> ramdisk_input d rfn = Some rd \<and>
    second_input d (second_fn opts) = Some sd \<and>
    p = unat (pagesize opts) \<and> hdr = hdr_bytes (image_hdr opts kd rd sd) \<and>
    files d' = (files d)(out \<mapsto>
      (if sd = None \<or> length (the sd) mod p = length rd mod p then bootimg_layout p hdr kd rd sd
       else bootimg_layout p hdr kd rd None @ the sd @ zeros (pad_len p (length rd))))"
proof -
  have else: "image p hdr kd rd sd = bootimg_layout p hdr kd rd None @ the sd @ zeros (pad_len p (length rd))"
    if "sd \<noteq> None" for p hdr kd rd sd
    using that by (auto simp: image_def bootimg_layout_def)
  have "image p hdr kd rd sd =
      (if sd = None \<or> length (the sd) mod p = length rd mod p then bootimg_layout p hdr kd rd sd
       else bootimg_layout p hdr kd rd None @ the sd @ zeros (pad_len p (length rd)))" for p hdr kd rd sd
    using image_layout [of sd p rd hdr kd] else [of sd p hdr kd rd] by auto
  with mkbootimg_success_image [OF assms] show ?thesis
    by auto
qed

theorem mkbootimg_writes_image_witness:
  "\<exists>d'. mkbootimg_main (2 ^ 32 - 1) fresh_ctx sample_args sample_disk = (Inr (), d') \<and>
    files d' = (files sample_disk)(''boot.img'' \<mapsto>
      bootimg_layout 2048 (hdr_bytes (image_hdr sample_options [1, 2, 3] [4, 5] None)) [1, 2, 3] [4, 5] None)"
proof -
  obtain d' where d': "mkbootimg_main (2 ^ 32 - 1) fresh_ctx sample_args sample_disk = (Inr (), d')"
    using sample_run(1) by blast
  from mkbootimg_writes_image [OF d' sample_fun(7)] d' show ?thesis
    by (auto simp: sample_parse sample_fun sample_inputs second_input_def)
qed

text \<open>
  The sections of an image start at page boundaries, at the pages that \<open>bootimg.h\<close> states: the
  kernel at page 1, the ramdisk after the \<open>n\<close> pages of the kernel, the second stage after the \<open>m\<close>
  pages of the ramdisk.
\<close>

theorem mkbootimg_page_layout:
  assumes "mkbootimg_main ulong_max ctx args d = (Inr (), d')" and "length (buf ctx) = 64"
    and "parse_args ulong_max args default_options = Inr opts"
    and "bootimg opts = Some out" and "kernel_fn opts = Some kfn" and "ramdisk_fn opts = Some rfn"
    and "input d kfn = Some kd" and "ramdisk_input d rfn = Some rd"
    and "p = unat (pagesize opts)" and "n = pages p (length kd)" and "m = pages p (length rd)"
  shows "\<exists>img. files d' out = Some img \<and>
    take (length kd) (drop p img) = kd \<and>
    take (length rd) (drop (p * (1 + n)) img) = rd \<and>
    (case second_fn opts of
       None \<Rightarrow> length img = p * (1 + n + m)
     | Some sfn \<Rightarrow> \<exists>sd. input d sfn = Some sd \<and> take (length sd) (drop (p * (1 + n + m)) img) = sd)"
proof -
  obtain sd where run: "second_input d (second_fn opts) = Some sd"
    "files d' = (files d)(out \<mapsto> image p (hdr_bytes (image_hdr opts kd rd sd)) kd rd sd)"
    "length (board opts) < 16" "length (cmdline opts) < 512"
    using mkbootimg_success_image [OF assms(1,2)] assms(3-9) by auto
  have p: "p = 2048 \<or> p = 4096"
    using parse_args_pagesize [OF assms(3)] assms(9)
    by (auto simp: page_ok_def default_options_def)
  have hdr: "length (hdr_bytes (image_hdr opts kd rd sd)) = 608"
    using length_hdr_bytes [OF hdr_ok_image_hdr [OF run(3,4)]] by (simp add: sizeof_hdr_def)
  then have "0 < p" "length (hdr_bytes (image_hdr opts kd rd sd)) \<le> p"
    "0 < length (hdr_bytes (image_hdr opts kd rd sd))" using p by auto
  note sections = image_sections [OF this assms(10,11), of sd]
  show ?thesis
    using run(1,2) sections by (auto simp: second_input_def split: option.splits)
qed

theorem mkbootimg_page_layout_witness:
  "\<exists>d' img. mkbootimg_main (2 ^ 32 - 1) fresh_ctx sample_args sample_disk = (Inr (), d') \<and>
    files d' ''boot.img'' = Some img \<and> length img = 6144 \<and>
    take 3 (drop 2048 img) = [1, 2, 3] \<and> take 2 (drop 4096 img) = [4, 5]"
proof -
  obtain d' where d': "mkbootimg_main (2 ^ 32 - 1) fresh_ctx sample_args sample_disk = (Inr (), d')"
    using sample_run(1) by blast
  have "2048 = unat (pagesize sample_options)" by (simp add: sample_fun)
  from mkbootimg_page_layout [OF d' sample_fun(7) sample_parse sample_fun(3,1,2) sample_inputs(1,2)
      this refl refl] d'
  show ?thesis by (auto simp: sample_fun pages_def numeral_2_eq_2 numeral_3_eq_3)
qed

text \<open>
  C15: A run that fails before writing leaves all files as they are, and one whose write fails
  removes the unfinished image: no partial image is ever left.
\<close>

theorem mkbootimg_failure:
  assumes "mkbootimg_main ulong_max ctx args d = (Inl e, d')" and "length (buf ctx) = 64"
  shows "mk_status e \<noteq> 0 \<and>
    (if e = WriteFailed
     then \<exists>opts out. parse_args ulong_max args default_options = Inr opts \<and>
       bootimg opts = Some out \<and> files d' = (files d)(out := None)
     else d' = d)"
proof -
  have status: "mk_status e \<noteq> 0" by (cases e) simp_all
  show ?thesis
  proof (cases "parse_args ulong_max args default_options")
    case (Inl x)
    then show ?thesis
      using assms(1) status by (cases "x = WriteFailed") (auto simp: mkbootimg_main_def dest: parse_args_error)
  next
    case (Inr opts)
    note opts = Inr
    show ?thesis
    proof (cases "fill_hdr opts")
      case (Inl x)
      then show ?thesis
        using assms(1) status opts by (auto simp: mkbootimg_main_def dest: fill_hdr_error)
    next
      case (Inr y)
      then obtain out kfn rfn h where hdr: "fill_hdr opts = Inr (out, kfn, rfn, h)"
        by (cases y) auto
      show ?thesis
      proof (cases "load_inputs d kfn rfn (second_fn opts) h")
        case (Inl x)
        then show ?thesis
          using assms(1) status opts hdr by (auto simp: mkbootimg_main_def dest: load_inputs_error)
      next
        case (Inr z)
        then obtain kd rd sd where "input d kfn = Some kd" "ramdisk_input d rfn = Some rd"
          "second_input d (second_fn opts) = Some sd"
          by (auto simp: load_inputs_eq split: option.splits)
        note run = mkbootimg_run [OF opts hdr this assms(2) refl refl]
        show ?thesis
          using assms(1) status opts hdr unfolding run
          by (auto simp: appended_def os_unlink_def fill_hdr_eq split: if_splits)
      qed
    qed
  qed
qed

theorem mkbootimg_failure_witness:
  "\<exists>e. mkbootimg_main (2 ^ 32 - 1) fresh_ctx [''--kernel''] sample_disk = (Inl e, sample_disk) \<and>
    mk_status e \<noteq> 0"
proof -
  have run: "mkbootimg_main (2 ^ 32 - 1) fresh_ctx [''--kernel''] sample_disk = (Inl MkUsage, sample_disk)"
    by (simp add: mkbootimg_main_def)
  from mkbootimg_failure [OF run sample_fun(7)] run show ?thesis by blast
qed

text \<open>
  C16: The image of a run with a second stage ends at a page boundary only if the sizes of the second
  stage and of the ramdisk agree modulo the page size: the padding written after the second stage is
  the one that the ramdisk needs.
\<close>

theorem mkbootimg_second_padding:
  assumes "mkbootimg_main ulong_max ctx args d = (Inr (), d')" and "length (buf ctx) = 64"
    and "parse_args ulong_max args default_options = Inr opts"
    and "bootimg opts = Some out" and "kernel_fn opts = Some kfn" and "ramdisk_fn opts = Some rfn"
    and "second_fn opts = Some sfn"
    and "input d kfn = Some kd" and "ramdisk_input d rfn = Some rd" and "input d sfn = Some sd"
    and "p = unat (pagesize opts)" and "files d' out = Some img"
  shows "p dvd length img \<longleftrightarrow> length sd mod p = length rd mod p"
proof -
  have run: "img = image p (hdr_bytes (image_hdr opts kd rd (Some sd))) kd rd (Some sd)"
    "length (board opts) < 16" "length (cmdline opts) < 512"
    using mkbootimg_success_image [OF assms(1,2)] assms(3-12) by (auto simp: second_input_def)
  have p: "p = 2048 \<or> p = 4096"
    using parse_args_pagesize [OF assms(3)] assms(11)
    by (auto simp: page_ok_def default_options_def)
  then have pos: "0 < p" by auto
  have hdr: "length (hdr_bytes (image_hdr opts kd rd (Some sd))) = 608"
    using length_hdr_bytes [OF hdr_ok_image_hdr [OF run(2,3)]] by (simp add: sizeof_hdr_def)
  have "length img = p * (1 + pages p (length kd) + pages p (length rd)) +
      (length sd + pad_len p (length rd))"
    using image_sections(5) [OF pos _ _ refl refl, of "hdr_bytes (image_hdr opts kd rd (Some sd))"
        kd rd "Some sd"] p hdr by (auto simp: run(1))
  then have "p dvd length img \<longleftrightarrow> p dvd length sd + pad_len p (length rd)"
    by (simp only: dvd_add_right_iff [OF dvd_triv_left])
  then show ?thesis by (simp only: second_stage_alignment [OF pos])
qed

theorem mkbootimg_second_padding_witness:
  "\<exists>d' img. mkbootimg_main (2 ^ 32 - 1) fresh_ctx (sample_args @ [''--second'', ''boot2'']) sample_disk =
     (Inr (), d') \<and> files d' ''boot.img'' = Some img \<and> \<not> 2048 dvd length img"
proof -
  let ?opts = "sample_options\<lparr>second_fn := Some ''boot2''\<rparr>"
  obtain d' where d': "mkbootimg_main (2 ^ 32 - 1) fresh_ctx
      (sample_args @ [''--second'', ''boot2'']) sample_disk = (Inr (), d')"
    using sample_run(2) by blast
  obtain img where img: "files d' ''boot.img'' = Some img"
    using mkbootimg_success_image [OF d' sample_fun(7)]
    by (auto simp: sample_parse_second sample_fun)
  have "2048 dvd length img \<longleftrightarrow> length [6 :: byte] mod 2048 = length [4 :: byte, 5] mod 2048"
    by (rule mkbootimg_second_padding [OF d' sample_fun(7) sample_parse_second _ _ _ _
          sample_inputs(1,2,3) _ img]) (simp_all add: sample_fun)
  with d' img show ?thesis by auto
qed

text \<open>
  C14: \<open>unpackbootimg\<close> recovers what \<open>mkbootimg\<close> was given: on the image of a successful run it writes
  the command line, the base address and the page size, the kernel and the ramdisk, unchanged. The premises: it is
  called without a page size of its own, and the output files can be created, with names and contents for which there is room.
\<close>

theorem unpack_mkbootimg:
  assumes "mkbootimg_main ulong_max ctx args d = (Inr (), d')" and "length (buf ctx) = 64"
    and "parse_args ulong_max args default_options = Inr opts"
    and "bootimg opts = Some out" and "kernel_fn opts = Some kfn" and "ramdisk_fn opts = Some rfn"
    and "input d kfn = Some kd" and "ramdisk_input d rfn = Some rd" and "cstring (cmdline opts)"
    and "up_args ulong_max args' up_default_options = Done up" and "up_filename up = Some out"
    and "up_pagesize up = 0"
    and "addrs opts = (k, r, s, t)"
    and "outs = [(out_name up out ''-cmdline'', bytes_of (cmdline opts) @ [10]),
      (out_name up out ''-base'', hex 8 (k - 0x8000) @ [10]),
      (out_name up out ''-pagesize'', hex 8 (pagesize opts) @ [10]),
      (out_name up out ''-zImage'', kd), (out_name up out ''-ramdisk.gz'', rd)]"
    and "\<forall>x\<in>set outs. length (fst x) < PATH_MAX \<and> creatable d' (fst x)"
    and "length (cmdline opts) + length kd + length rd + 19 \<le> room d'"
  shows "\<exists>msg d''. unpackbootimg_main ulong_max args' d' = Done (msg, d'') \<and>
    files d'' = fold (\<lambda>(name, data) m. m(name \<mapsto> data)) outs (files d')"
proof -
  obtain sd where run: "files d' = (files d)(out \<mapsto>
      image (unat (pagesize opts)) (hdr_bytes (image_hdr opts kd rd sd)) kd rd sd)"
    "length (board opts) < 16" "length (cmdline opts) < 512"
    using mkbootimg_success_image [OF assms(1,2)] assms(3-8) by auto
  define h where "h = image_hdr opts kd rd sd"
  have page: "page_ok (pagesize opts)"
    by (rule parse_args_pagesize [OF assms(3)]) (simp add: default_options_def page_ok_def)
  have h: "page_size h = pagesize opts" "kernel_addr h = k"
    "kernel_size h = word_of_nat (length kd)" "ramdisk_size h = word_of_nat (length rd)"
    "hdr_cmdline h = bytes_of (cmdline opts) @ zeros (512 - length (cmdline opts))"
    by (simp_all add: h_def image_hdr_def assms(13) Let_def)
  have outs: "unpacked up out h (bytes_of (cmdline opts)) kd rd = outs"
    by (simp add: unpacked_def h assms(14))
  have "\<exists>d''. unpack up out (image (unat (page_size h)) (hdr_bytes h) kd rd sd) d' =
      Done (report (bytes_of (cmdline opts)) h, d'') \<and>
    files d'' = fold (\<lambda>(name, data) m. m(name \<mapsto> data))
      (unpacked up out h (bytes_of (cmdline opts)) kd rd) (files d')"
  proof (rule unpack_image)
    show "hdr_ok h" unfolding h_def by (rule hdr_ok_image_hdr [OF run(2,3)])
    show "c_string (hdr_cmdline h) = Done (bytes_of (cmdline opts))"
      unfolding h(5) by (rule c_string_cmdline [OF assms(9) run(3)])
    show "\<forall>(name, data)\<in>set (unpacked up out h (bytes_of (cmdline opts)) kd rd).
        length name < PATH_MAX \<and> creatable d' name"
      using assms(15) unfolding outs by auto
  qed (use h page assms(12,16) length_input [OF assms(7)] length_ramdisk_input [OF assms(8)] in simp_all)
  then show ?thesis
    using run(1) unfolding outs h(1) by (auto simp: unpackbootimg_main_def assms(10,11) h_def)
qed

theorem unpack_mkbootimg_witness:
  "\<exists>d' msg d''. mkbootimg_main (2 ^ 32 - 1) fresh_ctx sample_args sample_disk = (Inr (), d') \<and>
    unpackbootimg_main (2 ^ 32 - 1) [''-i'', ''boot.img'', ''-o'', ''out''] d' = Done (msg, d'') \<and>
    files d'' ''out/boot.img-zImage'' = Some [1, 2, 3] \<and>
    files d'' ''out/boot.img-ramdisk.gz'' = Some [4, 5]"
proof -
  obtain d' where d': "mkbootimg_main (2 ^ 32 - 1) fresh_ctx sample_args sample_disk = (Inr (), d')"
    "room d' = 93856" "creatable d' = creatable sample_disk"
    using sample_run(1) by blast
  let ?up = "\<lparr>up_filename = Some ''boot.img'', up_directory = ''out'', up_pagesize = 0\<rparr>"
  have up: "up_args (2 ^ 32 - 1) [''-i'', ''boot.img'', ''-o'', ''out''] up_default_options = Done ?up"
    by (simp add: up_option_def up_default_options_def)
  have addrs: "addrs sample_options = (0x10008000, 0x11000000, 0x10F00000, 0x10000100)"
    by (simp add: sample_options_def default_options_def)
  let ?o = "out_name ?up ''boot.img''"
  let ?outs = "[(?o ''-cmdline'', bytes_of (cmdline sample_options) @ [10]),
    (?o ''-base'', hex 8 (0x10008000 - 0x8000) @ [10]),
    (?o ''-pagesize'', hex 8 (pagesize sample_options) @ [10]),
    (?o ''-zImage'', [1, 2, 3]), (?o ''-ramdisk.gz'', [4, 5])]"
  have "\<exists>msg d''. unpackbootimg_main (2 ^ 32 - 1) [''-i'', ''boot.img'', ''-o'', ''out''] d' = Done (msg, d'') \<and>
    files d'' = fold (\<lambda>(name, data) m. m(name \<mapsto> data)) ?outs (files d')"
    by (rule unpack_mkbootimg [OF d'(1) sample_fun(7) sample_parse sample_fun(3,1,2)
          sample_inputs(1,2) _ up _ _ addrs refl])
      (simp_all add: sample_fun out_name_def base_name_def PATH_MAX_def d' sample_disk_def)
  with d'(1) show ?thesis by (auto simp: out_name_def base_name_def)
qed

text \<open>
  The header reads back from memory: a header whose arrays have the declared sizes takes 608
  bytes, and the fields found at their offsets are its own.
\<close>

theorem boot_img_hdr_round_trip:
  assumes "length (magic h) = 8" and "length (hdr_name h) = BOOT_NAME_SIZE"
    and "length (hdr_cmdline h) = BOOT_ARGS_SIZE" and "length (hdr_id h) = 32"
  shows "length (hdr_bytes h) = sizeof_hdr \<and> hdr_of_bytes (hdr_bytes h) = h"
proof -
  have "hdr_ok h" using assms by (simp add: hdr_ok_def)
  then show ?thesis by (simp add: length_hdr_bytes hdr_of_hdr_bytes)
qed

theorem boot_img_hdr_round_trip_witness: "hdr_of_bytes (hdr_bytes zero_hdr) = zero_hdr"
  using boot_img_hdr_round_trip [of zero_hdr] by (simp add: zero_hdr_def)

end
