(* ===== verification/Md5.thy ===== *)
theory Md5
  imports Hash_Interface
begin

text \<open>
  MD5 and the MD5 based password hash of \<open>cookbook/python2.7/jni/libcrypt/md5.c\<close>. The transformation
  is written four times in the file, from fully unrolled to a single loop, chosen by the
  preprocessor symbol \<open>MD5_SIZE_OVER_SPEED\<close>; all four are modelled.
\<close>

section \<open>Context and byte order\<close>

type_synonym md5_regs = "u32 \<times> u32 \<times> u32 \<times> u32"

text \<open>\<open>count\<close> is the number of bits, its low word first; \<open>buffer\<close> has 64 bytes.\<close>

record MD5Context =
  md5_state :: md5_regs
  md5_count :: "u32 \<times> u32"
  buffer :: "byte list"

definition md5_Encode :: "u32 list \<Rightarrow> byte list" where
  "md5_Encode inp =
     concat (map (\<lambda>w. [ucast (w AND 0xff), ucast (drop_bit 8 w AND 0xff), ucast (drop_bit 16 w AND 0xff),
       ucast (drop_bit 24 w AND 0xff)]) inp)"

definition md5_Decode :: "byte list \<Rightarrow> nat \<Rightarrow> u32 list" where
  "md5_Decode inp len =
     map (\<lambda>j. ucast (inp ! j) OR push_bit 8 (ucast (inp ! (j + 1))) OR
       push_bit 16 (ucast (inp ! (j + 2))) OR push_bit 24 (ucast (inp ! (j + 3))))
       (map (\<lambda>i. 4 * i) [0..<(len + 3) div 4])"

definition state_list :: "md5_regs \<Rightarrow> u32 list" where
  "state_list r = (case r of (a, b, c, d) \<Rightarrow> [a, b, c, d])"

definition md5_Init :: "MD5Context \<Rightarrow> MD5Context" where
  "md5_Init ctx = ctx\<lparr>md5_count := (0, 0),
     md5_state := (0x67452301, 0xefcdab89, 0x98badcfe, 0x10325476)\<rparr>"

section \<open>Basic functions\<close>

definition md5_F :: "u32 \<Rightarrow> u32 \<Rightarrow> u32 \<Rightarrow> u32" where
  "md5_F x y z = (x AND y) OR (NOT x AND z)"

definition md5_G :: "u32 \<Rightarrow> u32 \<Rightarrow> u32 \<Rightarrow> u32" where
  "md5_G x y z = (x AND z) OR (y AND NOT z)"

definition md5_H :: "u32 \<Rightarrow> u32 \<Rightarrow> u32 \<Rightarrow> u32" where
  "md5_H x y z = x XOR y XOR z"

definition md5_I :: "u32 \<Rightarrow> u32 \<Rightarrow> u32 \<Rightarrow> u32" where
  "md5_I x y z = y XOR (x OR NOT z)"

definition ROTATE_LEFT :: "u32 \<Rightarrow> nat \<Rightarrow> u32" where
  "ROTATE_LEFT x n = push_bit n x OR drop_bit (32 - n) x"

text \<open>The macros \<open>FF\<close>, \<open>GG\<close>, \<open>HH\<close> and \<open>II\<close>: the new value of their first argument.\<close>

definition md5_op ::
    "(u32 \<Rightarrow> u32 \<Rightarrow> u32 \<Rightarrow> u32) \<Rightarrow> u32 \<Rightarrow> u32 \<Rightarrow> u32 \<Rightarrow> u32 \<Rightarrow> u32 \<Rightarrow> nat \<Rightarrow> u32 \<Rightarrow> u32" where
  "md5_op f a b c d x s ac =
     (let a = a + (f b c d + x + ac);
          a = ROTATE_LEFT a s
      in a + b)"

section \<open>Tables\<close>

definition md5_S :: "nat list" where
  "md5_S = [7, 12, 17, 22,
     5, 9, 14, 20,
     4, 11, 16, 23,
     6, 10, 15, 21]"

definition md5_C :: "u32 list" where
  "md5_C = [
     0xd76aa478, 0xe8c7b756, 0x242070db, 0xc1bdceee,
     0xf57c0faf, 0x4787c62a, 0xa8304613, 0xfd469501,
     0x698098d8, 0x8b44f7af, 0xffff5bb1, 0x895cd7be,
     0x6b901122, 0xfd987193, 0xa679438e, 0x49b40821,

     0xf61e2562, 0xc040b340, 0x265e5a51, 0xe9b6c7aa,
     0xd62f105d, 0x2441453,  0xd8a1e681, 0xe7d3fbc8,
     0x21e1cde6, 0xc33707d6, 0xf4d50d87, 0x455a14ed,
     0xa9e3e905, 0xfcefa3f8, 0x676f02d9, 0x8d2a4c8a,

     0xfffa3942, 0x8771f681, 0x6d9d6122, 0xfde5380c,
     0xa4beea44, 0x4bdecfa9, 0xf6bb4b60, 0xbebfbc70,
     0x289b7ec6, 0xeaa127fa, 0xd4ef3085, 0x4881d05,
     0xd9d4d039, 0xe6db99e5, 0x1fa27cf8, 0xc4ac5665,

     0xf4292244, 0x432aff97, 0xab9423a7, 0xfc93a039,
     0x655b59c3, 0x8f0ccc92, 0xffeff47d, 0x85845dd1,
     0x6fa87e4f, 0xfe2ce6e0, 0xa3014314, 0x4e0811a1,
     0xf7537e82, 0xbd3af235, 0x2ad7d2bb, 0xeb86d391]"

definition md5_P :: "nat list" where
  "md5_P = [
     0, 1, 2, 3, 4, 5, 6, 7, 8, 9, 10, 11, 12, 13, 14, 15,
     1, 6, 11, 0, 5, 10, 15, 4, 9, 14, 3, 8, 13, 2, 7, 12,
     5, 8, 11, 14, 1, 4, 7, 10, 13, 0, 3, 6, 9, 12, 15, 2,
     0, 7, 14, 5, 12, 3, 10, 1, 8, 15, 6, 13, 4, 11, 2, 9]"

section \<open>The transformation\<close>

text \<open>
  \<open>MD5_SIZE_OVER_SPEED > 2\<close>, the version that is built: one loop with a switch. The pointer \<open>ps\<close> is
  advanced by four at the start of each round.
\<close>

definition round_fun :: "nat \<Rightarrow> u32 \<Rightarrow> u32 \<Rightarrow> u32 \<Rightarrow> u32" where
  "round_fun r =
     (if r = 0 then md5_F else if r = 1 then md5_G else if r = 2 then md5_H else md5_I)"

definition rounds_3_step :: "u32 list \<Rightarrow> nat \<Rightarrow> md5_regs \<Rightarrow> md5_regs" where
  "rounds_3_step x i r =
     (case r of (a, b, c, d) \<Rightarrow>
        let temp = a;
            temp = temp + round_fun (i div 16) b c d;
            temp = temp + (x ! (md5_P ! i) + md5_C ! i);
            temp = ROTATE_LEFT temp (md5_S ! (4 * (i div 16) + i mod 4));
            temp = temp + b
        in (d, temp, b, c))"

definition rounds_3 :: "u32 list \<Rightarrow> md5_regs \<Rightarrow> md5_regs" where
  "rounds_3 x = fold (rounds_3_step x) [0..<64]"

text \<open>
  \<open>MD5_SIZE_OVER_SPEED = 2\<close>: one loop for each round; a call of the macro, then the four variables
  are rotated.
\<close>

definition op_rotate ::
    "(u32 \<Rightarrow> u32 \<Rightarrow> u32 \<Rightarrow> u32) \<Rightarrow> u32 list \<Rightarrow> nat \<times> nat \<times> u32 \<Rightarrow> md5_regs \<Rightarrow> md5_regs" where
  "op_rotate f x p r =
     (case p of (k, s, ac) \<Rightarrow> case r of (a, b, c, d) \<Rightarrow>
        let a = md5_op f a b c d (x ! k) s ac; temp = d; d = c; c = b; b = a; a = temp
        in (a, b, c, d))"

definition rounds_2 :: "u32 list \<Rightarrow> md5_regs \<Rightarrow> md5_regs" where
  "rounds_2 x r0 =
     (let arg = (\<lambda>ps i. (md5_P ! i, md5_S ! (ps + i mod 4), md5_C ! i));
          r1 = fold (\<lambda>i. op_rotate md5_F x (arg 0 i)) [0..<16] r0;
          r2 = fold (\<lambda>i. op_rotate md5_G x (arg 4 i)) [16..<32] r1;
          r3 = fold (\<lambda>i. op_rotate md5_H x (arg 8 i)) [32..<48] r2
      in fold (\<lambda>i. op_rotate md5_I x (arg 12 i)) [48..<64] r3)"

text \<open>Four calls of a macro, one for each variable.\<close>

definition four_ops ::
    "(u32 \<Rightarrow> u32 \<Rightarrow> u32 \<Rightarrow> u32) \<Rightarrow> u32 list \<Rightarrow> nat \<times> nat \<times> u32 \<Rightarrow> nat \<times> nat \<times> u32 \<Rightarrow> nat \<times> nat \<times> u32 \<Rightarrow>
       nat \<times> nat \<times> u32 \<Rightarrow> md5_regs \<Rightarrow> md5_regs" where
  "four_ops f x p0 p1 p2 p3 r =
     (case r of (a, b, c, d) \<Rightarrow>
      case (p0, p1, p2, p3) of ((k0, s0, ac0), (k1, s1, ac1), (k2, s2, ac2), (k3, s3, ac3)) \<Rightarrow>
        let a = md5_op f a b c d (x ! k0) s0 ac0;
            d = md5_op f d a b c (x ! k1) s1 ac1;
            c = md5_op f c d a b (x ! k2) s2 ac2;
            b = md5_op f b c d a (x ! k3) s3 ac3
        in (a, b, c, d))"

text \<open>\<open>MD5_SIZE_OVER_SPEED = 1\<close>: four calls in each iteration, the pointers advancing with each call.\<close>

definition rounds_1 :: "u32 list \<Rightarrow> md5_regs \<Rightarrow> md5_regs" where
  "rounds_1 x r0 =
     (let loop = (\<lambda>f start s0 s1 s2 s3. fold (\<lambda>i.
            let p = start + 4 * i in
            four_ops f x (md5_P ! p, s0, md5_C ! p) (md5_P ! (p + 1), s1, md5_C ! (p + 1))
              (md5_P ! (p + 2), s2, md5_C ! (p + 2)) (md5_P ! (p + 3), s3, md5_C ! (p + 3))) [0..<4]);
          r1 = loop md5_F 0 7 12 17 22 r0;
          r2 = loop md5_G 16 5 9 14 20 r1;
          r3 = loop md5_H 32 4 11 16 23 r2
      in loop md5_I 48 6 10 15 21 r3)"

text \<open>\<open>MD5_SIZE_OVER_SPEED = 0\<close>: the 64 calls written out, four to a line here.\<close>

definition rounds_0_F :: "u32 list \<Rightarrow> md5_regs \<Rightarrow> md5_regs" where
  "rounds_0_F x r0 =
     (let r1 = four_ops md5_F x (0, 7, 0xd76aa478) (1, 12, 0xe8c7b756) (2, 17, 0x242070db) (3, 22, 0xc1bdceee) r0;
          r2 = four_ops md5_F x (4, 7, 0xf57c0faf) (5, 12, 0x4787c62a) (6, 17, 0xa8304613) (7, 22, 0xfd469501) r1;
          r3 = four_ops md5_F x (8, 7, 0x698098d8) (9, 12, 0x8b44f7af) (10, 17, 0xffff5bb1) (11, 22, 0x895cd7be) r2
      in four_ops md5_F x (12, 7, 0x6b901122) (13, 12, 0xfd987193) (14, 17, 0xa679438e) (15, 22, 0x49b40821) r3)"

definition rounds_0_G :: "u32 list \<Rightarrow> md5_regs \<Rightarrow> md5_regs" where
  "rounds_0_G x r0 =
     (let r1 = four_ops md5_G x (1, 5, 0xf61e2562) (6, 9, 0xc040b340) (11, 14, 0x265e5a51) (0, 20, 0xe9b6c7aa) r0;
          r2 = four_ops md5_G x (5, 5, 0xd62f105d) (10, 9, 0x2441453) (15, 14, 0xd8a1e681) (4, 20, 0xe7d3fbc8) r1;
          r3 = four_ops md5_G x (9, 5, 0x21e1cde6) (14, 9, 0xc33707d6) (3, 14, 0xf4d50d87) (8, 20, 0x455a14ed) r2
      in four_ops md5_G x (13, 5, 0xa9e3e905) (2, 9, 0xfcefa3f8) (7, 14, 0x676f02d9) (12, 20, 0x8d2a4c8a) r3)"

definition rounds_0_H :: "u32 list \<Rightarrow> md5_regs \<Rightarrow> md5_regs" where
  "rounds_0_H x r0 =
     (let r1 = four_ops md5_H x (5, 4, 0xfffa3942) (8, 11, 0x8771f681) (11, 16, 0x6d9d6122) (14, 23, 0xfde5380c) r0;
          r2 = four_ops md5_H x (1, 4, 0xa4beea44) (4, 11, 0x4bdecfa9) (7, 16, 0xf6bb4b60) (10, 23, 0xbebfbc70) r1;
          r3 = four_ops md5_H x (13, 4, 0x289b7ec6) (0, 11, 0xeaa127fa) (3, 16, 0xd4ef3085) (6, 23, 0x4881d05) r2
      in four_ops md5_H x (9, 4, 0xd9d4d039) (12, 11, 0xe6db99e5) (15, 16, 0x1fa27cf8) (2, 23, 0xc4ac5665) r3)"

definition rounds_0_I :: "u32 list \<Rightarrow> md5_regs \<Rightarrow> md5_regs" where
  "rounds_0_I x r0 =
     (let r1 = four_ops md5_I x (0, 6, 0xf4292244) (7, 10, 0x432aff97) (14, 15, 0xab9423a7) (5, 21, 0xfc93a039) r0;
          r2 = four_ops md5_I x (12, 6, 0x655b59c3) (3, 10, 0x8f0ccc92) (10, 15, 0xffeff47d) (1, 21, 0x85845dd1) r1;
          r3 = four_ops md5_I x (8, 6, 0x6fa87e4f) (15, 10, 0xfe2ce6e0) (6, 15, 0xa3014314) (13, 21, 0x4e0811a1) r2
      in four_ops md5_I x (4, 6, 0xf7537e82) (11, 10, 0xbd3af235) (2, 15, 0x2ad7d2bb) (9, 21, 0xeb86d391) r3)"

definition rounds_0 :: "u32 list \<Rightarrow> md5_regs \<Rightarrow> md5_regs" where
  "rounds_0 x r = rounds_0_I x (rounds_0_H x (rounds_0_G x (rounds_0_F x r)))"

text \<open>The transformation, with the version of the rounds as an argument.\<close>

definition md5_rounds :: "nat \<Rightarrow> u32 list \<Rightarrow> md5_regs \<Rightarrow> md5_regs" where
  "md5_rounds size_over_speed =
     (if size_over_speed > 2 then rounds_3
      else if size_over_speed > 1 then rounds_2
      else if size_over_speed > 0 then rounds_1
      else rounds_0)"

definition MD5_SIZE_OVER_SPEED :: nat where
  "MD5_SIZE_OVER_SPEED = 3"

definition transform_with :: "nat \<Rightarrow> md5_regs \<Rightarrow> byte list \<Rightarrow> md5_regs" where
  "transform_with v st block =
     (case st of (s0, s1, s2, s3) \<Rightarrow>
      case md5_rounds v (md5_Decode block 64) st of (a, b, c, d) \<Rightarrow>
        (s0 + a, s1 + b, s2 + c, s3 + d))"

definition md5_Transform :: "md5_regs \<Rightarrow> byte list \<Rightarrow> md5_regs" where
  "md5_Transform = transform_with MD5_SIZE_OVER_SPEED"

section \<open>Update, padding, digest\<close>

text \<open>
  The loop over the whole blocks of an input of \<open>n\<close> bytes, from the index \<open>i\<close>, which is an \<open>unsigned int\<close>: \<open>i + 63\<close> wraps
  around. \<open>None\<close> is a loop that does not end; it would read beyond the input first.
\<close>

partial_function (option) transform_loop :: "md5_regs \<Rightarrow> byte list \<Rightarrow> u32 \<Rightarrow> u32 \<Rightarrow> (md5_regs \<times> u32) option" where
  "transform_loop st inp n i =
     (if i + 63 < n then transform_loop (md5_Transform st (drop (unat i) inp)) inp n (i + 64)
      else Some (st, i))"

definition buffer_idx :: "MD5Context \<Rightarrow> nat" where
  "buffer_idx ctx = unat (drop_bit 3 (fst (md5_count ctx)) AND 0x3F)"

text \<open>\<open>memcpy\<close> to an offset of a buffer.\<close>

definition write_at :: "byte list \<Rightarrow> nat \<Rightarrow> byte list \<Rightarrow> byte list" where
  "write_at b i xs = take i b @ xs @ drop (i + length xs) b"

definition add_count :: "u32 \<times> u32 \<Rightarrow> u32 \<Rightarrow> u32 \<times> u32" where
  "add_count cnt inputLen =
     (let c0 = fst cnt + push_bit 3 inputLen;
          c1 = (if c0 < push_bit 3 inputLen then snd cnt + 1 else snd cnt)
      in (c0, c1 + drop_bit 29 inputLen))"

definition md5_Update_word :: "MD5Context \<Rightarrow> byte list \<Rightarrow> MD5Context option" where
  "md5_Update_word ctx inp =
     (let inputLen = word_of_nat (length inp);
          idx = buffer_idx ctx;
          ctx1 = ctx\<lparr>md5_count := add_count (md5_count ctx) inputLen\<rparr>;
          partLen = 64 - idx
      in if word_of_nat partLen \<le> inputLen then
           let buf1 = write_at (buffer ctx) idx (take partLen inp)
           in case transform_loop (md5_Transform (md5_state ctx) buf1) inp inputLen (word_of_nat partLen) of
                None \<Rightarrow> None
              | Some (st, i) \<Rightarrow> Some (ctx1\<lparr>md5_state := st, buffer := write_at buf1 0 (drop (unat i) inp)\<rparr>)
         else Some (ctx1\<lparr>buffer := write_at (buffer ctx) idx inp\<rparr>))"

text \<open>
  The context after a call that returns. Those of this file do: their inputs have at most \<open>2 ^ 32 - 64\<close> bytes
  (lemma \<open>md5_Update_word\<close>).
\<close>

definition md5_Update :: "MD5Context \<Rightarrow> byte list \<Rightarrow> MD5Context" where
  "md5_Update ctx inp = the (md5_Update_word ctx inp)"

definition md5_Pad :: "MD5Context \<Rightarrow> MD5Context" where
  "md5_Pad ctx =
     (let padding = 0x80 # replicate 63 0;
          bits = md5_Encode [fst (md5_count ctx), snd (md5_count ctx)];
          idx = buffer_idx ctx;
          padLen = (if idx < 56 then 56 - idx else 120 - idx)
      in md5_Update (md5_Update ctx (take padLen padding)) bits)"

text \<open>The digest, and the context overwritten with zeros.\<close>

definition md5_Final :: "MD5Context \<Rightarrow> byte list \<times> MD5Context" where
  "md5_Final ctx =
     (md5_Encode (state_list (md5_state (md5_Pad ctx))),
      \<lparr>md5_state = (0, 0, 0, 0), md5_count = (0, 0), buffer = replicate 64 0\<rparr>)"

section \<open>The four versions agree\<close>

lemma rounds_3_step_op:
  "rounds_3_step x i =
     op_rotate (round_fun (i div 16)) x (md5_P ! i, md5_S ! (4 * (i div 16) + i mod 4), md5_C ! i)"
  by (rule ext) (simp add: rounds_3_step_def op_rotate_def md5_op_def Let_def add.assoc split: prod.split)

lemma four_ops_rotate:
  "four_ops f x p0 p1 p2 p3 r = op_rotate f x p3 (op_rotate f x p2 (op_rotate f x p1 (op_rotate f x p0 r)))"
  by (cases p0; cases p1; cases p2; cases p3; cases r) (simp add: four_ops_def op_rotate_def Let_def)

lemma upt_16: "[n..<n + 16] = [n, n + 1, n + 2, n + 3, n + 4, n + 5, n + 6, n + 7, n + 8, n + 9,
    n + 10, n + 11, n + 12, n + 13, n + 14, n + 15]"
  by (simp add: upt_rec)

lemma fold_div_16:
  assumes "\<And>i. i div 16 = r \<Longrightarrow> f i = g i"
  shows "fold f [16 * r..<16 * r + 16] = fold g [16 * r..<16 * r + 16]"
proof (rule ext, rule fold_cong)
  fix i assume "i \<in> set [16 * r..<16 * r + 16]"
  then have "i div 16 = r" by (intro div_nat_eqI) auto
  then show "f i = g i" by (rule assms)
qed simp_all

lemma rounds_2_eq: "rounds_2 = rounds_3"
proof (intro ext)
  fix x r0
  let ?arg = "\<lambda>ps i. (md5_P ! i, md5_S ! (ps + i mod 4), md5_C ! i)"
  have split: "[0..<64] = [0..<16] @ [16..<32] @ [32..<48] @ [48..<(64 :: nat)]"
    by (simp add: upt_rec)
  have "fold (rounds_3_step x) [16 * r..<16 * r + 16] =
      fold (\<lambda>i. op_rotate (round_fun r) x (?arg (4 * r) i)) [16 * r..<16 * r + 16]" for r
    by (rule fold_div_16) (simp add: rounds_3_step_op)
  from this [of 0] this [of 1] this [of 2] this [of 3]
  show "rounds_2 x r0 = rounds_3 x r0"
    unfolding rounds_2_def rounds_3_def split by (simp add: round_fun_def Let_def del: upt.simps upt_rec_numeral)
qed

lemma nth_md5_S [simp]:
  "md5_S ! 0 = 7" "md5_S ! 1 = 12" "md5_S ! 2 = 17" "md5_S ! 3 = 22"
  "md5_S ! 4 = 5" "md5_S ! 5 = 9" "md5_S ! 6 = 14" "md5_S ! 7 = 20"
  "md5_S ! 8 = 4" "md5_S ! 9 = 11" "md5_S ! 10 = 16" "md5_S ! 11 = 23"
  "md5_S ! 12 = 6" "md5_S ! 13 = 10" "md5_S ! 14 = 15" "md5_S ! 15 = 21"
  by (simp_all add: md5_S_def)

lemma rounds_1_eq: "rounds_1 = rounds_2"
proof (intro ext)
  fix x r0
  have four: "[0..<4] = [0, 1, 2, 3 :: nat]" by (simp add: upt_rec)
  have "[0..<16] = [0..<0 + 16]" "[16..<32] = [16..<16 + 16]" "[32..<48] = [32..<32 + 16]"
    "[48..<64] = [48..<48 + (16 :: nat)]" by simp_all
  then show "rounds_1 x r0 = rounds_2 x r0"
    unfolding rounds_1_def rounds_2_def upt_16 four
    by (simp add: four_ops_rotate Let_def numeral_2_eq_2 [symmetric]
        del: upt.simps upt_rec_numeral One_nat_def)
qed

lemma rounds_0_eq: "rounds_0 = rounds_1"
proof (intro ext)
  fix x r0
  have four: "[0..<4] = [0, 1, 2, 3 :: nat]" by (simp add: upt_rec)
  show "rounds_0 x r0 = rounds_1 x r0"
    unfolding rounds_1_def four
    by (simp add: rounds_0_def rounds_0_F_def rounds_0_G_def rounds_0_H_def rounds_0_I_def
        Let_def md5_P_def md5_C_def)
qed

lemma md5_rounds_eq: "md5_rounds v = rounds_3"
  by (simp add: md5_rounds_def rounds_0_eq rounds_1_eq rounds_2_eq)

section \<open>The standard\<close>

text \<open>
  MD5 as RFC 1321 states it: the word used by each step is given by a formula, the rotation by a
  table for each round; \<open>md5_C\<close> is the table \<open>T\<close> of the RFC.
\<close>

definition rfc_index :: "nat \<Rightarrow> nat" where
  "rfc_index t =
     (if t < 16 then t
      else if t < 32 then (5 * t + 1) mod 16
      else if t < 48 then (3 * t + 5) mod 16
      else (7 * t) mod 16)"

definition rfc_shift :: "nat \<Rightarrow> nat" where
  "rfc_shift t = [[7, 12, 17, 22], [5, 9, 14, 20], [4, 11, 16, 23], [6, 10, 15, 21]] ! (t div 16) ! (t mod 4)"

definition rfc_fun :: "nat \<Rightarrow> u32 \<Rightarrow> u32 \<Rightarrow> u32 \<Rightarrow> u32" where
  "rfc_fun t x y z =
     (if t < 16 then (x AND y) OR (NOT x AND z)
      else if t < 32 then (x AND z) OR (y AND NOT z)
      else if t < 48 then x XOR y XOR z
      else y XOR (x OR NOT z))"

definition rfc_step :: "byte list \<Rightarrow> nat \<Rightarrow> md5_regs \<Rightarrow> md5_regs" where
  "rfc_step block t r =
     (case r of (a, b, c, d) \<Rightarrow>
        (d, b + word_rotl (rfc_shift t)
           (a + rfc_fun t b c d + le32 (take 4 (drop (4 * rfc_index t) block)) + md5_C ! t), b, c))"

definition rfc_compress :: "md5_regs \<Rightarrow> byte list \<Rightarrow> md5_regs" where
  "rfc_compress st block =
     (case st of (a, b, c, d) \<Rightarrow>
      case fold (rfc_step block) [0..<64] st of (a', b', c', d') \<Rightarrow> (a + a', b + b', c + c', d + d'))"

definition md5_iv :: md5_regs where
  "md5_iv = (0x67452301, 0xefcdab89, 0x98badcfe, 0x10325476)"

text \<open>The number of bits is taken modulo \<open>2 ^ 64\<close>, low word first.\<close>

definition bit_count :: "nat \<Rightarrow> u32 \<times> u32" where
  "bit_count n = (word_of_nat (8 * n), word_of_nat (8 * n div 2 ^ 32))"

definition md5_padding :: "nat \<Rightarrow> byte list" where
  "md5_padding n = 0x80 # replicate ((119 - n mod 64) mod 64) 0 @
     le32_bytes (fst (bit_count n)) @ le32_bytes (snd (bit_count n))"

definition md5 :: "byte list \<Rightarrow> byte list" where
  "md5 m = concat (map le32_bytes (state_list (foldl rfc_compress md5_iv (blocks (m @ md5_padding (length m))))))"

lemma ucast_and_ff: "(ucast (w AND 0xff) :: byte) = ucast (w :: u32)"
proof -
  have "(0xff :: u32) = mask 8" by (simp add: mask_eq_exp_minus_1)
  then show ?thesis unfolding take_bit_eq_mask [symmetric]
    by (simp only: take_bit_eq_mask [symmetric]) (auto intro!: bit_word_eqI simp: bit_simps)
qed

lemma md5_Encode_le32: "md5_Encode ws = concat (map le32_bytes ws)"
  by (simp add: md5_Encode_def le32_bytes_def [abs_def] ucast_and_ff)

lemma md5_tables:
  "\<forall>t\<in>set [0..<64]. md5_P ! t = rfc_index t \<and> md5_S ! (4 * (t div 16) + t mod 4) = rfc_shift t \<and>
     rfc_index t < 16 \<and> 0 < rfc_shift t \<and> rfc_shift t < 32"
  by code_simp

lemma take_4: "Suc (Suc (Suc i)) < length xs \<Longrightarrow>
    take 4 (drop i xs) = [xs ! i, xs ! Suc i, xs ! Suc (Suc i), xs ! Suc (Suc (Suc i))]"
  by (simp add: numeral_eq_Suc take_Suc_conv_app_nth)

lemma md5_Decode_nth:
  assumes "k < 16" and "64 \<le> length inp"
  shows "md5_Decode inp 64 ! k = le32 (take 4 (drop (4 * k) inp))"
  using assms by (simp add: md5_Decode_def le32_def take_4 or.assoc numeral_3_eq_3)

lemma round_fun_rfc: "t < 64 \<Longrightarrow> round_fun (t div 16) = rfc_fun t"
proof (intro ext)
  fix x y z assume "t < 64"
  consider "t < 16" | "16 \<le> t" "t < 32" | "32 \<le> t" "t < 48" | "48 \<le> t" by linarith
  then show "round_fun (t div 16) x y z = rfc_fun t x y z"
  proof cases
    case 1
    then show ?thesis by (simp add: round_fun_def rfc_fun_def md5_F_def)
  next
    case 2
    then have "t div 16 = 1" by (intro div_nat_eqI) simp_all
    with 2 show ?thesis by (simp add: round_fun_def rfc_fun_def md5_G_def)
  next
    case 3
    then have "t div 16 = 2" by (intro div_nat_eqI) simp_all
    with 3 show ?thesis by (simp add: round_fun_def rfc_fun_def md5_H_def)
  next
    case 4
    then have "t div 16 = 3" using \<open>t < 64\<close> by (intro div_nat_eqI) simp_all
    with 4 show ?thesis by (simp add: round_fun_def rfc_fun_def md5_I_def)
  qed
qed

lemma rounds_3_step_rfc:
  assumes "t < 64" and "64 \<le> length block"
  shows "rounds_3_step (md5_Decode block 64) t r = rfc_step block t r"
proof -
  have "t \<in> set [0..<64]" using assms(1) by simp
  note tab = md5_tables [THEN bspec, OF this]
  then show ?thesis
    using assms
    by (cases r)
      (simp add: rounds_3_step_def rfc_step_def round_fun_rfc md5_Decode_nth ROTATE_LEFT_def
        shifts_word_rotl Let_def add_ac)
qed

lemma transform_with_rfc:
  assumes "64 \<le> length block"
  shows "transform_with v st block = rfc_compress st block"
proof -
  have "rounds_3 (md5_Decode block 64) st = fold (rfc_step block) [0..<64] st"
    unfolding rounds_3_def using assms
    by (intro fold_cong) (auto intro!: ext rounds_3_step_rfc)
  then show ?thesis
    by (simp add: transform_with_def md5_rounds_eq rfc_compress_def del: upt.simps)
qed

text \<open>The compression only looks at the first 64 bytes.\<close>

lemma rfc_compress_take:
  assumes "64 \<le> length block"
  shows "rfc_compress st (take 64 block) = rfc_compress st block"
proof -
  have "rfc_step (take 64 block) t r = rfc_step block t r" if "t < 64" for t r
  proof -
    have "t \<in> set [0..<64]" using that by simp
    from md5_tables [THEN bspec, OF this] have "rfc_index t < 16" by simp
    then have "take 4 (drop (4 * rfc_index t) (take 64 block)) = take 4 (drop (4 * rfc_index t) block)"
      by (simp add: drop_take min_def)
    then show ?thesis by (simp add: rfc_step_def)
  qed
  then have "fold (rfc_step (take 64 block)) [0..<64] st = fold (rfc_step block) [0..<64] st"
    by (intro fold_cong) (auto intro!: ext)
  then show ?thesis by (simp add: rfc_compress_def del: upt.simps)
qed

section \<open>What a context has absorbed\<close>

definition md5_absorbed :: "MD5Context \<Rightarrow> byte list \<Rightarrow> bool" where
  "md5_absorbed ctx m \<longleftrightarrow>
     length (buffer ctx) = 64 \<and> md5_count ctx = bit_count (length m) \<and>
     md5_state ctx = foldl rfc_compress md5_iv (blocks m) \<and>
     take (length m mod 64) (buffer ctx) = leftover m"

definition md5_piece :: "byte list \<Rightarrow> bool" where
  "md5_piece xs \<longleftrightarrow> length xs + 63 < 2 ^ 32"

text \<open>The same on lists, where no index wraps; the loop leaves the rest over.\<close>

function transform_blocks :: "md5_regs \<Rightarrow> byte list \<Rightarrow> md5_regs \<times> byte list" where
  "transform_blocks st inp =
     (if 63 < length inp then transform_blocks (md5_Transform st inp) (drop 64 inp)
      else (st, inp))"
  by pat_completeness auto
termination
  by (relation "measure (\<lambda>(st, inp). length inp)") auto

declare transform_blocks.simps [simp del]

definition update_list :: "MD5Context \<Rightarrow> byte list \<Rightarrow> MD5Context" where
  "update_list ctx inp =
     (let idx = buffer_idx ctx;
          ctx1 = ctx\<lparr>md5_count := add_count (md5_count ctx) (word_of_nat (length inp))\<rparr>;
          partLen = 64 - idx
      in if length inp \<ge> partLen then
           let buf1 = write_at (buffer ctx) idx (take partLen inp);
               (st, rest) = transform_blocks (md5_Transform (md5_state ctx) buf1) (drop partLen inp)
           in ctx1\<lparr>md5_state := st, buffer := write_at buf1 0 rest\<rparr>
         else ctx1\<lparr>buffer := write_at (buffer ctx) idx inp\<rparr>)"

lemma transform_blocks_eq:
  "transform_blocks st inp = (foldl rfc_compress st (blocks inp), leftover inp)"
proof (induction st inp rule: transform_blocks.induct)
  case (1 st inp)
  show ?case
  proof (cases "63 < length inp")
    case True
    then have "64 \<le> length inp" by simp
    then have step: "md5_Transform st inp = rfc_compress st (take 64 inp)"
      by (simp add: md5_Transform_def transform_with_rfc rfc_compress_take)
    have "leftover (take 64 inp) = []" using True by (intro blocks_dvd) simp
    with leftover_append [of "take 64 inp" "drop 64 inp"]
    have "leftover inp = leftover (drop 64 inp)" by simp
    moreover have "blocks inp = take 64 inp # blocks (drop 64 inp)"
      using True by (subst blocks.simps) simp
    ultimately show ?thesis
      using 1 True by (simp add: transform_blocks.simps [of st inp] step)
  next
    case False
    then show ?thesis
      by (simp add: transform_blocks.simps [of st inp] leftover_def)
  qed
qed

text \<open>The loop with the index of 32 bits does the same, unless \<open>i + 63\<close> can wrap around.\<close>

lemma transform_loop_blocks:
  assumes "length inp + 63 < 2 ^ 32" and "unat i \<le> length inp"
  shows "transform_loop st inp (word_of_nat (length inp)) i =
    (case transform_blocks st (drop (unat i) inp) of (st', rest) \<Rightarrow> Some (st', word_of_nat (length inp - length rest)))"
  using assms(2)
proof (induction "length inp - unat i" arbitrary: st i rule: less_induct)
  case less
  have n: "unat (word_of_nat (length inp) :: u32) = length inp"
    using assms(1) by (simp add: unat_word_of_nat_32)
  have i63: "unat (i + 63) = unat i + 63"
    using less.prems assms(1) by (simp add: unat_word_ariths)
  show ?case
  proof (cases "unat i + 63 < length inp")
    case True
    then have i64: "unat (i + 64) = unat i + 64"
      using assms(1) by (simp add: unat_word_ariths)
    have "transform_loop st inp (word_of_nat (length inp)) i =
        transform_loop (md5_Transform st (drop (unat i) inp)) inp (word_of_nat (length inp)) (i + 64)"
      using True by (subst transform_loop.simps) (simp add: word_less_nat_alt n i63)
    also have "\<dots> = (case transform_blocks (md5_Transform st (drop (unat i) inp)) (drop (unat (i + 64)) inp) of
        (st', rest) \<Rightarrow> Some (st', word_of_nat (length inp - length rest)))"
      by (rule less.hyps) (use True i64 in simp_all)
    also have "drop (unat (i + 64)) inp = drop 64 (drop (unat i) inp)"
      by (simp add: i64 add.commute)
    also have "transform_blocks (md5_Transform st (drop (unat i) inp)) (drop 64 (drop (unat i) inp)) = transform_blocks st (drop (unat i) inp)"
      using True by (subst (2) transform_blocks.simps) (simp add: less_diff_conv add.commute)
    finally show ?thesis .
  next
    case False
    then show ?thesis
      using less.prems
      by (subst transform_loop.simps) (simp add: word_less_nat_alt n i63 less_diff_conv add.commute transform_blocks.simps [of st "drop (unat i) inp"])
  qed
qed

lemma drop_suffix: "drop k (xs :: 'a list) = ys \<Longrightarrow> drop (length xs - length ys) xs = ys"
  by (cases "k \<le> length xs") auto

lemma transform_blocks_suffix: "\<exists>k. snd (transform_blocks st inp) = drop k inp"
proof (induction st inp rule: transform_blocks.induct)
  case (1 st inp)
  show ?case
  proof (cases "63 < length inp")
    case True
    with 1 obtain k where "snd (transform_blocks (md5_Transform st inp) (drop 64 inp)) = drop k (drop 64 inp)"
      by blast
    with True show ?thesis
      by (auto simp: transform_blocks.simps [of st inp])
  qed (auto simp: transform_blocks.simps [of st inp] intro: exI [of _ 0])
qed

lemma buffer_idx_less: "buffer_idx ctx < 64"
proof -
  have "(0x3F :: u32) = mask 6" by (simp add: mask_eq_exp_minus_1)
  then have "buffer_idx ctx = take_bit 6 (unat (drop_bit 3 (fst (md5_count ctx))))"
    by (simp only: buffer_idx_def take_bit_eq_mask [symmetric] unsigned_take_bit_eq)
  then show ?thesis
    using take_bit_nat_less_exp [of 6] by simp
qed

lemma md5_Update_word_list:
  assumes "length inp + 63 < 2 ^ 32"
  shows "md5_Update_word ctx inp = Some (update_list ctx inp)"
proof -
  let ?partLen = "64 - buffer_idx ctx"
  have n: "unat (word_of_nat (length inp) :: u32) = length inp" and p: "unat (word_of_nat ?partLen :: u32) = ?partLen"
    using assms by (simp_all add: unat_word_of_nat_32)
  have cond: "(word_of_nat ?partLen \<le> (word_of_nat (length inp) :: u32)) = (?partLen \<le> length inp)"
    by (simp only: word_le_nat_alt n p)
  show ?thesis
  proof (cases "?partLen \<le> length inp")
    case True
    let ?st = "md5_Transform (md5_state ctx) (write_at (buffer ctx) (buffer_idx ctx) (take ?partLen inp))"
    obtain st' rest where tb: "transform_blocks ?st (drop ?partLen inp) = (st', rest)"
      by fastforce
    obtain k where "rest = drop k (drop ?partLen inp)"
      using transform_blocks_suffix [of ?st "drop ?partLen inp"] tb by auto
    then have rest: "drop (length inp - length rest) inp = rest"
      using drop_suffix by (metis drop_drop)
    have small: "unat (word_of_nat (length inp - length rest) :: u32) = length inp - length rest"
      using assms by (simp add: unat_word_of_nat_32)
    have loop: "transform_loop ?st inp (word_of_nat (length inp)) (word_of_nat ?partLen) =
        Some (st', word_of_nat (length inp - length rest))"
      using transform_loop_blocks [OF assms, of "word_of_nat ?partLen" ?st] True by (simp only: p tb prod.case)
    show ?thesis
      using True by (simp only: md5_Update_word_def update_list_def Let_def cond loop tb small rest option.case prod.case if_True)
  next
    case False
    then show ?thesis
      by (simp only: md5_Update_word_def update_list_def Let_def cond if_False)
  qed
qed

lemma md5_Update_word: "length inp + 63 < 2 ^ 32 \<Longrightarrow> md5_Update_word ctx inp = Some (md5_Update ctx inp)"
  by (simp add: md5_Update_def md5_Update_word_list)

lemma md5_Update_list: "md5_piece inp \<Longrightarrow> md5_Update ctx inp = update_list ctx inp"
  by (simp add: md5_Update_def md5_Update_word_list md5_piece_def)

text \<open>
  It can: a piece of \<open>2 ^ 32 - 1\<close> bytes after 63 bytes that wait in the buffer, so that the loop starts at index 1, never
  comes to an end.
\<close>

lemma transform_loop_diverges: "unat i mod 64 = 1 \<Longrightarrow> transform_loop st inp (- 1) i = None"
proof -
  have "n = - 1 \<longrightarrow> unat i mod 64 \<noteq> 1" if "transform_loop st inp n i = Some r" for st inp n i r
  proof (rule transform_loop.raw_induct [where P = "\<lambda>st inp n i r. n = - 1 \<longrightarrow> unat i mod 64 \<noteq> 1", OF _ that], intro impI notI)
    fix loop :: "md5_regs \<Rightarrow> byte list \<Rightarrow> u32 \<Rightarrow> u32 \<Rightarrow> (md5_regs \<times> u32) option" and st inp n i r
    assume IH: "\<And>st inp n i r. loop st inp n i = Some r \<Longrightarrow> n = - 1 \<longrightarrow> unat i mod 64 \<noteq> 1"
      and run: "(if i + 63 < n then loop (md5_Transform st (drop (unat i) inp)) inp n (i + 64) else Some (st, i)) = Some r"
      and n: "n = - 1" and i: "unat i mod 64 = 1"
    have "i + 63 \<noteq> - 1"
    proof
      assume "i + 63 = - 1"
      then have "i = - 64"
        by (simp add: eq_diff_eq [symmetric])
      with i show False
        by simp
    qed
    then have "i + 63 < n"
      unfolding n by (metis order_less_le word_n1_ge)
    with run IH n have "unat (i + 64) mod 64 \<noteq> 1"
      by auto
    moreover have "unat (i + 64) mod 64 = unat i mod 64"
      by (simp add: unat_word_ariths mod_mod_cancel)
    ultimately show False
      by (simp add: i)
  qed
  then show "unat i mod 64 = 1 \<Longrightarrow> ?thesis"
    by (cases "transform_loop st inp (- 1) i") auto
qed

text \<open>The counter adds up with its carry.\<close>

lemma carry_iff:
  "t = a + b - w * c \<Longrightarrow> w * c \<le> a + b \<Longrightarrow> a < w \<Longrightarrow> c = 0 \<or> c = 1 \<Longrightarrow> t < b \<longleftrightarrow> c = 1"
  for a b c t w :: nat
  by auto

lemma add_count_bit_count:
  assumes "k < 2 ^ 32"
  shows "add_count (bit_count n) (word_of_nat k) = bit_count (n + k)"
proof -
  let ?W = "2 ^ 32 :: nat"
  have shift: "push_bit 3 (word_of_nat k :: u32) = word_of_nat (8 * k)"
    by (simp add: push_bit_eq_mult mult.commute)
  have low: "word_of_nat (8 * n) + word_of_nat (8 * k) = (word_of_nat (8 * (n + k)) :: u32)"
    by (simp add: distrib_left)
  let ?carry = "(8 * n mod ?W + 8 * k mod ?W) div ?W"
  have c01: "?carry = 0 \<or> ?carry = 1"
  proof -
    have "8 * n mod ?W + 8 * k mod ?W < 2 * ?W"
    proof -
      have "8 * n mod ?W < ?W" "8 * k mod ?W < ?W" by simp_all
      then show ?thesis by linarith
    qed
    then have "?carry < 2" by (simp add: less_mult_imp_div_less)
    then show ?thesis by linarith
  qed
  have carry: "(word_of_nat (8 * (n + k)) :: u32) < word_of_nat (8 * k) \<longleftrightarrow> ?carry = 1"
  proof -
    have "8 * (n + k) mod ?W = (8 * n mod ?W + 8 * k mod ?W) mod ?W"
      by (simp add: distrib_left mod_add_eq)
    also have "\<dots> = 8 * n mod ?W + 8 * k mod ?W - ?W * ?carry"
      by (simp add: minus_mult_div_eq_mod)
    finally have "8 * (n + k) mod ?W = 8 * n mod ?W + 8 * k mod ?W - ?W * ?carry" .
    moreover have "?W * ?carry \<le> 8 * n mod ?W + 8 * k mod ?W" by simp
    moreover have "8 * n mod ?W < ?W" by simp
    ultimately have "8 * (n + k) mod ?W < 8 * k mod ?W \<longleftrightarrow> ?carry = 1"
      using c01 by (rule carry_iff)
    then show ?thesis by (simp only: word_less_nat_alt unat_word_of_nat_32)
  qed
  have high: "drop_bit 29 (word_of_nat k :: u32) = word_of_nat (8 * k div ?W)"
  proof (rule unsigned_word_eqI)
    have "unat (drop_bit 29 (word_of_nat k :: u32)) = k div 2 ^ 29"
      using assms by (simp only: unat_drop_bit_eq unat_word_of_nat_32 drop_bit_eq_div [of 29 "k mod 2 ^ 32"])
        simp
    also have "k div 2 ^ 29 = 8 * k div ?W" by simp
    also have "8 * k div ?W < ?W" using assms by simp
    then have "8 * k div ?W = 8 * k div ?W mod ?W" by simp
    finally show "unat (drop_bit 29 (word_of_nat k :: u32)) = unat (word_of_nat (8 * k div ?W) :: u32)"
      by (simp only: unat_word_of_nat_32)
  qed
  have sum: "8 * (n + k) div ?W = 8 * n div ?W + ?carry + 8 * k div ?W"
    using div_add1_eq [of "8 * n" "8 * k" ?W] by (simp add: distrib_left)
  show ?thesis
    unfolding add_count_def bit_count_def Let_def fst_conv snd_conv shift low high carry sum
    using c01 by auto
qed

lemma buffer_idx_eq: "md5_count ctx = bit_count n \<Longrightarrow> buffer_idx ctx = n mod 64"
proof -
  assume cnt: "md5_count ctx = bit_count n"
  have "(0x3F :: u32) = mask 6" by (simp add: mask_eq_exp_minus_1)
  then have "buffer_idx ctx = unat (take_bit 6 (drop_bit 3 (word_of_nat (8 * n) :: u32)))"
    by (simp only: buffer_idx_def cnt bit_count_def fst_conv take_bit_eq_mask)
  also have "\<dots> = (8 * n) mod 2 ^ 32 div 2 ^ 3 mod 2 ^ 6"
    by (simp only: unsigned_take_bit_eq unat_drop_bit_eq unat_word_of_nat_32)
      (simp only: take_bit_eq_mod drop_bit_eq_div)
  also have "8 * n mod 2 ^ 32 = 8 * (n mod 2 ^ 29)" by (simp add: mult_mod_right)
  also have "8 * (n mod 2 ^ 29) div 2 ^ 3 mod 2 ^ 6 = n mod 64" by (simp add: mod_mod_cancel)
  finally show ?thesis .
qed

lemma write_at_take: "i \<le> length b \<Longrightarrow> write_at b i xs = take i b @ xs @ drop (i + length xs) b"
  by (simp add: write_at_def)

lemma md5_absorbed_update:
  assumes "md5_absorbed ctx m" and "md5_piece xs"
  shows "md5_absorbed (md5_Update ctx xs) (m @ xs)"
proof -
  let ?t = "leftover m" and ?i = "length m mod 64"
  have len: "length (buffer ctx) = 64" and cnt: "md5_count ctx = bit_count (length m)"
    and st: "md5_state ctx = foldl rfc_compress md5_iv (blocks m)"
    and buf: "take ?i (buffer ctx) = ?t"
    using assms(1) by (simp_all add: md5_absorbed_def)
  have t: "length ?t = ?i" by (rule length_leftover)
  have idx: "buffer_idx ctx = ?i" by (rule buffer_idx_eq [OF cnt])
  have i: "?i < 64" by simp
  have cnt': "add_count (md5_count ctx) (word_of_nat (length xs)) = bit_count (length (m @ xs))"
    using assms(2) by (simp add: cnt add_count_bit_count md5_piece_def)
  have state: "foldl rfc_compress md5_iv (blocks (m @ xs)) =
      foldl rfc_compress (md5_state ctx) (blocks (?t @ xs))"
    by (simp add: blocks_leftover [of m xs] st)
  show ?thesis
  proof (cases "64 - ?i \<le> length xs")
    case True
    let ?p = "64 - ?i"
    define blk where "blk = ?t @ take ?p xs"
    have blk: "length blk = 64" using True t i by (simp add: blk_def)
    have xs: "?t @ xs = blk @ drop ?p xs" by (simp add: blk_def)
    have "write_at (buffer ctx) ?i (take ?p xs) = blk"
      using True len i by (simp add: write_at_def buf blk_def)
    then have upd: "md5_Update ctx xs = ctx\<lparr>md5_count := bit_count (length (m @ xs)),
        md5_state := foldl rfc_compress (rfc_compress (md5_state ctx) blk) (blocks (drop ?p xs)),
        buffer := write_at blk 0 (leftover (drop ?p xs))\<rparr>"
      using True blk
      by (simp add: md5_Update_list [OF assms(2)] update_list_def idx cnt' transform_blocks_eq md5_Transform_def transform_with_rfc
          Let_def)
    have "blocks (?t @ xs) = blk # blocks (drop ?p xs)"
      unfolding xs using blk by (subst blocks.simps) simp
    moreover have "leftover (m @ xs) = leftover (drop ?p xs)"
      using leftover_append [of m xs] leftover_append [of blk "drop ?p xs"] blk
      by (simp add: xs blocks_dvd)
    moreover have "length (leftover (m @ xs)) = length (m @ xs) mod 64" by (rule length_leftover)
    moreover have "length (leftover (drop ?p xs)) < 64" by (simp add: length_leftover)
    ultimately show ?thesis
      using blk by (simp add: md5_absorbed_def upd state write_at_def)
  next
    case False
    then have short: "length (?t @ xs) < 64" using t i by simp
    have upd: "md5_Update ctx xs = ctx\<lparr>md5_count := bit_count (length (m @ xs)),
        buffer := ?t @ xs @ drop (?i + length xs) (buffer ctx)\<rparr>"
      using False by (simp add: md5_Update_list [OF assms(2)] update_list_def idx cnt' write_at_def buf)
    have left: "leftover (m @ xs) = ?t @ xs"
      using leftover_append [of m xs] short by (simp add: leftover_def [of "leftover m @ xs"])
    then have "length (m @ xs) mod 64 = length (?t @ xs)"
      by (metis length_leftover)
    then show ?thesis
      using short len left t by (simp add: md5_absorbed_def upd state)
  qed
qed

text \<open>The padding, and the digest of what was absorbed.\<close>

lemma md5_pad_len:
  "\<forall>i\<in>set [0..<64]. (if i < 56 then 56 - i else 120 - i) = Suc ((119 - i) mod 64) \<and>
     (if i < 56 then 56 - i else 120 - i) \<le> (64 :: nat)"
  by code_simp

lemma md5_absorbed_pad:
  assumes "md5_absorbed ctx m"
  shows "md5_absorbed (md5_Pad ctx) (m @ md5_padding (length m))"
proof -
  let ?i = "length m mod 64" and ?cnt = "md5_count ctx"
  let ?bits = "md5_Encode [fst ?cnt, snd ?cnt]"
  have cnt: "?cnt = bit_count (length m)" using assms by (simp add: md5_absorbed_def)
  have i: "?i < 64" by simp
  let ?n = "if ?i < 56 then 56 - ?i else 120 - ?i"
  have n: "?n = Suc ((119 - ?i) mod 64)" "?n \<le> 64"
  proof -
    have "?i \<in> set [0..<64]" by simp
    from md5_pad_len [THEN bspec, OF this]
    show "?n = Suc ((119 - ?i) mod 64)" "?n \<le> 64" by blast+
  qed
  have pad: "take ?n (0x80 # replicate 63 0) = 0x80 # replicate ((119 - ?i) mod 64) (0 :: byte)"
    unfolding n(1) using mod_less_divisor [of 64 "119 - ?i"] by (simp add: min_def)
  have "md5_Pad ctx = md5_Update (md5_Update ctx (take ?n (0x80 # replicate 63 0))) ?bits"
    by (simp only: md5_Pad_def Let_def buffer_idx_eq [OF cnt])
  moreover have "md5_padding (length m) = take ?n (0x80 # replicate 63 0) @ ?bits"
    unfolding pad by (simp add: md5_padding_def md5_Encode_le32 cnt)
  moreover have "md5_piece (take ?n (0x80 # replicate 63 0))" "md5_piece ?bits"
    using n(2) by (simp_all add: md5_piece_def md5_Encode_def)
  ultimately show ?thesis
    using md5_absorbed_update [OF md5_absorbed_update [OF assms]] by (metis append.assoc)
qed

lemma md5_Final_digest: "md5_absorbed ctx m \<Longrightarrow> fst (md5_Final ctx) = md5 m"
  using md5_absorbed_pad [of ctx m]
  by (simp add: md5_Final_def md5_def md5_absorbed_def md5_Encode_le32)

lemma md5_absorbed_init:
  "length (buffer ctx) = 64 \<Longrightarrow> md5_absorbed (md5_Init ctx) []"
  by (simp add: md5_absorbed_def md5_Init_def bit_count_def md5_iv_def leftover_def)

lemma length_md5 [simp]: "length (md5 m) = 16"
  by (simp add: md5_def state_list_def split: prod.split)

text \<open>MD5 meets the contract of a streaming hash, from whatever context it is started.\<close>

definition blank_ctx :: MD5Context where
  "blank_ctx = \<lparr>md5_state = (0, 0, 0, 0), md5_count = (0, 0), buffer = replicate 64 0\<rparr>"

lemma streaming_md5:
  assumes "length (buffer ctx) = 64"
  shows "streaming_hash (md5_Init ctx) md5_Update (\<lambda>c. fst (md5_Final c)) md5_absorbed md5_piece md5"
  using assms
  by unfold_locales (simp_all add: md5_absorbed_init md5_absorbed_update md5_Final_digest)

interpretation md5: streaming_hash "md5_Init blank_ctx" md5_Update "\<lambda>c. fst (md5_Final c)"
    md5_absorbed md5_piece md5
  by (rule streaming_md5) (simp add: blank_ctx_def)

section \<open>Properties\<close>

text \<open>
  C17: whichever of its four versions the preprocessor selects, the transformation is the compression
  function of RFC 1321 on the first 64 bytes of the block.
\<close>
theorem md5_transform_versions_agree:
  assumes "64 \<le> length block"
  shows "transform_with v st block = rfc_compress st block"
  using assms by (rule transform_with_rfc)

theorem md5_transform_versions_agree_witness:
  "transform_with 0 md5_iv (replicate 64 0) = rfc_compress md5_iv (replicate 64 0) \<and>
   transform_with 1 md5_iv (replicate 64 0) = rfc_compress md5_iv (replicate 64 0) \<and>
   transform_with 2 md5_iv (replicate 64 0) = rfc_compress md5_iv (replicate 64 0)"
  using md5_transform_versions_agree [of "replicate 64 0"] by simp

text \<open>
  C18: a message fed to \<open>__md5_Update\<close> in pieces of at most \<open>2 ^ 32 - 64\<close> bytes, from any context, gives the MD5 digest of
  the concatenation: no loop over a piece runs on, and the context comes out overwritten with zeros. (For longer
  pieces the index of the loop can wrap around, lemma \<open>transform_loop_diverges\<close>.)
\<close>
theorem md5_of_pieces:
  assumes "length (buffer ctx) = 64" and "\<forall>xs\<in>set pieces. length xs \<le> 2 ^ 32 - 64"
  shows "map_option md5_Final (foldl (\<lambda>r xs. Option.bind r (\<lambda>c. md5_Update_word c xs)) (Some (md5_Init ctx)) pieces) =
    Some (md5 (concat pieces), \<lparr>md5_state = (0, 0, 0, 0), md5_count = (0, 0), buffer = replicate 64 0\<rparr>)"
proof -
  have "foldl (\<lambda>r xs. Option.bind r (\<lambda>c. md5_Update_word c xs)) (Some c) pieces = Some (foldl md5_Update c pieces)" for c
    using assms(2) by (induction pieces arbitrary: c) (simp_all add: md5_Update_word)
  moreover have "list_all md5_piece pieces" using assms(2) by (auto simp: list_all_iff md5_piece_def)
  from streaming_hash.hash_pieces [OF streaming_md5 [OF assms(1)] this]
  have "fst (md5_Final (foldl md5_Update (md5_Init ctx) pieces)) = md5 (concat pieces)" .
  ultimately show ?thesis by (simp add: md5_Final_def)
qed

theorem md5_of_pieces_witness:
  "map_option (\<lambda>c. fst (md5_Final c)) (Option.bind (md5_Update_word (md5_Init blank_ctx) (bytes_of ''a''))
       (\<lambda>c. md5_Update_word c (bytes_of ''bc''))) =
     Some (md5 (bytes_of ''abc''))"
  using arg_cong [OF md5_of_pieces [of blank_ctx "[bytes_of ''a'', bytes_of ''bc'']"], of "map_option fst"]
  by (simp add: blank_ctx_def bytes_of_def option.map_comp comp_def)

end
