(* ===== verification/Md5_Crypt.thy ===== *)
theory Md5_Crypt
  imports Md5
begin

text \<open>
  The MD5 based password hash \<open>__md5_crypt\<close> of \<open>cookbook/python2.7/jni/libcrypt/md5.c\<close>, a client of the
  streaming interface of MD5. Password and salt are C strings, as byte lists without the NUL.
\<close>

section \<open>The code\<close>

definition md5_magic :: "byte list" where
  "md5_magic = bytes_of ''$1$''"

definition md5_itoa64 :: "byte list" where
  "md5_itoa64 = bytes_of ''./0123456789ABCDEFGHIJKLMNOPQRSTUVWXYZabcdefghijklmnopqrstuvwxyz''"

fun md5_to64 :: "u32 \<Rightarrow> nat \<Rightarrow> byte list" where
  "md5_to64 v 0 = []"
| "md5_to64 v (Suc n) = md5_itoa64 ! unat (v AND 0x3f) # md5_to64 (drop_bit 6 v) n"

text \<open>The salt proper: after the magic string, up to a dollar sign, at most 8 characters.\<close>

definition true_salt :: "byte list \<Rightarrow> byte list" where
  "true_salt salt =
     (let sp = (if take 3 salt = md5_magic then drop 3 salt else salt)
      in takeWhile (\<lambda>c. c \<noteq> 0 \<and> c \<noteq> 36) (take 8 sp))"

text \<open>As many bytes of \<open>final\<close>, repeated, as the password is long.\<close>

function feed_final :: "MD5Context \<Rightarrow> byte list \<Rightarrow> nat \<Rightarrow> MD5Context" where
  "feed_final ctx fin pl =
     (if pl > 0 then feed_final (md5_Update ctx (take (if pl > 16 then 16 else pl) fin)) fin (pl - 16)
      else ctx)"
  by pat_completeness auto
termination
  by (relation "measure (\<lambda>(ctx, fin, pl). pl)") auto

declare feed_final.simps [simp del]

text \<open>\<open>final\<close> has been cleared by then, so a set bit of the length feeds a zero byte.\<close>

function feed_bits :: "MD5Context \<Rightarrow> byte list \<Rightarrow> byte list \<Rightarrow> nat \<Rightarrow> MD5Context" where
  "feed_bits ctx fin pw i =
     (if i \<noteq> 0 then feed_bits (md5_Update ctx (take 1 (if odd i then fin else pw))) fin pw (i div 2)
      else ctx)"
  by pat_completeness auto
termination
  by (relation "measure (\<lambda>(ctx, fin, pw, i). i)") auto

declare feed_bits.simps [simp del]

definition crypt_round ::
    "byte list \<Rightarrow> byte list \<Rightarrow> nat \<Rightarrow> byte list \<times> MD5Context \<Rightarrow> byte list \<times> MD5Context" where
  "crypt_round pw sp i x =
     (case x of (fin, ctx1) \<Rightarrow>
        let c = md5_Init ctx1;
            c = (if odd i then md5_Update c pw else md5_Update c fin);
            c = (if i mod 3 \<noteq> 0 then md5_Update c sp else c);
            c = (if i mod 7 \<noteq> 0 then md5_Update c pw else c);
            c = (if odd i then md5_Update c fin else md5_Update c pw)
        in md5_Final c)"

definition hash_chars :: "byte list \<Rightarrow> byte list" where
  "hash_chars digest =
     (let final = digest @ [digest ! 5];
          l = (\<lambda>i. push_bit 16 (ucast (final ! i)) OR push_bit 8 (ucast (final ! (i + 6))) OR
                ucast (final ! (i + 12)))
      in concat (map (\<lambda>i. md5_to64 (l i) 4) [0..<5]) @ md5_to64 (ucast (final ! 11)) 2)"

text \<open>\<open>ctx\<close> and \<open>ctx1\<close> are the uninitialised local contexts.\<close>

definition md5_crypt :: "MD5Context \<Rightarrow> MD5Context \<Rightarrow> byte list \<Rightarrow> byte list \<Rightarrow> byte list" where
  "md5_crypt ctx ctx1 pw salt =
     (let sp = true_salt salt;
          ctx = md5_Init ctx;
          ctx = md5_Update ctx pw;
          ctx = md5_Update ctx md5_magic;
          ctx = md5_Update ctx sp;
          ctx1 = md5_Init ctx1;
          ctx1 = md5_Update ctx1 pw;
          ctx1 = md5_Update ctx1 sp;
          ctx1 = md5_Update ctx1 pw;
          (fin, ctx1) = md5_Final ctx1;
          ctx = feed_final ctx fin (length pw);
          fin = replicate 17 0;
          ctx = feed_bits ctx fin pw (length pw);
          (fin, ctx) = md5_Final ctx;
          (fin, ctx1) = fold (crypt_round pw sp) [0..<1000] (fin, ctx1)
      in md5_magic @ sp @ [36] @ hash_chars fin)"

section \<open>What is hashed\<close>

text \<open>The same function on messages instead of contexts.\<close>

definition cycle :: "nat \<Rightarrow> byte list \<Rightarrow> byte list" where
  "cycle n xs = map (\<lambda>i. xs ! (i mod length xs)) [0..<n]"

fun length_bits :: "byte list \<Rightarrow> nat \<Rightarrow> byte list" where
  "length_bits pw n = (if n = 0 then [] else (if odd n then 0 else hd pw) # length_bits pw (n div 2))"

declare length_bits.simps [simp del]

definition first_digest :: "byte list \<Rightarrow> byte list \<Rightarrow> byte list" where
  "first_digest pw sp =
     md5 (pw @ bytes_of ''$1$'' @ sp @ cycle (length pw) (md5 (pw @ sp @ pw)) @
       length_bits pw (length pw))"

definition next_digest :: "byte list \<Rightarrow> byte list \<Rightarrow> nat \<Rightarrow> byte list \<Rightarrow> byte list" where
  "next_digest pw sp i d =
     md5 ((if odd i then pw else d) @ (if i mod 3 \<noteq> 0 then sp else []) @
       (if i mod 7 \<noteq> 0 then pw else []) @ (if odd i then d else pw))"

definition stretched :: "byte list \<Rightarrow> byte list \<Rightarrow> byte list" where
  "stretched pw sp = fold (next_digest pw sp) [0..<1000] (first_digest pw sp)"

lemma cycle_short: "n \<le> length xs \<Longrightarrow> cycle n xs = take n xs"
  by (simp add: cycle_def list_eq_iff_nth_eq)

lemma cycle_long: "length xs \<le> n \<Longrightarrow> cycle n xs = xs @ cycle (n - length xs) xs"
proof -
  assume le: "length xs \<le> n"
  have "map (\<lambda>i. xs ! (i mod length xs)) [length xs..<n] =
      map (\<lambda>i. xs ! (i mod length xs)) [0..<n - length xs]"
    using le by (intro nth_equalityI) simp_all
  moreover have split: "[0..<n] = [0..<length xs] @ [length xs..<n]"
    using le upt_add_eq_append [of 0 "length xs" "n - length xs"] by simp
  moreover have "map (\<lambda>i. xs ! (i mod length xs)) [0..<length xs] = xs"
    by (rule nth_equalityI) simp_all
  ultimately show ?thesis unfolding cycle_def split by (simp only: map_append)
qed

lemma absorbed_feed_final:
  assumes "md5_absorbed ctx m" and "length fin = 16"
  shows "md5_absorbed (feed_final ctx fin pl) (m @ cycle pl fin)"
  using assms
proof (induction ctx fin pl arbitrary: m rule: feed_final.induct)
  case (1 ctx fin pl)
  show ?case
  proof (cases "pl > 0")
    case True
    let ?k = "if pl > 16 then 16 else pl"
    have piece: "md5_piece (take ?k fin)" using "1.prems" by (simp add: md5_piece_def)
    have "take ?k fin @ cycle (pl - 16) fin = cycle pl fin"
      using "1.prems" cycle_long [of fin pl] cycle_short [of pl fin]
      by (auto simp: cycle_short)
    with "1.IH" [OF True md5_absorbed_update [OF "1.prems"(1) piece] "1.prems"(2)] True
    show ?thesis by (simp add: feed_final.simps [of ctx fin pl])
  next
    case False
    with "1.prems" show ?thesis by (simp add: feed_final.simps [of ctx fin 0] cycle_def)
  qed
qed

lemma absorbed_feed_bits:
  assumes "md5_absorbed ctx m" and "take 1 fin = [0]" and "n \<le> length pw"
  shows "md5_absorbed (feed_bits ctx fin pw n) (m @ length_bits pw n)"
  using assms
proof (induction ctx fin pw n arbitrary: m rule: feed_bits.induct)
  case (1 ctx fin pw n)
  show ?case
  proof (cases "n = 0")
    case False
    let ?xs = "take 1 (if odd n then fin else pw)"
    have xs: "?xs = [if odd n then 0 else hd pw]"
      using "1.prems" False by (cases pw) auto
    have piece: "md5_piece ?xs" unfolding xs by (simp add: md5_piece_def)
    have n: "n div 2 \<le> length pw" using "1.prems"(3) by linarith
    from "1.IH" [OF False md5_absorbed_update [OF "1.prems"(1) piece] "1.prems"(2) n]
    show ?thesis
      unfolding xs using False xs
      by (simp add: feed_bits.simps [of ctx fin pw n] length_bits.simps [of pw n])
  next
    case True
    with "1.prems" show ?thesis
      by (simp add: feed_bits.simps [of ctx fin pw 0] length_bits.simps [of pw 0])
  qed
qed

lemma md5_Final_eq: "md5_absorbed ctx m \<Longrightarrow> md5_Final ctx = (md5 m, blank_ctx)"
  using md5_Final_digest [of ctx m] by (simp add: md5_Final_def blank_ctx_def)

lemma crypt_round_digest:
  assumes "md5_piece pw" and "md5_piece sp" and "length d = 16" and "length (buffer ctx) = 64"
  shows "crypt_round pw sp i (d, ctx) = (next_digest pw sp i d, blank_ctx)"
proof -
  have d: "md5_piece d" using assms(3) by (simp add: md5_piece_def)
  note up = md5_absorbed_update
  let ?c = "md5_Init ctx" and ?a = "if odd i then pw else d" and ?b = "if odd i then d else pw"
  have ab: "md5_piece ?a" "md5_piece ?b" using assms(1) d by simp_all
  have 1: "md5_absorbed (md5_Update ?c ?a) ?a"
    using up [OF md5_absorbed_init [OF assms(4)] ab(1)] by simp
  have 2: "md5_absorbed (if i mod 3 \<noteq> 0 then md5_Update c sp else c) (m @ (if i mod 3 \<noteq> 0 then sp else []))"
    if "md5_absorbed c m" for c m
    using up [OF that assms(2)] that by simp
  have 3: "md5_absorbed (if i mod 7 \<noteq> 0 then md5_Update c pw else c) (m @ (if i mod 7 \<noteq> 0 then pw else []))"
    if "md5_absorbed c m" for c m
    using up [OF that assms(1)] that by simp
  from md5_Final_eq [OF up [OF 3 [OF 2 [OF 1]] ab(2)]]
  show ?thesis by (simp add: crypt_round_def next_digest_def Let_def if_distrib [of "md5_Update _"] cong: if_cong)
qed

lemma length_next_digest [simp]: "length (next_digest pw sp i d) = 16"
  by (simp add: next_digest_def)

lemma crypt_rounds_digest:
  assumes "md5_piece pw" and "md5_piece sp" and "length d = 16" and "length (buffer ctx) = 64"
  shows "fst (fold (crypt_round pw sp) is (d, ctx)) = fold (next_digest pw sp) is d"
  using assms(3,4)
proof (induction "is" arbitrary: d ctx)
  case (Cons i "is")
  have "length (buffer blank_ctx) = 64" by (simp add: blank_ctx_def)
  with Cons.IH [of "next_digest pw sp i d" blank_ctx]
  show ?case by (simp add: crypt_round_digest [OF assms(1,2) Cons.prems])
qed simp

lemma length_true_salt: "length (true_salt salt) \<le> 8"
  using length_takeWhile_le [of "\<lambda>c. c \<noteq> 0 \<and> c \<noteq> 36"] by (fastforce simp: true_salt_def Let_def intro: order_trans)

lemma md5_crypt_stretched:
  assumes "length (buffer ctx) = 64" and "length (buffer ctx1) = 64" and "md5_piece pw"
  shows "md5_crypt ctx ctx1 pw salt =
    bytes_of ''$1$'' @ true_salt salt @ bytes_of ''$'' @ hash_chars (stretched pw (true_salt salt))"
proof -
  let ?sp = "true_salt salt"
  note up = md5_absorbed_update
  have sp: "md5_piece ?sp" using length_true_salt [of salt] by (simp add: md5_piece_def)
  have magic: "md5_piece md5_magic" by (simp add: md5_piece_def md5_magic_def)
  have alt: "md5_Final (md5_Update (md5_Update (md5_Update (md5_Init ctx1) pw) ?sp) pw) =
      (md5 (pw @ ?sp @ pw), blank_ctx)"
    using md5_Final_eq [OF up [OF up [OF up [OF md5_absorbed_init [OF assms(2)] assms(3)] sp] assms(3)]]
    by simp
  have start: "md5_absorbed (md5_Update (md5_Update (md5_Update (md5_Init ctx) pw) md5_magic) ?sp)
      (pw @ md5_magic @ ?sp)"
    using up [OF up [OF up [OF md5_absorbed_init [OF assms(1)] assms(3)] magic] sp] by simp
  have zero: "take 1 (replicate 17 (0 :: byte)) = [0]" by (simp add: numeral_eq_Suc)
  have "md5_Final (feed_bits (feed_final (md5_Update (md5_Update (md5_Update (md5_Init ctx) pw)
      md5_magic) ?sp) (md5 (pw @ ?sp @ pw)) (length pw)) (replicate 17 0) pw (length pw)) =
      (first_digest pw ?sp, blank_ctx)"
    using md5_Final_eq [OF absorbed_feed_bits [OF absorbed_feed_final [OF start length_md5] zero order_refl]]
    by (simp add: first_digest_def md5_magic_def)
  moreover have "fst (fold (crypt_round pw ?sp) [0..<1000] (first_digest pw ?sp, blank_ctx)) =
      stretched pw ?sp"
    unfolding stretched_def using assms(3) sp
    by (intro crypt_rounds_digest) (simp_all add: first_digest_def blank_ctx_def)
  ultimately show ?thesis
    by (simp add: md5_crypt_def alt Let_def md5_magic_def split_beta bytes_of_def)
qed

section \<open>The characters of a hash\<close>

lemma length_md5_to64 [simp]: "length (md5_to64 v n) = n"
  by (induction n arbitrary: v) simp_all

lemma length_hash_chars: "length (hash_chars d) = 22"
  by (simp add: hash_chars_def Let_def length_concat comp_def sum_list_triv)

lemma length_itoa64 [simp]: "length md5_itoa64 = 64"
  by (simp add: md5_itoa64_def)

lemma and_3f: "unat (v AND 0x3f :: u32) = unat v mod 64"
proof -
  have "(0x3f :: u32) = mask 6" by (simp add: mask_eq_exp_minus_1)
  then have "v AND 0x3f = take_bit 6 v" by (simp only: take_bit_eq_mask)
  then show ?thesis by (simp only: unsigned_take_bit_eq) (simp add: take_bit_eq_mod)
qed

lemma set_md5_to64: "set (md5_to64 v n) \<subseteq> set md5_itoa64"
proof (induction n arbitrary: v)
  case (Suc n)
  have "md5_itoa64 ! unat (v AND 0x3f) \<in> set md5_itoa64"
    by (rule nth_mem) (simp add: and_3f)
  with Suc show ?case by simp
qed simp

lemma set_hash_chars: "set (hash_chars d) \<subseteq> set md5_itoa64"
  using set_md5_to64 by (fastforce simp: hash_chars_def Let_def)

text \<open>The characters determine the low bits of the number they encode.\<close>

lemma distinct_itoa64: "distinct md5_itoa64"
  by (simp add: md5_itoa64_def bytes_of_def)

lemma itoa64_inj: "i < 64 \<Longrightarrow> j < 64 \<Longrightarrow> md5_itoa64 ! i = md5_itoa64 ! j \<longleftrightarrow> i = j"
  using nth_eq_iff_index_eq [OF distinct_itoa64] by simp

lemma md5_to64_inj:
  "md5_to64 v n = md5_to64 w n \<Longrightarrow> unat v mod 2 ^ (6 * n) = unat w mod 2 ^ (6 * n)"
proof (induction n arbitrary: v w)
  case (Suc n)
  have low: "unat v mod 64 = unat w mod 64"
    using Suc.prems by (simp add: itoa64_inj and_3f)
  have "md5_to64 (drop_bit 6 v) n = md5_to64 (drop_bit 6 w) n" using Suc.prems by simp
  from Suc.IH [OF this] have high: "unat v div 64 mod 2 ^ (6 * n) = unat w div 64 mod 2 ^ (6 * n)"
    by (simp add: unat_drop_bit_eq drop_bit_eq_div [of 6 "unat _"])
  have "unat x mod 2 ^ (6 * Suc n) = 64 * (unat x div 64 mod 2 ^ (6 * n)) + unat x mod 64" for x :: u32
    using mod_mult2_eq [of "unat x" 64 "2 ^ (6 * n)"] by (simp add: power_add)
  with low high show ?case by simp
qed simp

definition three_bytes :: "byte \<Rightarrow> byte \<Rightarrow> byte \<Rightarrow> u32" where
  "three_bytes a b c = push_bit 16 (ucast a) OR push_bit 8 (ucast b) OR ucast c"

lemma bit_byte_8 [simp]: "bit (a :: byte) n \<Longrightarrow> n < 8"
  by (drule bit_imp_le_length) simp

lemma three_bytes_parts:
  "ucast (drop_bit 16 (three_bytes a b c)) = a" "ucast (drop_bit 8 (three_bytes a b c)) = b"
  "ucast (three_bytes a b c) = c" "take_bit 24 (three_bytes a b c) = three_bytes a b c"
  by (rule bit_word_eqI; auto simp: three_bytes_def bit_simps dest: bit_byte_8)+

lemma three_bytes_inj:
  assumes "md5_to64 (three_bytes a b c) 4 = md5_to64 (three_bytes a' b' c') 4"
  shows "a = a' \<and> b = b' \<and> c = c'"
proof -
  have "unat (take_bit 24 (three_bytes a b c)) = unat (take_bit 24 (three_bytes a' b' c'))"
    using md5_to64_inj [OF assms] by (simp only: unsigned_take_bit_eq) (simp add: take_bit_eq_mod)
  then have "three_bytes a b c = three_bytes a' b' c'"
    by (simp only: three_bytes_parts unsigned_word_eqI)
  then show ?thesis by (metis three_bytes_parts)
qed

lemma one_byte_inj:
  assumes "md5_to64 (ucast a) 2 = md5_to64 (ucast b) 2"
  shows "a = (b :: byte)"
proof -
  have "unat (ucast a :: u32) mod 2 ^ 12 = unat (ucast b :: u32) mod 2 ^ 12"
    using md5_to64_inj [OF assms] by simp
  moreover have "unat (ucast x :: u32) = unat x" for x :: byte
  proof -
    have "unat x < 2 ^ 8" using unsigned_less [of x, where ?'a = nat] by simp
    then have "unat x < 2 ^ 32" by simp
    then show ?thesis by (simp add: unsigned_ucast_eq take_bit_nat_eq_self)
  qed
  moreover have "unat x mod 2 ^ 12 = unat x" for x :: byte
    using unsigned_less [of x, where ?'a = nat] by simp
  ultimately show ?thesis by (simp add: word_unat_eq_iff)
qed

lemma hash_chars_words:
  "hash_chars d = (let f = d @ [d ! 5] in
     concat (map (\<lambda>i. md5_to64 (three_bytes (f ! i) (f ! (i + 6)) (f ! (i + 12))) 4) [0..<5]) @
       md5_to64 (ucast (f ! 11)) 2)"
  by (simp add: hash_chars_def three_bytes_def Let_def)

lemma hash_chars_inj:
  assumes "length d = 16" and "length e = 16"
  shows "hash_chars d = hash_chars e \<longleftrightarrow> d = e"
proof
  assume eq: "hash_chars d = hash_chars e"
  let ?w = "\<lambda>d i. three_bytes (d ! i) (d ! (i + 6)) ((d @ [d ! 5]) ! (i + 12))"
  have parts: "hash_chars d = md5_to64 (?w d 0) 4 @ md5_to64 (?w d 1) 4 @ md5_to64 (?w d 2) 4 @
      md5_to64 (?w d 3) 4 @ md5_to64 (?w d 4) 4 @ md5_to64 (ucast (d ! 11)) 2"
    if "length d = 16" for d
  proof -
    have "[0..<5] = [0, 1, 2, 3, 4 :: nat]" by (simp add: upt_rec numeral_eq_Suc)
    with that show ?thesis by (simp add: hash_chars_words Let_def nth_append del: md5_to64.simps upt.simps)
  qed
  have eqs: "md5_to64 (?w d i) 4 = md5_to64 (?w e i) 4" if "i < 5" for i
  proof -
    have "i = 0 \<or> i = 1 \<or> i = 2 \<or> i = 3 \<or> i = 4" using that by linarith
    then show ?thesis
      using eq unfolding parts [OF assms(1)] parts [OF assms(2)] by (auto simp del: md5_to64.simps)
  qed
  have last: "md5_to64 (ucast (d ! 11)) 2 = md5_to64 (ucast (e ! 11)) 2"
    using eq unfolding parts [OF assms(1)] parts [OF assms(2)] by (simp del: md5_to64.simps)
  have "d ! i = e ! i" if "i < 16" for i
  proof -
    consider "i < 5" | "5 < i" "i < 11" | "11 < i" | "i = 5" | "i = 11"
      by (cases i "5 :: nat" rule: linorder_cases; cases i "11 :: nat" rule: linorder_cases; blast)
    then show ?thesis
    proof cases
      case 1 with three_bytes_inj [OF eqs [of i]] show ?thesis by blast
    next
      case 2 with three_bytes_inj [OF eqs [of "i - 6"]] show ?thesis by simp
    next
      case 3 with three_bytes_inj [OF eqs [of "i - 12"]] assms that show ?thesis by (auto simp: nth_append)
    next
      case 4 with three_bytes_inj [OF eqs [of 4]] assms show ?thesis by (simp add: nth_append)
    next
      case 5 with one_byte_inj [OF last] show ?thesis by simp
    qed
  qed
  with assms show "d = e" by (simp add: list_eq_iff_nth_eq)
qed simp

lemma true_salt_again:
  "true_salt (md5_magic @ true_salt salt @ 36 # xs) = true_salt salt"
proof -
  have "takeWhile P (take 8 (takeWhile P (take 8 ys) @ 36 # xs)) = takeWhile P (take 8 ys)"
    if "\<not> P 36" for P and ys :: "byte list"
  proof -
    define zs where "zs = takeWhile P (take 8 ys)"
    have "length zs \<le> 8" and all: "\<forall>x\<in>set zs. P x"
      unfolding zs_def using length_takeWhile_le [of P "take 8 ys"]
      by (auto dest: set_takeWhileD)
    then have "takeWhile P (take 8 (zs @ 36 # xs)) = zs"
      using that by (cases "8 - length zs") (auto simp: takeWhile_append2)
    then show ?thesis by (simp add: zs_def)
  qed
  moreover have "take 3 (md5_magic @ zs) = md5_magic" "drop 3 (md5_magic @ zs) = zs" for zs
    by (simp_all add: md5_magic_def)
  ultimately show ?thesis
    by (simp only: true_salt_def [of "md5_magic @ _"] Let_def if_True simp_thms)
     (simp add: true_salt_def Let_def)
qed

lemma length_stretched: "length (stretched pw sp) = 16"
proof -
  have "length (fold (next_digest pw sp) is d) = 16" if "length d = 16" for d "is"
    using that by (induction "is" arbitrary: d) simp_all
  then show ?thesis by (simp add: stretched_def first_digest_def del: upt.simps)
qed

section \<open>Properties\<close>

text \<open>
  C19: whatever the two local contexts hold at the start, the hash is the magic string, the salt
  proper and the characters of the digest after 1000 rounds, computed on messages alone.
\<close>
theorem md5_crypt_computes:
  assumes "length (buffer ctx) = 64" and "length (buffer ctx1) = 64" and "length pw < 2 ^ 31"
  shows "md5_crypt ctx ctx1 pw salt =
    bytes_of ''$1$'' @ true_salt salt @ bytes_of ''$'' @ hash_chars (stretched pw (true_salt salt))"
  using assms by (intro md5_crypt_stretched) (simp_all add: md5_piece_def)

theorem md5_crypt_computes_witness:
  "md5_crypt blank_ctx blank_ctx (bytes_of ''pw'') (bytes_of ''$1$ab$'') =
    bytes_of ''$1$ab$'' @ hash_chars (stretched (bytes_of ''pw'') (bytes_of ''ab''))"
  using md5_crypt_computes [of blank_ctx blank_ctx "bytes_of ''pw''" "bytes_of ''$1$ab$''"]
  by (simp add: blank_ctx_def true_salt_def bytes_of_def md5_magic_def)

text \<open>
  C20: a password is accepted: hashed with the stored hash as the salt it gives the stored hash again,
  and another password does so exactly if its digest is the same. The digest is not weakened by its
  printing.
\<close>
theorem md5_crypt_verifies:
  assumes "length (buffer ctx) = 64" and "length (buffer ctx1) = 64"
    and "length pw < 2 ^ 31" and "length pw' < 2 ^ 31"
  shows "md5_crypt ctx ctx1 pw' (md5_crypt ctx ctx1 pw salt) = md5_crypt ctx ctx1 pw salt \<longleftrightarrow>
    stretched pw' (true_salt salt) = stretched pw (true_salt salt)"
proof -
  let ?sp = "true_salt salt"
  have eq: "md5_crypt ctx ctx1 p s = md5_magic @ true_salt s @ 36 # hash_chars (stretched p (true_salt s))"
    if "length p < 2 ^ 31" for p s
    using assms(1,2) that
    by (simp add: md5_crypt_stretched md5_piece_def md5_magic_def) (simp add: bytes_of_def)
  have salt: "true_salt (md5_crypt ctx ctx1 pw salt) = ?sp"
    by (simp only: eq [OF assms(3)] true_salt_again)
  have again: "md5_crypt ctx ctx1 pw' (md5_crypt ctx ctx1 pw salt) =
      md5_magic @ ?sp @ 36 # hash_chars (stretched pw' ?sp)"
    using eq [OF assms(4), of "md5_crypt ctx ctx1 pw salt"] unfolding salt .
  show ?thesis
    unfolding again unfolding eq [OF assms(3), of salt] by (simp add: hash_chars_inj length_stretched)
qed

theorem md5_crypt_verifies_witness:
  "md5_crypt blank_ctx blank_ctx (bytes_of ''pw'')
     (md5_crypt blank_ctx blank_ctx (bytes_of ''pw'') (bytes_of ''ab'')) =
   md5_crypt blank_ctx blank_ctx (bytes_of ''pw'') (bytes_of ''ab'')"
  using md5_crypt_verifies [of blank_ctx blank_ctx "bytes_of ''pw''" "bytes_of ''pw''"]
  by (simp add: blank_ctx_def)

lemma true_salt_props: "set (true_salt salt) \<subseteq> set salt - {0, 36}"
proof
  fix c assume "c \<in> set (true_salt salt)"
  then have "c \<in> set (take 8 (if take 3 salt = md5_magic then drop 3 salt else salt)) \<and> c \<noteq> 0 \<and> c \<noteq> 36"
    unfolding true_salt_def Let_def by (rule set_takeWhileD)
  then show "c \<in> set salt - {0, 36}"
    by (auto split: if_splits dest: in_set_takeD in_set_dropD)
qed

lemma itoa64_printable: "0 \<notin> set md5_itoa64" "10 \<notin> set md5_itoa64" "58 \<notin> set md5_itoa64"
  by (simp_all add: md5_itoa64_def bytes_of_def)

text \<open>
  The hash has at most 34 characters, so it fits the static buffer of 35 with its NUL, and it
  contains no NUL; no colon and no line break, which would corrupt a password file, unless the salt has
  one.
\<close>
theorem md5_crypt_printable:
  assumes "length (buffer ctx) = 64" and "length (buffer ctx1) = 64" and "length pw < 2 ^ 31"
    and "c \<in> set (md5_crypt ctx ctx1 pw salt)"
  shows "length (md5_crypt ctx ctx1 pw salt) \<le> 34 \<and> c \<noteq> 0 \<and>
    (c \<in> {58, 10} \<longrightarrow> c \<in> set salt)"
proof -
  have hash: "md5_crypt ctx ctx1 pw salt =
      bytes_of ''$1$'' @ true_salt salt @ bytes_of ''$'' @ hash_chars (stretched pw (true_salt salt))"
    using assms by (intro md5_crypt_stretched) (simp_all add: md5_piece_def)
  have "c \<in> {36, 49} \<or> c \<in> set salt - {0, 36} \<or> c \<in> set md5_itoa64"
    using assms(4) true_salt_props set_hash_chars unfolding hash by (fastforce simp: bytes_of_def)
  then show ?thesis
    using length_true_salt [of salt] itoa64_printable unfolding hash
    by (auto simp: length_hash_chars bytes_of_def)
qed

theorem md5_crypt_printable_witness:
  "length (md5_crypt blank_ctx blank_ctx (bytes_of ''pw'') (bytes_of ''ab'')) \<le> 34"
  using md5_crypt_printable [of blank_ctx blank_ctx "bytes_of ''pw''" 36 "bytes_of ''ab''"]
    md5_crypt_stretched [of blank_ctx blank_ctx "bytes_of ''pw''" "bytes_of ''ab''"]
  by (simp add: blank_ctx_def md5_piece_def bytes_of_def)

end
