(* ===== verification/Des.thy ===== *)
theory Des
  imports Hash_Interface
begin

text \<open>
  The DES of \<open>cookbook/python2.7/jni/libcrypt/des.c\<close>: the tables that \<open>des_init\<close> computes from the
  permutations and S-boxes of the standard, the static variables, and the functions over them. The
  parts disabled by \<open>#if 0\<close> (\<open>des_cipher\<close> and the extended password format) are not modelled.
\<close>

section \<open>Constant tables\<close>

definition ascii64 :: "byte list" where
  "ascii64 = bytes_of ''./0123456789ABCDEFGHIJKLMNOPQRSTUVWXYZabcdefghijklmnopqrstuvwxyz''"

definition IP :: "nat list" where
  "IP = [
     58, 50, 42, 34, 26, 18, 10,  2, 60, 52, 44, 36, 28, 20, 12,  4,
     62, 54, 46, 38, 30, 22, 14,  6, 64, 56, 48, 40, 32, 24, 16,  8,
     57, 49, 41, 33, 25, 17,  9,  1, 59, 51, 43, 35, 27, 19, 11,  3,
     61, 53, 45, 37, 29, 21, 13,  5, 63, 55, 47, 39, 31, 23, 15,  7]"

definition key_perm :: "nat list" where
  "key_perm = [
     57, 49, 41, 33, 25, 17,  9,  1, 58, 50, 42, 34, 26, 18,
     10,  2, 59, 51, 43, 35, 27, 19, 11,  3, 60, 52, 44, 36,
     63, 55, 47, 39, 31, 23, 15,  7, 62, 54, 46, 38, 30, 22,
     14,  6, 61, 53, 45, 37, 29, 21, 13,  5, 28, 20, 12,  4]"

definition key_shifts :: "nat list" where
  "key_shifts = [1, 1, 2, 2, 2, 2, 2, 2, 1, 2, 2, 2, 2, 2, 2, 1]"

definition comp_perm :: "nat list" where
  "comp_perm = [
     14, 17, 11, 24,  1,  5,  3, 28, 15,  6, 21, 10,
     23, 19, 12,  4, 26,  8, 16,  7, 27, 20, 13,  2,
     41, 52, 31, 37, 47, 55, 30, 40, 51, 45, 33, 48,
     44, 49, 39, 56, 34, 53, 46, 42, 50, 36, 29, 32]"

definition sbox :: "byte list list" where
  "sbox = [
     [
       14,  4, 13,  1,  2, 15, 11,  8,  3, 10,  6, 12,  5,  9,  0,  7,
        0, 15,  7,  4, 14,  2, 13,  1, 10,  6, 12, 11,  9,  5,  3,  8,
        4,  1, 14,  8, 13,  6,  2, 11, 15, 12,  9,  7,  3, 10,  5,  0,
       15, 12,  8,  2,  4,  9,  1,  7,  5, 11,  3, 14, 10,  0,  6, 13
     ],
     [
       15,  1,  8, 14,  6, 11,  3,  4,  9,  7,  2, 13, 12,  0,  5, 10,
        3, 13,  4,  7, 15,  2,  8, 14, 12,  0,  1, 10,  6,  9, 11,  5,
        0, 14,  7, 11, 10,  4, 13,  1,  5,  8, 12,  6,  9,  3,  2, 15,
       13,  8, 10,  1,  3, 15,  4,  2, 11,  6,  7, 12,  0,  5, 14,  9
     ],
     [
       10,  0,  9, 14,  6,  3, 15,  5,  1, 13, 12,  7, 11,  4,  2,  8,
       13,  7,  0,  9,  3,  4,  6, 10,  2,  8,  5, 14, 12, 11, 15,  1,
       13,  6,  4,  9,  8, 15,  3,  0, 11,  1,  2, 12,  5, 10, 14,  7,
        1, 10, 13,  0,  6,  9,  8,  7,  4, 15, 14,  3, 11,  5,  2, 12
     ],
     [
        7, 13, 14,  3,  0,  6,  9, 10,  1,  2,  8,  5, 11, 12,  4, 15,
       13,  8, 11,  5,  6, 15,  0,  3,  4,  7,  2, 12,  1, 10, 14,  9,
       10,  6,  9,  0, 12, 11,  7, 13, 15,  1,  3, 14,  5,  2,  8,  4,
        3, 15,  0,  6, 10,  1, 13,  8,  9,  4,  5, 11, 12,  7,  2, 14
     ],
     [
        2, 12,  4,  1,  7, 10, 11,  6,  8,  5,  3, 15, 13,  0, 14,  9,
       14, 11,  2, 12,  4,  7, 13,  1,  5,  0, 15, 10,  3,  9,  8,  6,
        4,  2,  1, 11, 10, 13,  7,  8, 15,  9, 12,  5,  6,  3,  0, 14,
       11,  8, 12,  7,  1, 14,  2, 13,  6, 15,  0,  9, 10,  4,  5,  3
     ],
     [
       12,  1, 10, 15,  9,  2,  6,  8,  0, 13,  3,  4, 14,  7,  5, 11,
       10, 15,  4,  2,  7, 12,  9,  5,  6,  1, 13, 14,  0, 11,  3,  8,
        9, 14, 15,  5,  2,  8, 12,  3,  7,  0,  4, 10,  1, 13, 11,  6,
        4,  3,  2, 12,  9,  5, 15, 10, 11, 14,  1,  7,  6,  0,  8, 13
     ],
     [
        4, 11,  2, 14, 15,  0,  8, 13,  3, 12,  9,  7,  5, 10,  6,  1,
       13,  0, 11,  7,  4,  9,  1, 10, 14,  3,  5, 12,  2, 15,  8,  6,
        1,  4, 11, 13, 12,  3,  7, 14, 10, 15,  6,  8,  0,  5,  9,  2,
        6, 11, 13,  8,  1,  4, 10,  7,  9,  5,  0, 15, 14,  2,  3, 12
     ],
     [
       13,  2,  8,  4,  6, 15, 11,  1, 10,  9,  3, 14,  5,  0, 12,  7,
        1, 15, 13,  8, 10,  3,  7,  4, 12,  5,  6, 11,  0, 14,  9,  2,
        7, 11,  4,  1,  9, 12, 14,  2,  0,  6, 10, 13, 15,  3,  5,  8,
        2,  1, 14,  7,  4, 10,  8, 13, 15, 12,  9,  0,  3,  5,  6, 11
     ]
   ]"

definition pbox :: "nat list" where
  "pbox = [
     16,  7, 20, 21, 29, 12, 28, 17,  1, 15, 23, 26,  5, 18, 31, 10,
      2,  8, 24, 14, 32, 27,  3,  9, 19, 13, 30,  6, 22, 11,  4, 25]"

definition bits32 :: "u32 list" where
  "bits32 = [
     0x80000000, 0x40000000, 0x20000000, 0x10000000,
     0x08000000, 0x04000000, 0x02000000, 0x01000000,
     0x00800000, 0x00400000, 0x00200000, 0x00100000,
     0x00080000, 0x00040000, 0x00020000, 0x00010000,
     0x00008000, 0x00004000, 0x00002000, 0x00001000,
     0x00000800, 0x00000400, 0x00000200, 0x00000100,
     0x00000080, 0x00000040, 0x00000020, 0x00000010,
     0x00000008, 0x00000004, 0x00000002, 0x00000001]"

definition bits8 :: "byte list" where
  "bits8 = [0x80, 0x40, 0x20, 0x10, 0x08, 0x04, 0x02, 0x01]"

text \<open>\<open>bits28\<close> and \<open>bits24\<close> point into \<open>bits32\<close>.\<close>

definition bits28 :: "u32 list" where "bits28 = drop 4 bits32"
definition bits24 :: "u32 list" where "bits24 = drop 4 bits28"

definition ascii_to_bin :: "byte \<Rightarrow> u32" where
  "ascii_to_bin ch =
     (if ch > 122 then 0
      else if ch \<ge> 97 then ucast (ch - 97) + 38
      else if ch > 90 then 0
      else if ch \<ge> 65 then ucast (ch - 65) + 12
      else if ch > 57 then 0
      else if ch \<ge> 46 then ucast (ch - 46)
      else 0)"

section \<open>The computed tables\<close>

text \<open>The static arrays that \<open>des_init\<close> fills.\<close>

record des_tables =
  init_perm :: "nat list"
  final_perm :: "nat list"
  inv_key_perm :: "nat list"
  inv_comp_perm :: "nat list"
  un_pbox :: "nat list"
  m_sbox :: "byte list list"
  psbox :: "u32 list list"
  ip_maskl :: "u32 list list"
  ip_maskr :: "u32 list list"
  fp_maskl :: "u32 list list"
  fp_maskr :: "u32 list list"
  key_perm_maskl :: "u32 list list"
  key_perm_maskr :: "u32 list list"
  comp_maskl :: "u32 list list"
  comp_maskr :: "u32 list list"

text \<open>A loop \<open>for (i = 0; i < n; i++) dst[src[i] - 1] = i\<close>.\<close>

definition invert_into :: "nat list \<Rightarrow> nat list \<Rightarrow> nat list" where
  "invert_into src dst = fold (\<lambda>i p. p[src ! i - 1 := i]) [0..<length src] dst"

definition sbox_index :: "nat \<Rightarrow> nat" where
  "sbox_index j = (j AND 0x20) OR push_bit 4 (j AND 1) OR (drop_bit 1 j AND 0xf)"

definition u_sbox :: "byte list list" where
  "u_sbox = map (\<lambda>i. map (\<lambda>j. sbox ! i ! sbox_index j) [0..<64]) [0..<8]"

text \<open>Entry \<open>(i << 6) | j\<close> of the \<open>b\<close>-th array is written in the order of the two inner loops.\<close>

definition m_sbox_of :: "nat \<Rightarrow> byte list" where
  "m_sbox_of b = concat (map (\<lambda>i. map (\<lambda>j.
     push_bit 4 (u_sbox ! (2 * b) ! i) OR u_sbox ! (2 * b + 1) ! j) [0..<64]) [0..<64])"

text \<open>
  One entry of an OR-mask array: for each bit of the index \<open>i\<close> that is set, from \<open>bits8[off]\<close> on, the
  mask of its output bit is added; \<open>dest\<close> is the mask, zero for a bit that goes elsewhere.
\<close>

definition or_mask :: "nat \<Rightarrow> (nat \<Rightarrow> u32) \<Rightarrow> byte \<Rightarrow> u32" where
  "or_mask off dest i = fold (\<lambda>j m. if i AND bits8 ! (j + off) \<noteq> 0 then m OR dest j else m) [0..<8 - off] 0"

definition mask_table :: "nat \<Rightarrow> nat \<Rightarrow> nat \<Rightarrow> (nat \<Rightarrow> nat \<Rightarrow> u32) \<Rightarrow> u32 list list" where
  "mask_table n off len dest =
     map (\<lambda>k. map (\<lambda>i. or_mask off (dest k) (word_of_nat i)) [0..<len]) [0..<n]"

definition half32 :: "bool \<Rightarrow> nat \<Rightarrow> u32" where
  "half32 left obit =
     (if obit < 32 then (if left then bits32 ! obit else 0)
      else (if left then 0 else bits32 ! (obit - 32)))"

definition half28 :: "bool \<Rightarrow> nat \<Rightarrow> u32" where
  "half28 left obit =
     (if obit = 255 then 0
      else if obit < 28 then (if left then bits28 ! obit else 0)
      else (if left then 0 else bits28 ! (obit - 28)))"

definition half24 :: "bool \<Rightarrow> nat \<Rightarrow> u32" where
  "half24 left obit =
     (if obit = 255 then 0
      else if obit < 24 then (if left then bits24 ! obit else 0)
      else (if left then 0 else bits24 ! (obit - 24)))"

definition build_tables :: "des_tables" where
  "build_tables =
     (let ip = invert_into IP (replicate 64 0);
          fp = map (\<lambda>i. IP ! i - 1) [0..<64];
          ikp = invert_into key_perm (replicate 64 255);
          icp = invert_into comp_perm (replicate 56 255);
          upb = invert_into pbox (replicate 32 0)
      in \<lparr>init_perm = ip, final_perm = fp, inv_key_perm = ikp, inv_comp_perm = icp, un_pbox = upb,
          m_sbox = map m_sbox_of [0..<4],
          psbox = mask_table 4 0 256 (\<lambda>b j. bits32 ! (upb ! (8 * b + j))),
          ip_maskl = mask_table 8 0 256 (\<lambda>k j. half32 True (ip ! (8 * k + j))),
          ip_maskr = mask_table 8 0 256 (\<lambda>k j. half32 False (ip ! (8 * k + j))),
          fp_maskl = mask_table 8 0 256 (\<lambda>k j. half32 True (fp ! (8 * k + j))),
          fp_maskr = mask_table 8 0 256 (\<lambda>k j. half32 False (fp ! (8 * k + j))),
          key_perm_maskl = mask_table 8 1 128 (\<lambda>k j. half28 True (ikp ! (8 * k + j))),
          key_perm_maskr = mask_table 8 1 128 (\<lambda>k j. half28 False (ikp ! (8 * k + j))),
          comp_maskl = mask_table 8 1 128 (\<lambda>k j. half24 True (icp ! (7 * k + j))),
          comp_maskr = mask_table 8 1 128 (\<lambda>k j. half24 False (icp ! (7 * k + j)))\<rparr>)"

section \<open>The static variables\<close>

record des_state =
  des_initialised :: bool
  tables :: des_tables
  saltbits :: u32
  old_salt :: u32
  old_rawkey0 :: u32
  old_rawkey1 :: u32
  en_keysl :: "u32 list"
  en_keysr :: "u32 list"
  de_keysl :: "u32 list"
  de_keysr :: "u32 list"

text \<open>At program start all of them are zero.\<close>

definition zero_tables :: des_tables where
  "zero_tables =
     (let z = (\<lambda>k n. replicate k (replicate n 0)) in
      \<lparr>init_perm = replicate 64 0, final_perm = replicate 64 0, inv_key_perm = replicate 64 0,
       inv_comp_perm = replicate 56 0, un_pbox = replicate 32 0,
       m_sbox = replicate 4 (replicate 4096 0), psbox = z 4 256,
       ip_maskl = z 8 256, ip_maskr = z 8 256, fp_maskl = z 8 256, fp_maskr = z 8 256,
       key_perm_maskl = z 8 128, key_perm_maskr = z 8 128, comp_maskl = z 8 128, comp_maskr = z 8 128\<rparr>)"

definition start_state :: des_state where
  "start_state = \<lparr>des_initialised = False, tables = zero_tables, saltbits = 0, old_salt = 0,
     old_rawkey0 = 0, old_rawkey1 = 0, en_keysl = replicate 16 0, en_keysr = replicate 16 0,
     de_keysl = replicate 16 0, de_keysr = replicate 16 0\<rparr>"

definition des_init :: "des_state \<Rightarrow> des_state" where
  "des_init st =
     (if des_initialised st then st
      else st\<lparr>old_rawkey0 := 0, old_rawkey1 := 0, saltbits := 0, old_salt := 0,
        tables := build_tables, des_initialised := True\<rparr>)"

definition salt_loop :: "u32 \<Rightarrow> u32" where
  "salt_loop salt = fold (\<lambda>i s. if salt AND push_bit i 1 \<noteq> 0 then s OR drop_bit i 0x800000 else s) [0..<24] 0"

definition setup_salt :: "u32 \<Rightarrow> des_state \<Rightarrow> des_state" where
  "setup_salt salt st =
     (if salt = old_salt st then st else st\<lparr>old_salt := salt, saltbits := salt_loop salt\<rparr>)"

section \<open>The key schedule\<close>

text \<open>The eight lookups by the upper seven bits of each byte of the key.\<close>

definition key_lookup :: "u32 list list \<Rightarrow> u32 \<Rightarrow> u32 \<Rightarrow> u32" where
  "key_lookup t rawkey0 rawkey1 =
     t ! 0 ! unat (drop_bit 25 rawkey0) OR
     t ! 1 ! unat (drop_bit 17 rawkey0 AND 0x7f) OR
     t ! 2 ! unat (drop_bit 9 rawkey0 AND 0x7f) OR
     t ! 3 ! unat (drop_bit 1 rawkey0 AND 0x7f) OR
     t ! 4 ! unat (drop_bit 25 rawkey1) OR
     t ! 5 ! unat (drop_bit 17 rawkey1 AND 0x7f) OR
     t ! 6 ! unat (drop_bit 9 rawkey1 AND 0x7f) OR
     t ! 7 ! unat (drop_bit 1 rawkey1 AND 0x7f)"

definition comp_lookup :: "u32 list list \<Rightarrow> u32 \<Rightarrow> u32 \<Rightarrow> u32" where
  "comp_lookup t t0 t1 =
     t ! 0 ! unat (drop_bit 21 t0 AND 0x7f) OR
     t ! 1 ! unat (drop_bit 14 t0 AND 0x7f) OR
     t ! 2 ! unat (drop_bit 7 t0 AND 0x7f) OR
     t ! 3 ! unat (t0 AND 0x7f) OR
     t ! 4 ! unat (drop_bit 21 t1 AND 0x7f) OR
     t ! 5 ! unat (drop_bit 14 t1 AND 0x7f) OR
     t ! 6 ! unat (drop_bit 7 t1 AND 0x7f) OR
     t ! 7 ! unat (t1 AND 0x7f)"

definition rotate28 :: "nat \<Rightarrow> u32 \<Rightarrow> u32" where
  "rotate28 shifts k = push_bit shifts k OR drop_bit (28 - shifts) k"

definition key_round ::
    "des_tables \<Rightarrow> u32 \<Rightarrow> u32 \<Rightarrow> nat \<Rightarrow> nat \<times> des_state \<Rightarrow> nat \<times> des_state" where
  "key_round tab k0 k1 r x =
     (case x of (shifts, st) \<Rightarrow>
        let shifts = shifts + key_shifts ! r;
            t0 = rotate28 shifts k0;
            t1 = rotate28 shifts k1;
            l = comp_lookup (comp_maskl tab) t0 t1;
            r' = comp_lookup (comp_maskr tab) t0 t1
        in (shifts, st\<lparr>de_keysl := (de_keysl st)[15 - r := l], en_keysl := (en_keysl st)[r := l],
              de_keysr := (de_keysr st)[15 - r := r'], en_keysr := (en_keysr st)[r := r']\<rparr>))"

text \<open>\<open>key\<close> has 8 bytes; \<open>ntohl\<close> of a word read from memory is the word in big-endian order.\<close>

definition des_setkey :: "byte list \<Rightarrow> des_state \<Rightarrow> des_state" where
  "des_setkey key st0 =
     (let st = des_init st0;
          rawkey0 = be32 (take 4 key);
          rawkey1 = be32 (take 4 (drop 4 key))
      in if rawkey0 OR rawkey1 \<noteq> 0 \<and> rawkey0 = old_rawkey0 st \<and> rawkey1 = old_rawkey1 st then st
         else
           let st = st\<lparr>old_rawkey0 := rawkey0, old_rawkey1 := rawkey1\<rparr>;
               k0 = key_lookup (key_perm_maskl (tables st)) rawkey0 rawkey1;
               k1 = key_lookup (key_perm_maskr (tables st)) rawkey0 rawkey1
           in snd (fold (key_round (tables st) k0 k1) [0..<16] (0, st)))"

section \<open>The cipher\<close>

definition byte_lookup :: "u32 list list \<Rightarrow> u32 \<Rightarrow> u32 \<Rightarrow> u32" where
  "byte_lookup t l r =
     t ! 0 ! unat (drop_bit 24 l) OR
     t ! 1 ! unat (drop_bit 16 l AND 0xff) OR
     t ! 2 ! unat (drop_bit 8 l AND 0xff) OR
     t ! 3 ! unat (l AND 0xff) OR
     t ! 4 ! unat (drop_bit 24 r) OR
     t ! 5 ! unat (drop_bit 16 r AND 0xff) OR
     t ! 6 ! unat (drop_bit 8 r AND 0xff) OR
     t ! 7 ! unat (r AND 0xff)"

definition expand_l :: "u32 \<Rightarrow> u32" where
  "expand_l r =
     push_bit 23 (r AND 0x00000001) OR
     drop_bit 9 (r AND 0xf8000000) OR
     drop_bit 11 (r AND 0x1f800000) OR
     drop_bit 13 (r AND 0x01f80000) OR
     drop_bit 15 (r AND 0x001f8000)"

definition expand_r :: "u32 \<Rightarrow> u32" where
  "expand_r r =
     push_bit 7 (r AND 0x0001f800) OR
     push_bit 5 (r AND 0x00001f80) OR
     push_bit 3 (r AND 0x000001f8) OR
     push_bit 1 (r AND 0x0000001f) OR
     drop_bit 31 (r AND 0x80000000)"

text \<open>The value of \<open>f\<close> before it is combined with \<open>l\<close>.\<close>

definition des_f :: "des_tables \<Rightarrow> u32 \<Rightarrow> u32 \<times> u32 \<Rightarrow> u32 \<Rightarrow> u32" where
  "des_f tab salt k r =
     (case k of (kl, kr) \<Rightarrow>
        let r48l = expand_l r;
            r48r = expand_r r;
            f = (r48l XOR r48r) AND salt;
            r48l = r48l XOR (f XOR kl);
            r48r = r48r XOR (f XOR kr)
        in psbox tab ! 0 ! unat (m_sbox tab ! 0 ! unat (drop_bit 12 r48l)) OR
           psbox tab ! 1 ! unat (m_sbox tab ! 1 ! unat (r48l AND 0xfff)) OR
           psbox tab ! 2 ! unat (m_sbox tab ! 2 ! unat (drop_bit 12 r48r)) OR
           psbox tab ! 3 ! unat (m_sbox tab ! 3 ! unat (r48r AND 0xfff)))"

definition des_round :: "des_tables \<Rightarrow> u32 \<Rightarrow> u32 \<times> u32 \<Rightarrow> u32 \<times> u32 \<Rightarrow> u32 \<times> u32" where
  "des_round tab salt k x = (case x of (l, r) \<Rightarrow> let f = des_f tab salt k r; f = f XOR l in (r, f))"

text \<open>The sixteen rounds; \<open>f\<close> is then the new \<open>r\<close>, so the last two assignments exchange the halves.\<close>

definition des_pass :: "des_tables \<Rightarrow> u32 \<Rightarrow> (u32 \<times> u32) list \<Rightarrow> u32 \<times> u32 \<Rightarrow> u32 \<times> u32" where
  "des_pass tab salt ks x =
     (let (l, r) = fold (des_round tab salt) ks x;
          f = r; r = l; l = f
      in (l, r))"

text \<open>\<open>None\<close> is the result 1, for a count of 0, which leaves the output unset.\<close>

definition do_des :: "des_state \<Rightarrow> u32 \<Rightarrow> u32 \<Rightarrow> int \<Rightarrow> (u32 \<times> u32) option" where
  "do_des st l_in r_in cnt =
     (if cnt = 0 then None
      else
        let tab = tables st;
            ks = (if cnt > 0 then zip (en_keysl st) (en_keysr st) else zip (de_keysl st) (de_keysr st));
            cnt = \<bar>cnt\<bar>;
            l = byte_lookup (ip_maskl tab) l_in r_in;
            r = byte_lookup (ip_maskr tab) l_in r_in;
            (l, r) = (des_pass tab (saltbits st) ks ^^ nat cnt) (l, r)
        in Some (byte_lookup (fp_maskl tab) l r, byte_lookup (fp_maskr tab) l r))"

section \<open>The interface\<close>

text \<open>\<open>key\<close> has 64 characters, of which the lowest bits cnt.\<close>

definition setkey :: "byte list \<Rightarrow> des_state \<Rightarrow> des_state" where
  "setkey key st =
     des_setkey (map (\<lambda>i. fold (\<lambda>j p. if key ! (8 * i + j) AND 1 \<noteq> 0 then p OR bits8 ! j else p) [0..<8] 0)
       [0..<8]) st"

definition encrypt :: "byte list \<Rightarrow> bool \<Rightarrow> des_state \<Rightarrow> byte list \<times> des_state" where
  "encrypt block flag st0 =
     (let st = setup_salt 0 (des_init st0);
          io = map (\<lambda>i. fold (\<lambda>j w. if block ! (32 * i + j) AND 1 \<noteq> 0 then w OR bits32 ! j else w) [0..<32] 0)
            [0..<2];
          io = (case do_des st (io ! 0) (io ! 1) (if flag then -1 else 1) of
                  None \<Rightarrow> io | Some (l, r) \<Rightarrow> [l, r])
      in (concat (map (\<lambda>i. map (\<lambda>j. if io ! i AND bits32 ! j \<noteq> 0 then 1 else 0) [0..<32]) [0..<2]), st))"

text \<open>
  The loop that copies the key; a string is the list of its characters, at the end of which \<open>*key\<close> is 0.
\<close>

fun key_bytes :: "nat \<Rightarrow> byte list \<Rightarrow> byte list" where
  "key_bytes 0 key = []"
| "key_bytes (Suc n) key =
     (let b = (if key = [] then 0 else push_bit 1 (hd key))
      in b # key_bytes n (if b \<noteq> 0 then tl key else key))"

text \<open>
  The result of \<open>__des_crypt\<close>: a string, or a null pointer. With an empty setting \<open>setting[1]\<close> lies
  beyond the end of the string.
\<close>

datatype crypt_result = Crypted "byte list" | Null | Reads_Past_End

definition hash64 :: "u32 \<Rightarrow> u32 \<Rightarrow> byte list" where
  "hash64 r0 r1 =
     (let l = drop_bit 8 r0;
          l2 = push_bit 16 r0 OR (drop_bit 16 r1 AND 0xffff);
          l3 = push_bit 2 r1
      in map (\<lambda>w. ascii64 ! unat (w AND 0x3f))
           [drop_bit 18 l, drop_bit 12 l, drop_bit 6 l, l,
            drop_bit 18 l2, drop_bit 12 l2, drop_bit 6 l2, l2,
            drop_bit 12 l3, drop_bit 6 l3, l3])"

definition des_crypt :: "byte list \<Rightarrow> byte list \<Rightarrow> des_state \<Rightarrow> crypt_result \<times> des_state" where
  "des_crypt key setting st0 =
     (let st = des_setkey (key_bytes 8 key) (des_init st0)
      in case setting of
           [] \<Rightarrow> (Reads_Past_End, st)
         | s0 # rest \<Rightarrow>
             let s1 = (if rest = [] then 0 else hd rest);
                 cnt = 25;
                 salt = push_bit 6 (ascii_to_bin s1) OR ascii_to_bin s0;
                 output = [s0, if s1 \<noteq> 0 then s1 else s0];
                 st = setup_salt salt st
             in case do_des st 0 0 cnt of
                  None \<Rightarrow> (Null, st)
                | Some (r0, r1) \<Rightarrow> (Crypted (output @ hash64 r0 r1), st))"

end
