(* ===== verification/Des_Spec.thy ===== *)
theory Des_Spec
  imports Des
begin

text \<open>
  The standard FIPS 46-3 on lists of bits, and that the table driven code computes it. Bit 1 of the
  standard is the most significant one, so a word is read from its highest bit down.
\<close>

section \<open>DES on bits\<close>

definition permute :: "nat list \<Rightarrow> bool list \<Rightarrow> bool list" where
  "permute p b = map (\<lambda>i. b ! (i - 1)) p"

definition e_table :: "nat list" where
  "e_table = [
     32, 1, 2, 3, 4, 5, 4, 5, 6, 7, 8, 9,
     8, 9, 10, 11, 12, 13, 12, 13, 14, 15, 16, 17,
     16, 17, 18, 19, 20, 21, 20, 21, 22, 23, 24, 25,
     24, 25, 26, 27, 28, 29, 28, 29, 30, 31, 32, 1]"

definition ip_inverse :: "nat list" where
  "ip_inverse = [
     40, 8, 48, 16, 56, 24, 64, 32, 39, 7, 47, 15, 55, 23, 63, 31,
     38, 6, 46, 14, 54, 22, 62, 30, 37, 5, 45, 13, 53, 21, 61, 29,
     36, 4, 44, 12, 52, 20, 60, 28, 35, 3, 43, 11, 51, 19, 59, 27,
     34, 2, 42, 10, 50, 18, 58, 26, 33, 1, 41, 9, 49, 17, 57, 25]"

definition xor_bits :: "bool list \<Rightarrow> bool list \<Rightarrow> bool list" where
  "xor_bits = map2 (\<noteq>)"

definition nat_of_bits :: "bool list \<Rightarrow> nat" where
  "nat_of_bits = foldl (\<lambda>a b. 2 * a + of_bool b) 0"

text \<open>The outer two of six bits select the row of an S-box, the inner four the column.\<close>

definition s_box :: "nat \<Rightarrow> bool list \<Rightarrow> bool list" where
  "s_box i b =
     (let row = nat_of_bits [b ! 0, b ! 5];
          col = nat_of_bits [b ! 1, b ! 2, b ! 3, b ! 4];
          s = sbox ! i ! (16 * row + col)
      in map (\<lambda>t. bit s (3 - t)) [0..<4])"

text \<open>A salt bit exchanges a bit of the left half of the expanded word with the same bit of the right half.\<close>

definition salted :: "u32 \<Rightarrow> bool list \<Rightarrow> bool list" where
  "salted salt x = map (\<lambda>n. x ! (if bit salt (n mod 24) then (n + 24) mod 48 else n)) [0..<48]"

definition cipher_fun :: "u32 \<Rightarrow> bool list \<Rightarrow> bool list \<Rightarrow> bool list" where
  "cipher_fun salt k r =
     (let x = xor_bits (salted salt (permute e_table r)) k
      in permute pbox (concat (map (\<lambda>i. s_box i (take 6 (drop (6 * i) x))) [0..<8])))"

definition cipher_round :: "u32 \<Rightarrow> bool list \<Rightarrow> bool list \<times> bool list \<Rightarrow> bool list \<times> bool list" where
  "cipher_round salt k x = (case x of (l, r) \<Rightarrow> (r, xor_bits l (cipher_fun salt k r)))"

definition des :: "u32 \<Rightarrow> bool list list \<Rightarrow> bool list \<Rightarrow> bool list" where
  "des salt ks b =
     (let p = permute IP b;
          (l, r) = fold (cipher_round salt) ks (take 32 p, drop 32 p)
      in permute ip_inverse (r @ l))"

text \<open>The sixteen subkeys of a key of 64 bits.\<close>

definition subkey :: "bool list \<Rightarrow> nat \<Rightarrow> bool list" where
  "subkey key r =
     (let cd = permute key_perm key;
          s = sum_list (take (Suc r) key_shifts)
      in permute comp_perm (rotate s (take 28 cd) @ rotate s (drop 28 cd)))"

definition subkeys :: "bool list \<Rightarrow> bool list list" where
  "subkeys key = map (subkey key) [0..<16]"

text \<open>The bits of the code's words.\<close>

definition wbits :: "nat \<Rightarrow> u32 \<Rightarrow> bool list" where
  "wbits n w = map (\<lambda>i. bit w (n - 1 - i)) [0..<n]"

definition block_bits :: "u32 \<times> u32 \<Rightarrow> bool list" where
  "block_bits x = wbits 32 (fst x) @ wbits 32 (snd x)"

definition byte_bits :: "byte list \<Rightarrow> bool list" where
  "byte_bits bs = concat (map (\<lambda>b. map (\<lambda>i. bit b (7 - i)) [0..<8]) bs)"

lemma length_wbits [simp]: "length (wbits n w) = n"
  by (simp add: wbits_def)

lemma nth_wbits [simp]: "i < n \<Longrightarrow> wbits n w ! i = bit w (n - 1 - i)"
  by (simp add: wbits_def)

lemma length_permute [simp]: "length (permute p b) = length p"
  by (simp add: permute_def)

lemma nth_permute [simp]: "i < length p \<Longrightarrow> permute p b ! i = b ! (p ! i - 1)"
  by (simp add: permute_def)

lemma nth_block_bits: "q < 64 \<Longrightarrow> block_bits (l, r) ! q = (if q < 32 then bit l (31 - q) else bit r (63 - q))"
  by (auto simp: block_bits_def nth_append)

lemma length_block_bits [simp]: "length (block_bits x) = 64"
  by (simp add: block_bits_def)

lemma wbits_inj: "wbits 32 v = wbits 32 w \<longleftrightarrow> v = w"
proof
  assume eq: "wbits 32 v = wbits 32 w"
  show "v = w"
  proof (rule bit_word_eqI)
    fix n assume "n < LENGTH(32)"
    then have "wbits 32 v ! (31 - n) = bit v n" "wbits 32 w ! (31 - n) = bit w n" by simp_all
    with eq show "bit v n = bit w n" by simp
  qed
qed simp

section \<open>Lookups in tables of masks\<close>

lemma bits8_test: "j < 8 \<Longrightarrow> i AND bits8 ! j \<noteq> 0 \<longleftrightarrow> bit i (7 - j)"
proof -
  have "\<forall>j\<in>set [0..<8]. bits8 ! j = push_bit (7 - j) 1" by code_simp
  moreover assume "j < 8"
  ultimately show ?thesis by (simp add: bit_iff_and_push_bit_not_eq_0)
qed

lemma bits32_eq: "j < 32 \<Longrightarrow> bits32 ! j = push_bit (31 - j) 1"
proof -
  have "\<forall>j\<in>set [0..<32]. bits32 ! j = push_bit (31 - j) 1" by code_simp
  moreover assume "j < 32"
  ultimately show ?thesis by simp
qed

lemma bit_bits32: "j < 32 \<Longrightarrow> bit (bits32 ! j) p \<longleftrightarrow> p = 31 - j"
  by (auto simp: bits32_eq bit_simps)

lemma bit_fold_or:
  "bit (fold (\<lambda>j m. if c j then m OR d j else m) js (m0 :: 'a :: semiring_bit_operations)) p \<longleftrightarrow>
     bit m0 p \<or> (\<exists>j\<in>set js. c j \<and> bit (d j) p)"
  by (induction js arbitrary: m0) (auto simp: bit_or_iff)

lemma bit_or_mask:
  "bit (or_mask off d i) p \<longleftrightarrow> (\<exists>j<8 - off. bit i (7 - (j + off)) \<and> bit (d j) p)"
proof -
  have "bit (or_mask off d i) p \<longleftrightarrow> (\<exists>j<8 - off. i AND bits8 ! (j + off) \<noteq> 0 \<and> bit (d j) p)"
    unfolding or_mask_def bit_fold_or by auto
  then show ?thesis using bits8_test [of "_ + off" i] by (auto simp: less_diff_conv)
qed

lemma mask_table_nth:
  "k < n \<Longrightarrow> i < len \<Longrightarrow> mask_table n off len d ! k ! i = or_mask off (d k) (word_of_nat i)"
  by (simp add: mask_table_def)

text \<open>An index of eight or seven bits, cut out of a word.\<close>

lemma and_mask_u32: "(w :: u32) AND 0xff = take_bit 8 w" "w AND 0x7f = take_bit 7 w"
    "w AND 0xfff = take_bit 12 w" "w AND 0x3f = take_bit 6 w"
  by (simp_all add: take_bit_eq_mask mask_eq_exp_minus_1)

lemma unat_take_bit_less: "unat (take_bit n (w :: u32)) < 2 ^ n"
  by (simp only: unsigned_take_bit_eq) simp

lemma byte_of_take_bit: "n \<le> 8 \<Longrightarrow> (word_of_nat (unat (take_bit n (w :: u32))) :: byte) = take_bit n (ucast w)"
  by (rule bit_word_eqI) (auto simp: bit_simps)

lemma byte_entry:
  assumes "k < 8"
  shows "bit (mask_table 8 0 256 d ! k ! unat (take_bit 8 (w :: u32))) p \<longleftrightarrow> (\<exists>j<8. bit w (7 - j) \<and> bit (d k j) p)"
  using assms unat_take_bit_less [of 8 w]
  by (auto simp: mask_table_nth byte_of_take_bit bit_or_mask bit_simps)

lemma septet_entry:
  assumes "k < 8"
  shows "bit (mask_table 8 1 128 d ! k ! unat (take_bit 7 (w :: u32))) p \<longleftrightarrow> (\<exists>j<7. bit w (6 - j) \<and> bit (d k j) p)"
  using assms unat_take_bit_less [of 7 w]
  by (auto simp: mask_table_nth byte_of_take_bit bit_or_mask bit_simps)

section \<open>The permutations\<close>

text \<open>The fields of the computed tables.\<close>

lemma build_tables_simps:
  "init_perm build_tables = invert_into IP (replicate 64 0)"
  "final_perm build_tables = map (\<lambda>i. IP ! i - 1) [0..<64]"
  "inv_key_perm build_tables = invert_into key_perm (replicate 64 255)"
  "inv_comp_perm build_tables = invert_into comp_perm (replicate 56 255)"
  "un_pbox build_tables = invert_into pbox (replicate 32 0)"
  "m_sbox build_tables = map m_sbox_of [0..<4]"
  "psbox build_tables = mask_table 4 0 256 (\<lambda>b j. bits32 ! (un_pbox build_tables ! (8 * b + j)))"
  "ip_maskl build_tables = mask_table 8 0 256 (\<lambda>k j. half32 True (init_perm build_tables ! (8 * k + j)))"
  "ip_maskr build_tables = mask_table 8 0 256 (\<lambda>k j. half32 False (init_perm build_tables ! (8 * k + j)))"
  "fp_maskl build_tables = mask_table 8 0 256 (\<lambda>k j. half32 True (final_perm build_tables ! (8 * k + j)))"
  "fp_maskr build_tables = mask_table 8 0 256 (\<lambda>k j. half32 False (final_perm build_tables ! (8 * k + j)))"
  "key_perm_maskl build_tables = mask_table 8 1 128 (\<lambda>k j. half28 True (inv_key_perm build_tables ! (8 * k + j)))"
  "key_perm_maskr build_tables = mask_table 8 1 128 (\<lambda>k j. half28 False (inv_key_perm build_tables ! (8 * k + j)))"
  "comp_maskl build_tables = mask_table 8 1 128 (\<lambda>k j. half24 True (inv_comp_perm build_tables ! (7 * k + j)))"
  "comp_maskr build_tables = mask_table 8 1 128 (\<lambda>k j. half24 False (inv_comp_perm build_tables ! (7 * k + j)))"
  by (simp_all add: build_tables_def Let_def)

lemma table_lengths [simp]:
  "length IP = 64" "length ip_inverse = 64" "length key_perm = 56" "length comp_perm = 48"
  "length pbox = 32" "length e_table = 48" "length key_shifts = 16"
  by (simp_all add: IP_def ip_inverse_def key_perm_def comp_perm_def pbox_def e_table_def key_shifts_def)

text \<open>
  The contract of the tables that \<open>des_init\<close> inverts: no repetitions, numbers from 1, and 255 in the
  places that are not written.
\<close>

locale permutation_table =
  fixes src dst :: "nat list"
  assumes distinct_src: "distinct src"
    and src_range: "x \<in> set src \<Longrightarrow> 0 < x \<and> x \<le> length dst"
    and unwritten: "q < length dst \<Longrightarrow> Suc q \<in> set src \<or> dst ! q = 255"
    and src_short: "length src < 255"
begin

lemma src_nth: "i < length src \<Longrightarrow> 0 < src ! i \<and> src ! i \<le> length dst"
  by (rule src_range) simp

lemma src_minus_eq:
  assumes "i < length src" and "j < length src"
  shows "src ! i - 1 = src ! j - 1 \<longleftrightarrow> i = j"
proof -
  have "src ! i - 1 = src ! j - 1 \<longleftrightarrow> src ! i = src ! j"
    using src_nth [OF assms(1)] src_nth [OF assms(2)] by linarith
  then show ?thesis using assms by (simp add: nth_eq_iff_index_eq distinct_src)
qed

lemma partial:
  assumes "n \<le> length src"
  shows "length (fold (\<lambda>i p. p[src ! i - 1 := i]) [0..<n] dst) = length dst \<and>
    (\<forall>i<n. fold (\<lambda>i p. p[src ! i - 1 := i]) [0..<n] dst ! (src ! i - 1) = i) \<and>
    (\<forall>q<length dst. (\<forall>i<n. src ! i - 1 \<noteq> q) \<longrightarrow> fold (\<lambda>i p. p[src ! i - 1 := i]) [0..<n] dst ! q = dst ! q)"
  using assms
proof (induction n)
  case (Suc n)
  then have n: "n < length src" by simp
  have "src ! n - 1 < length dst" using src_nth [OF n] by linarith
  moreover have "src ! n - 1 \<noteq> src ! i - 1" if "i < n" for i
    using src_minus_eq [of n i] n that by simp
  ultimately show ?case
    using Suc by (auto simp: less_Suc_eq nth_list_update)
qed simp

lemma inverse_at: "i < length src \<Longrightarrow> invert_into src dst ! (src ! i - 1) = i"
  using partial [of "length src"] by (simp add: invert_into_def)

lemma written_or_not:
  assumes "q < length dst"
  obtains i where "i < length src" "q = src ! i - 1" "invert_into src dst ! q = i"
    | "Suc q \<notin> set src" "invert_into src dst ! q = 255"
proof (cases "Suc q \<in> set src")
  case True
  then obtain i where "i < length src" "src ! i = Suc q" by (auto simp: in_set_conv_nth)
  with inverse_at [of i] that(1) [of i] show ?thesis by simp
next
  case False
  have "src ! i - 1 \<noteq> q" if "i < length src" for i
    using src_nth [OF that] False that nth_mem [OF that] by fastforce
  with partial [of "length src"] assms unwritten [OF assms] False
  have "invert_into src dst ! q = 255" by (simp add: invert_into_def)
  with False that(2) show ?thesis by blast
qed

lemma inverse_range: "q < length dst \<Longrightarrow> invert_into src dst ! q < length src \<or> invert_into src dst ! q = 255"
  by (rule written_or_not) auto

lemma inverse_covered: "q < length dst \<Longrightarrow> dst ! q \<noteq> 255 \<Longrightarrow> invert_into src dst ! q < length src"
  using unwritten [of q] by (auto elim: written_or_not [of q])

lemma inverse_uncovered:
  assumes "q < length dst" and "Suc q \<notin> set src"
  shows "invert_into src dst ! q = 255"
  using assms(1)
proof (rule written_or_not)
  fix i assume "i < length src" "q = src ! i - 1"
  then have "Suc q = src ! i" using src_nth [of i] by simp
  with assms(2) nth_mem [OF \<open>i < length src\<close>] show ?thesis by simp
qed

lemma inverse_eq:
  assumes "q < length dst" and "n < length src"
  shows "invert_into src dst ! q = n \<longleftrightarrow> q = src ! n - 1"
  using assms(1)
proof (rule written_or_not)
  fix i assume "i < length src" "q = src ! i - 1" "invert_into src dst ! q = i"
  with src_minus_eq [of i n] assms(2) show ?thesis by simp
next
  assume "Suc q \<notin> set src" "invert_into src dst ! q = 255"
  moreover have "q \<noteq> src ! n - 1"
    using src_nth [OF assms(2)] nth_mem [OF assms(2)] calculation(1) by auto
  ultimately show ?thesis using assms(2) src_short by simp
qed

end

interpretation ip: permutation_table IP "replicate 64 0"
proof
  show "distinct IP" by (simp add: IP_def)
  have "\<forall>x\<in>set IP. 0 < x \<and> x \<le> 64" "\<forall>q\<in>set [0..<64]. Suc q \<in> set IP" by code_simp+
  then show "x \<in> set IP \<Longrightarrow> 0 < x \<and> x \<le> length (replicate 64 0)"
    and "q < length (replicate 64 0) \<Longrightarrow> Suc q \<in> set IP \<or> replicate 64 0 ! q = 255" for x q
    by simp_all
qed simp

interpretation key: permutation_table key_perm "replicate 64 255"
proof
  show "distinct key_perm" by (simp add: key_perm_def)
  have "\<forall>x\<in>set key_perm. 0 < x \<and> x \<le> 64" by code_simp
  then show "x \<in> set key_perm \<Longrightarrow> 0 < x \<and> x \<le> length (replicate 64 255)" for x by simp
qed simp_all

interpretation comp: permutation_table comp_perm "replicate 56 255"
proof
  show "distinct comp_perm" by (simp add: comp_perm_def)
  have "\<forall>x\<in>set comp_perm. 0 < x \<and> x \<le> 56" by code_simp
  then show "x \<in> set comp_perm \<Longrightarrow> 0 < x \<and> x \<le> length (replicate 56 255)" for x by simp
qed simp_all

interpretation pbox: permutation_table pbox "replicate 32 0"
proof
  show "distinct pbox" by (simp add: pbox_def)
  have "\<forall>x\<in>set pbox. 0 < x \<and> x \<le> 32" "\<forall>q\<in>set [0..<32]. Suc q \<in> set pbox" by code_simp+
  then show "x \<in> set pbox \<Longrightarrow> 0 < x \<and> x \<le> length (replicate 32 0)"
    and "q < length (replicate 32 0) \<Longrightarrow> Suc q \<in> set pbox \<or> replicate 32 0 ! q = 255" for x q
    by simp_all
qed simp

lemma ip_tables_inverse:
  "\<forall>n\<in>set [0..<64]. IP ! n - 1 < 64 \<and> ip_inverse ! n - 1 < 64 \<and>
     IP ! (ip_inverse ! n - 1) - 1 = n \<and> ip_inverse ! (IP ! n - 1) - 1 = n"
  by code_simp

lemma final_perm_eq:
  assumes "q < 64" and "n < 64"
  shows "final_perm build_tables ! q = n \<longleftrightarrow> q = ip_inverse ! n - 1"
proof -
  have "q \<in> set [0..<64]" "n \<in> set [0..<64]" using assms by simp_all
  with ip_tables_inverse have "ip_inverse ! (IP ! q - 1) - 1 = q" "IP ! (ip_inverse ! n - 1) - 1 = n"
    by blast+
  then show ?thesis using assms by (auto simp: build_tables_simps)
qed

lemma ex_less_mult:
  "(\<exists>k<a. \<exists>j<b. P (b * k + j)) \<longleftrightarrow> (\<exists>q<a * b. P q)" for a b :: nat
proof
  assume "\<exists>k<a. \<exists>j<b. P (b * k + j)"
  then obtain k j where kj: "k < a" "j < b" "P (b * k + j)" by blast
  then have "b * k + j < b * Suc k" by simp
  also have "\<dots> \<le> b * a" using kj(1) by (intro mult_le_mono2) simp
  finally show "\<exists>q<a * b. P q" using kj(3) by (auto simp: mult.commute)
next
  assume "\<exists>q<a * b. P q"
  then obtain q where q: "q < a * b" "P q" by blast
  then have "0 < b" by (cases b) simp_all
  then have "q div b < a" "q mod b < b" using q(1) by (simp_all add: less_mult_imp_div_less)
  moreover have "P (b * (q div b) + q mod b)" using q(2) by simp
  ultimately show "\<exists>k<a. \<exists>j<b. P (b * k + j)" by blast
qed

lemma ex_less_8: "(\<exists>k<8. P k) \<longleftrightarrow> P 0 \<or> P 1 \<or> P 2 \<or> P 3 \<or> P 4 \<or> P 5 \<or> P 6 \<or> P (7 :: nat)"
  by (simp add: numeral_eq_Suc less_Suc_eq) auto

lemma ex_less_4: "(\<exists>k<4. P k) \<longleftrightarrow> P 0 \<or> P 1 \<or> P 2 \<or> P (3 :: nat)"
  by (simp add: numeral_eq_Suc less_Suc_eq) auto

lemma drop_24_u32: "drop_bit 24 (w :: u32) = take_bit 8 (drop_bit 24 w)"
    "drop_bit 25 (w :: u32) = take_bit 7 (drop_bit 25 w)"
  by (rule bit_word_eqI; auto simp: bit_simps dest: bit_imp_le_length)+

lemma byte_lookup_take:
  "byte_lookup t l r =
     t ! 0 ! unat (take_bit 8 (drop_bit 24 l)) OR t ! 1 ! unat (take_bit 8 (drop_bit 16 l)) OR
     t ! 2 ! unat (take_bit 8 (drop_bit 8 l)) OR t ! 3 ! unat (take_bit 8 l) OR
     t ! 4 ! unat (take_bit 8 (drop_bit 24 r)) OR t ! 5 ! unat (take_bit 8 (drop_bit 16 r)) OR
     t ! 6 ! unat (take_bit 8 (drop_bit 8 r)) OR t ! 7 ! unat (take_bit 8 r)"
  by (simp only: byte_lookup_def and_mask_u32 flip: drop_24_u32)

lemma bit_byte_lookup:
  "bit (byte_lookup (mask_table 8 0 256 d) l r) p \<longleftrightarrow>
     (\<exists>k<8. \<exists>j<8. block_bits (l, r) ! (8 * k + j) \<and> bit (d k j) p)"
proof -
  have idx: "block_bits (l, r) ! (8 * k + j) =
      (if k < 4 then bit l (31 - (8 * k + j)) else bit r (63 - (8 * k + j)))" if "k < 8" "j < 8" for k j
    using that by (subst nth_block_bits) auto
  have "bit (byte_lookup (mask_table 8 0 256 d) l r) p \<longleftrightarrow>
     (\<exists>k<8. \<exists>j<8. (if k < 4 then bit l (31 - (8 * k + j)) else bit r (63 - (8 * k + j))) \<and> bit (d k j) p)"
    unfolding byte_lookup_take bit_or_iff
    by (simp add: byte_entry ex_less_8 bit_drop_bit_eq)
  then show ?thesis by (simp add: idx cong: conj_cong)
qed

lemma bit_half32:
  "obit < 64 \<Longrightarrow> n < 32 \<Longrightarrow> bit (half32 True obit) (31 - n) \<longleftrightarrow> obit = n"
  "obit < 64 \<Longrightarrow> n < 32 \<Longrightarrow> bit (half32 False obit) (31 - n) \<longleftrightarrow> obit = n + 32"
  by (auto simp: half32_def bit_bits32)

text \<open>Two lookups by bytes, for the two halves of a block, permute its bits.\<close>

lemma byte_lookup_permutes:
  assumes len: "length p = 64"
    and inv: "\<And>q n. q < 64 \<Longrightarrow> n < 64 \<Longrightarrow> dest q < 64 \<and> (dest q = n \<longleftrightarrow> q = p ! n - 1)"
    and range: "\<And>n. n < 64 \<Longrightarrow> p ! n - 1 < 64"
  shows "block_bits (byte_lookup (mask_table 8 0 256 (\<lambda>k j. half32 True (dest (8 * k + j)))) l r,
      byte_lookup (mask_table 8 0 256 (\<lambda>k j. half32 False (dest (8 * k + j)))) l r) =
    permute p (block_bits (l, r))"
proof (rule nth_equalityI)
  fix n assume "n < length (block_bits (byte_lookup (mask_table 8 0 256 (\<lambda>k j. half32 True (dest (8 * k + j)))) l r,
      byte_lookup (mask_table 8 0 256 (\<lambda>k j. half32 False (dest (8 * k + j)))) l r))"
  then have n: "n < 64" by simp
  let ?b = "block_bits (l, r)"
  let ?out = "\<lambda>left. byte_lookup (mask_table 8 0 256 (\<lambda>k j. half32 left (dest (8 * k + j)))) l r"
  have out: "bit (?out left) m \<longleftrightarrow> (\<exists>q<64. ?b ! q \<and> bit (half32 left (dest q)) m)" for left m
    unfolding bit_byte_lookup
    using ex_less_mult [of 8 8 "\<lambda>q. ?b ! q \<and> bit (half32 left (dest q)) m"] by simp
  have "block_bits (?out True, ?out False) ! n \<longleftrightarrow> (\<exists>q<64. ?b ! q \<and> dest q = n)"
  proof (cases "n < 32")
    case True
    then show ?thesis using inv n by (simp add: nth_block_bits out bit_half32 cong: conj_cong)
  next
    case False
    then obtain m where m: "n = m + 32" by (metis le_add_diff_inverse2 not_le)
    then have "block_bits (?out True, ?out False) ! n \<longleftrightarrow> bit (?out False) (31 - m)"
      using n by (simp add: nth_block_bits)
    then show ?thesis using inv n m by (simp add: out bit_half32 cong: conj_cong)
  qed
  also have "\<dots> \<longleftrightarrow> (\<exists>q<64. ?b ! q \<and> q = p ! n - 1)" using inv n by (simp cong: conj_cong)
  also have "\<dots> \<longleftrightarrow> ?b ! (p ! n - 1)" using range [OF n] by auto
  finally show "block_bits (?out True, ?out False) ! n = permute p ?b ! n"
    using n len by simp
qed (simp add: len)

lemma init_perm_permutes:
  "block_bits (byte_lookup (ip_maskl build_tables) l r, byte_lookup (ip_maskr build_tables) l r) =
     permute IP (block_bits (l, r))"
  unfolding build_tables_simps(8,9)
proof (rule byte_lookup_permutes)
  fix q n :: nat assume "q < 64" "n < 64"
  then show "init_perm build_tables ! q < 64 \<and> (init_perm build_tables ! q = n \<longleftrightarrow> q = IP ! n - 1)"
    using ip.inverse_eq [of q n] ip.inverse_covered [of q] by (simp add: build_tables_simps)
next
  fix n :: nat assume "n < 64"
  then have "n \<in> set [0..<64]" by simp
  with ip_tables_inverse show "IP ! n - 1 < 64" by blast
qed simp

lemma final_perm_permutes:
  "block_bits (byte_lookup (fp_maskl build_tables) l r, byte_lookup (fp_maskr build_tables) l r) =
     permute ip_inverse (block_bits (l, r))"
  unfolding build_tables_simps(10,11)
proof (rule byte_lookup_permutes)
  fix q n :: nat assume "q < 64" "n < 64"
  then have "q \<in> set [0..<64]" by simp
  with ip_tables_inverse have "IP ! q - 1 < 64" by blast
  with \<open>q < 64\<close> \<open>n < 64\<close>
  show "final_perm build_tables ! q < 64 \<and> (final_perm build_tables ! q = n \<longleftrightarrow> q = ip_inverse ! n - 1)"
    by (simp only: final_perm_eq) (simp add: build_tables_simps)
next
  fix n :: nat assume "n < 64"
  then have "n \<in> set [0..<64]" by simp
  with ip_tables_inverse show "ip_inverse ! n - 1 < 64" by blast
qed simp

section \<open>The key schedule\<close>

lemma nth_bits28: "i < 28 \<Longrightarrow> bits28 ! i = bits32 ! (i + 4)" "i < 24 \<Longrightarrow> bits24 ! i = bits32 ! (i + 8)"
proof -
  have "length bits32 = 32" by (simp add: bits32_def)
  then show "i < 28 \<Longrightarrow> bits28 ! i = bits32 ! (i + 4)" "i < 24 \<Longrightarrow> bits24 ! i = bits32 ! (i + 8)"
    by (simp_all add: bits28_def bits24_def add.commute)
qed

lemma bit_half28:
  "bit (half28 True obit) p \<longleftrightarrow> obit < 28 \<and> p = 27 - obit"
  "obit < 56 \<or> obit = 255 \<Longrightarrow> bit (half28 False obit) p \<longleftrightarrow> 28 \<le> obit \<and> obit < 56 \<and> p = 55 - obit"
  by (auto simp: half28_def nth_bits28 bit_bits32)

lemma bit_half24:
  "bit (half24 True obit) p \<longleftrightarrow> obit < 24 \<and> p = 23 - obit"
  "obit < 48 \<or> obit = 255 \<Longrightarrow> bit (half24 False obit) p \<longleftrightarrow> 24 \<le> obit \<and> obit < 48 \<and> p = 47 - obit"
  by (auto simp: half24_def nth_bits28 bit_bits32)

lemma bit_key_lookup:
  "bit (key_lookup (mask_table 8 1 128 d) w0 w1) p \<longleftrightarrow>
     (\<exists>k<8. \<exists>j<7. block_bits (w0, w1) ! (8 * k + j) \<and> bit (d k j) p)"
proof -
  have idx: "block_bits (w0, w1) ! (8 * k + j) =
      (if k < 4 then bit w0 (31 - (8 * k + j)) else bit w1 (63 - (8 * k + j)))" if "k < 8" "j < 7" for k j
    using that by (subst nth_block_bits) auto
  have take: "key_lookup t w0 w1 =
     t ! 0 ! unat (take_bit 7 (drop_bit 25 w0)) OR t ! 1 ! unat (take_bit 7 (drop_bit 17 w0)) OR
     t ! 2 ! unat (take_bit 7 (drop_bit 9 w0)) OR t ! 3 ! unat (take_bit 7 (drop_bit 1 w0)) OR
     t ! 4 ! unat (take_bit 7 (drop_bit 25 w1)) OR t ! 5 ! unat (take_bit 7 (drop_bit 17 w1)) OR
     t ! 6 ! unat (take_bit 7 (drop_bit 9 w1)) OR t ! 7 ! unat (take_bit 7 (drop_bit 1 w1))" for t
    by (simp only: key_lookup_def and_mask_u32 flip: drop_24_u32)
  have "bit (key_lookup (mask_table 8 1 128 d) w0 w1) p \<longleftrightarrow>
     (\<exists>k<8. \<exists>j<7. (if k < 4 then bit w0 (31 - (8 * k + j)) else bit w1 (63 - (8 * k + j))) \<and> bit (d k j) p)"
    unfolding take bit_or_iff
    by (simp add: septet_entry ex_less_8 bit_drop_bit_eq Nat.add_diff_assoc del: One_nat_def cong: conj_cong)
  then show ?thesis by (simp add: idx cong: conj_cong)
qed

definition cd_bits :: "u32 \<Rightarrow> u32 \<Rightarrow> bool list" where
  "cd_bits t0 t1 = wbits 28 t0 @ wbits 28 t1"

lemma bit_comp_lookup:
  "bit (comp_lookup (mask_table 8 1 128 d) t0 t1) p \<longleftrightarrow>
     (\<exists>k<8. \<exists>j<7. cd_bits t0 t1 ! (7 * k + j) \<and> bit (d k j) p)"
proof -
  have idx: "cd_bits t0 t1 ! (7 * k + j) =
      (if k < 4 then bit t0 (27 - (7 * k + j)) else bit t1 (55 - (7 * k + j)))" if "k < 8" "j < 7" for k j
    using that by (auto simp: cd_bits_def nth_append)
  have "bit (comp_lookup (mask_table 8 1 128 d) t0 t1) p \<longleftrightarrow>
     (\<exists>k<8. \<exists>j<7. (if k < 4 then bit t0 (27 - (7 * k + j)) else bit t1 (55 - (7 * k + j))) \<and> bit (d k j) p)"
    unfolding comp_lookup_def and_mask_u32 bit_or_iff
    by (simp add: septet_entry ex_less_8 bit_drop_bit_eq Nat.add_diff_assoc del: One_nat_def cong: conj_cong)
  then show ?thesis by (simp add: idx cong: conj_cong)
qed

lemma inv_key_perm_parity: "k < 8 \<Longrightarrow> inv_key_perm build_tables ! (8 * k + 7) = 255"
proof -
  assume k: "k < 8"
  have "\<forall>x\<in>set key_perm. x mod 8 \<noteq> 0" by code_simp
  then have "Suc (8 * k + 7) \<notin> set key_perm" by fastforce
  moreover have "8 * k + 7 < length (replicate 64 (255 :: nat))" using k by simp
  ultimately show ?thesis unfolding build_tables_simps by (intro key.inverse_uncovered)
qed

lemma key_lookup_permutes:
  fixes w0 w1 :: u32
  defines "k0 \<equiv> key_lookup (key_perm_maskl build_tables) w0 w1"
    and "k1 \<equiv> key_lookup (key_perm_maskr build_tables) w0 w1"
  shows "cd_bits k0 k1 = permute key_perm (block_bits (w0, w1))"
proof (rule nth_equalityI)
  let ?b = "block_bits (w0, w1)" and ?ik = "\<lambda>q. inv_key_perm build_tables ! q"
  fix n assume "n < length (cd_bits k0 k1)"
  then have n: "n < 56" by (simp add: cd_bits_def)
  have range: "?ik q < 56 \<or> ?ik q = 255" if "q < 64" for q
    using key.inverse_range [of q] that by (simp add: build_tables_simps)
  have eq: "?ik q = n \<longleftrightarrow> q = key_perm ! n - 1" if "q < 64" for q
    using key.inverse_eq [of q n] that n by (simp add: build_tables_simps)
  have all: "(\<exists>k<8. \<exists>j<7. ?b ! (8 * k + j) \<and> bit (half28 left (?ik (8 * k + j))) p) \<longleftrightarrow>
      (\<exists>q<64. ?b ! q \<and> bit (half28 left (?ik q)) p)" for left p
  proof -
    have "(\<exists>j<8. ?b ! (8 * k + j) \<and> bit (half28 left (?ik (8 * k + j))) p) \<longleftrightarrow>
        (\<exists>j<7. ?b ! (8 * k + j) \<and> bit (half28 left (?ik (8 * k + j))) p)" if "k < 8" for k
    proof -
      have "\<not> bit (half28 left (?ik (8 * k + 7))) p"
        using that by (simp add: inv_key_perm_parity half28_def)
      moreover have "j < 8 \<longleftrightarrow> j < 7 \<or> j = 7" for j :: nat by linarith
      ultimately show ?thesis by auto
    qed
    then show ?thesis
      using ex_less_mult [of 8 8 "\<lambda>q. ?b ! q \<and> bit (half28 left (?ik q)) p"] by (simp cong: conj_cong)
  qed
  have "cd_bits k0 k1 ! n \<longleftrightarrow> (\<exists>q<64. ?b ! q \<and> ?ik q = n)"
  proof (cases "n < 28")
    case True
    then have "cd_bits k0 k1 ! n \<longleftrightarrow> (\<exists>q<64. ?b ! q \<and> bit (half28 True (?ik q)) (27 - n))"
      by (simp add: cd_bits_def nth_append k0_def build_tables_simps(12) bit_key_lookup all del: One_nat_def)
    then show ?thesis using True by (auto simp: bit_half28)
  next
    case False
    then have "cd_bits k0 k1 ! n \<longleftrightarrow> (\<exists>q<64. ?b ! q \<and> bit (half28 False (?ik q)) (55 - n))"
      using n by (simp add: cd_bits_def nth_append k1_def build_tables_simps(13) bit_key_lookup all del: One_nat_def)
    then show ?thesis using False n range by (auto simp: bit_half28 cong: conj_cong)
  qed
  also have "\<dots> \<longleftrightarrow> (\<exists>q<64. ?b ! q \<and> q = key_perm ! n - 1)" by (simp add: eq cong: conj_cong)
  also have "\<dots> \<longleftrightarrow> ?b ! (key_perm ! n - 1)"
    using key.src_nth [of n] n by auto
  finally show "cd_bits k0 k1 ! n = permute key_perm ?b ! n" using n by simp
qed (simp add: cd_bits_def)

text \<open>The two halves of a subkey.\<close>

definition key_bits :: "u32 \<times> u32 \<Rightarrow> bool list" where
  "key_bits k = wbits 24 (fst k) @ wbits 24 (snd k)"

lemma nth_key_bits: "n < 48 \<Longrightarrow> key_bits (kl, kr) ! n = (if n < 24 then bit kl (23 - n) else bit kr (47 - n))"
  by (auto simp: key_bits_def nth_append)

lemma length_key_bits [simp]: "length (key_bits k) = 48"
  by (simp add: key_bits_def)

lemma comp_lookup_permutes:
  fixes t0 t1 :: u32
  defines "kl \<equiv> comp_lookup (comp_maskl build_tables) t0 t1"
    and "kr \<equiv> comp_lookup (comp_maskr build_tables) t0 t1"
  shows "key_bits (kl, kr) = permute comp_perm (cd_bits t0 t1)"
    and "bit kl p \<Longrightarrow> p < 24" and "bit kr p \<Longrightarrow> p < 24"
proof -
  let ?b = "cd_bits t0 t1" and ?ik = "\<lambda>q. inv_comp_perm build_tables ! q"
  have range: "?ik q < 48 \<or> ?ik q = 255" if "q < 56" for q
    using comp.inverse_range [of q] that by (simp add: build_tables_simps)
  have all: "(\<exists>k<8. \<exists>j<7. ?b ! (7 * k + j) \<and> bit (half24 left (?ik (7 * k + j))) p) \<longleftrightarrow>
      (\<exists>q<56. ?b ! q \<and> bit (half24 left (?ik q)) p)" for left p
    using ex_less_mult [of 8 7 "\<lambda>q. ?b ! q \<and> bit (half24 left (?ik q)) p"] by simp
  have l: "bit kl p \<longleftrightarrow> (\<exists>q<56. ?b ! q \<and> ?ik q < 24 \<and> p = 23 - ?ik q)" for p
    unfolding kl_def build_tables_simps(14) bit_comp_lookup all by (simp add: bit_half24)
  have "bit kr p \<longleftrightarrow> (\<exists>q<56. ?b ! q \<and> bit (half24 False (?ik q)) p)" for p
    unfolding kr_def build_tables_simps(15) bit_comp_lookup all ..
  then have r: "bit kr p \<longleftrightarrow> (\<exists>q<56. ?b ! q \<and> 24 \<le> ?ik q \<and> ?ik q < 48 \<and> p = 47 - ?ik q)" for p
    using range by (simp add: bit_half24 cong: conj_cong)
  show "bit kl p \<Longrightarrow> p < 24" "bit kr p \<Longrightarrow> p < 24" for p
    by (auto simp: l r)
  show "key_bits (kl, kr) = permute comp_perm ?b"
  proof (rule nth_equalityI)
    fix n assume "n < length (key_bits (kl, kr))"
    then have n: "n < 48" by simp
    have "key_bits (kl, kr) ! n \<longleftrightarrow> (\<exists>q<56. ?b ! q \<and> ?ik q = n)"
    proof (cases "n < 24")
      case True
      then have "?ik q < 24 \<and> 23 - n = 23 - ?ik q \<longleftrightarrow> ?ik q = n" for q by auto
      with True show ?thesis by (simp add: nth_key_bits l)
    next
      case False
      then have "24 \<le> ?ik q \<and> ?ik q < 48 \<and> 47 - n = 47 - ?ik q \<longleftrightarrow> ?ik q = n" for q using n by auto
      with False n show ?thesis by (simp add: nth_key_bits r)
    qed
    also have "\<dots> \<longleftrightarrow> (\<exists>q<56. ?b ! q \<and> q = comp_perm ! n - 1)"
      using comp.inverse_eq [of _ n] n by (simp add: build_tables_simps cong: conj_cong)
    also have "\<dots> \<longleftrightarrow> ?b ! (comp_perm ! n - 1)"
      using comp.src_nth [of n] n by auto
    finally show "key_bits (kl, kr) ! n = permute comp_perm ?b ! n" using n by simp
  qed simp
qed

lemma rotate28_rotates:
  assumes "\<And>p. bit k p \<Longrightarrow> p < 28" and "s \<le> 28"
  shows "wbits 28 (rotate28 s k) = rotate s (wbits 28 k)"
proof (rule nth_equalityI)
  fix n assume "n < length (wbits 28 (rotate28 s k))"
  then have n: "n < 28" by simp
  show "wbits 28 (rotate28 s k) ! n = rotate s (wbits 28 k) ! n"
  proof (cases "n + s < 28")
    case True
    moreover have "\<not> bit k (28 - s + (27 - n))" using assms(1) [of "28 - s + (27 - n)"] True by auto
    ultimately show ?thesis
      by (auto simp: rotate28_def nth_rotate bit_simps add.commute diff_diff_eq)
  next
    case False
    then have "(s + n) mod 28 = s + n - 28" using n assms(2) by (simp add: mod_if)
    moreover have "28 - s + (27 - n) = 27 - (s + n - 28)" using n False assms(2) by linarith
    ultimately show ?thesis
      using False n by (auto simp: rotate28_def nth_rotate bit_simps)
  qed
qed simp

text \<open>What a state holds after the key has been set.\<close>

definition key_pairs :: "des_state \<Rightarrow> (u32 \<times> u32) list" where
  "key_pairs st = zip (en_keysl st) (en_keysr st)"

definition sixteen_keys :: "des_state \<Rightarrow> bool" where
  "sixteen_keys st \<longleftrightarrow>
     length (en_keysl st) = 16 \<and> length (en_keysr st) = 16 \<and>
     de_keysl st = rev (en_keysl st) \<and> de_keysr st = rev (en_keysr st) \<and>
     (\<forall>k\<in>set (en_keysl st) \<union> set (en_keysr st). \<forall>p. bit k p \<longrightarrow> p < 24)"

definition scheduled :: "u32 \<Rightarrow> u32 \<Rightarrow> des_state \<Rightarrow> bool" where
  "scheduled rawkey0 rawkey1 st \<longleftrightarrow>
     sixteen_keys st \<and> map key_bits (key_pairs st) = subkeys (block_bits (rawkey0, rawkey1))"

lemma length_cd_bits [simp]: "length (cd_bits a b) = 56"
  by (simp add: cd_bits_def)

lemma key_lookup_28:
  "bit (key_lookup (key_perm_maskl build_tables) w0 w1) p \<Longrightarrow> p < 28"
  "bit (key_lookup (key_perm_maskr build_tables) w0 w1) p \<Longrightarrow> p < 28"
proof -
  show "p < 28" if "bit (key_lookup (key_perm_maskl build_tables) w0 w1) p"
    using that unfolding build_tables_simps(12) bit_key_lookup by (auto simp: bit_half28)
  have range: "inv_key_perm build_tables ! q < 56 \<or> inv_key_perm build_tables ! q = 255" if "q < 64" for q
    using key.inverse_range [of q] that by (simp add: build_tables_simps)
  have "8 * k + j < 64" if "k < 8" "j < 7" for k j :: nat using that by linarith
  with range show "p < 28" if "bit (key_lookup (key_perm_maskr build_tables) w0 w1) p"
    using that unfolding build_tables_simps(13) bit_key_lookup by (auto simp: bit_half28)
qed

lemma shifts_bound: "\<forall>r\<in>set [0..<16]. sum_list (take (Suc r) key_shifts) \<le> 28"
  by code_simp

lemma sum_shifts_Suc: "r < 16 \<Longrightarrow> sum_list (take (Suc r) key_shifts) = sum_list (take r key_shifts) + key_shifts ! r"
  by (simp add: take_Suc_conv_app_nth)

text \<open>The words that the loop over the rounds stores.\<close>

definition round_words :: "u32 \<Rightarrow> u32 \<Rightarrow> nat \<Rightarrow> u32 \<times> u32" where
  "round_words k0 k1 r =
     (let s = sum_list (take (Suc r) key_shifts)
      in (comp_lookup (comp_maskl build_tables) (rotate28 s k0) (rotate28 s k1),
          comp_lookup (comp_maskr build_tables) (rotate28 s k0) (rotate28 s k1)))"

lemma key_rounds:
  assumes "length (en_keysl st) = 16" "length (en_keysr st) = 16"
    "length (de_keysl st) = 16" "length (de_keysr st) = 16" and "n \<le> 16"
  shows "fold (key_round build_tables k0 k1) [0..<n] (0, st) =
    (sum_list (take n key_shifts),
     st\<lparr>en_keysl := map (fst \<circ> round_words k0 k1) [0..<n] @ drop n (en_keysl st),
        en_keysr := map (snd \<circ> round_words k0 k1) [0..<n] @ drop n (en_keysr st),
        de_keysl := take (16 - n) (de_keysl st) @ rev (map (fst \<circ> round_words k0 k1) [0..<n]),
        de_keysr := take (16 - n) (de_keysr st) @ rev (map (snd \<circ> round_words k0 k1) [0..<n])\<rparr>)"
  using assms(5)
proof (induction n)
  case 0
  then show ?case using assms by simp
next
  case (Suc n)
  then have n: "n < 16" by simp
  have upd: "(xs @ drop n ys)[n := z] = (xs @ [z]) @ drop (Suc n) ys"
    if "length xs = n" "length ys = 16" for xs ys :: "u32 list" and z
    using that n by (simp add: list_update_append Cons_nth_drop_Suc [symmetric])
  have upd': "(take (16 - n) ys @ xs)[15 - n := z] = take (15 - n) ys @ z # xs"
    if "length ys = 16" for xs ys :: "u32 list" and z
  proof -
    have "take (16 - n) ys = take (15 - n) ys @ [ys ! (15 - n)]"
      using that n take_Suc_conv_app_nth [of "15 - n" ys] by (simp add: Suc_diff_le [symmetric])
    then show ?thesis using that n by (simp add: list_update_append)
  qed
  show ?case
    using Suc n assms upd upd'
    by (simp add: key_round_def sum_shifts_Suc round_words_def Let_def)
qed

lemma round_words_subkey:
  fixes w0 w1 :: u32
  defines "k0 \<equiv> key_lookup (key_perm_maskl build_tables) w0 w1"
    and "k1 \<equiv> key_lookup (key_perm_maskr build_tables) w0 w1"
  assumes "r < 16"
  shows "key_bits (round_words k0 k1 r) = subkey (block_bits (w0, w1)) r"
    and "bit (fst (round_words k0 k1 r)) p \<Longrightarrow> p < 24" and "bit (snd (round_words k0 k1 r)) p \<Longrightarrow> p < 24"
proof -
  let ?s = "sum_list (take (Suc r) key_shifts)"
  have "r \<in> set [0..<16]" using assms(3) by simp
  with shifts_bound have s: "?s \<le> 28" by blast
  have k: "\<And>p. bit k0 p \<Longrightarrow> p < 28" "\<And>p. bit k1 p \<Longrightarrow> p < 28"
    using key_lookup_28 unfolding k0_def k1_def by blast+
  have cd: "wbits 28 k0 @ wbits 28 k1 = permute key_perm (block_bits (w0, w1))"
    using key_lookup_permutes [of w0 w1] by (simp add: cd_bits_def k0_def k1_def)
  have "cd_bits (rotate28 ?s k0) (rotate28 ?s k1) = rotate ?s (wbits 28 k0) @ rotate ?s (wbits 28 k1)"
    by (simp only: cd_bits_def rotate28_rotates [OF k(1) s] rotate28_rotates [OF k(2) s])
  moreover have "wbits 28 k0 = take 28 (permute key_perm (block_bits (w0, w1)))"
    "wbits 28 k1 = drop 28 (permute key_perm (block_bits (w0, w1)))"
    by (simp_all add: cd [symmetric])
  ultimately show "key_bits (round_words k0 k1 r) = subkey (block_bits (w0, w1)) r"
    by (simp add: round_words_def comp_lookup_permutes subkey_def Let_def)
  show "bit (fst (round_words k0 k1 r)) p \<Longrightarrow> p < 24" "bit (snd (round_words k0 k1 r)) p \<Longrightarrow> p < 24"
    using comp_lookup_permutes(2,3) by (fastforce simp: round_words_def Let_def)+
qed

section \<open>The invariant of the static variables\<close>

lemma bit_salt_loop: "bit (salt_loop salt) p \<longleftrightarrow> p < 24 \<and> bit salt (23 - p)"
proof -
  have "\<forall>i\<in>set [0..<24]. drop_bit i (0x800000 :: u32) = push_bit (23 - i) 1" by code_simp
  then have "bit (drop_bit i (0x800000 :: u32)) p \<longleftrightarrow> p = 23 - i" if "i < 24" for i
    using that by (auto simp: bit_simps)
  then have "bit (salt_loop salt) p \<longleftrightarrow> (\<exists>i<24. bit salt i \<and> p = 23 - i)"
    unfolding salt_loop_def bit_fold_or by (auto simp: bit_iff_and_push_bit_not_eq_0 simp del: drop_bit_numeral_bit1)
  also have "\<dots> \<longleftrightarrow> p < 24 \<and> bit salt (23 - p)"
  proof
    assume "p < 24 \<and> bit salt (23 - p)"
    then show "\<exists>i<24. bit salt i \<and> p = 23 - i" by (intro exI [of _ "23 - p"]) auto
  qed auto
  finally show ?thesis .
qed

definition des_inv :: "des_state \<Rightarrow> bool" where
  "des_inv st \<longleftrightarrow> sixteen_keys st \<and>
     (des_initialised st \<longrightarrow> tables st = build_tables \<and> saltbits st = salt_loop (old_salt st) \<and>
        (old_rawkey0 st OR old_rawkey1 st \<noteq> 0 \<longrightarrow> scheduled (old_rawkey0 st) (old_rawkey1 st) st))"

lemma des_inv_start: "des_inv start_state"
  by (simp add: des_inv_def start_state_def sixteen_keys_def)

lemma salt_loop_0: "salt_loop 0 = 0"
  by (rule bit_word_eqI) (simp add: bit_salt_loop)

lemma des_inv_init:
  assumes "des_inv st"
  shows "des_inv (des_init st)" and "des_initialised (des_init st)"
    and "tables (des_init st) = build_tables"
  using assms by (auto simp: des_inv_def des_init_def sixteen_keys_def salt_loop_0)

lemma des_inv_setup_salt:
  assumes "des_inv st" and "des_initialised st"
  shows "des_inv (setup_salt salt st)" and "saltbits (setup_salt salt st) = salt_loop salt"
    and "scheduled w0 w1 st \<Longrightarrow> scheduled w0 w1 (setup_salt salt st)"
  using assms by (auto simp: des_inv_def setup_salt_def sixteen_keys_def scheduled_def key_pairs_def)

lemma des_setkey_scheduled:
  assumes "des_inv st" and "length key = 8"
  defines "w0 \<equiv> be32 (take 4 key)" and "w1 \<equiv> be32 (drop 4 key)"
  shows "des_inv (des_setkey key st)" and "scheduled w0 w1 (des_setkey key st)"
    and "tables (des_setkey key st) = build_tables"
    and "saltbits (des_setkey key st) = saltbits (des_init st)"
    and "des_initialised (des_setkey key st)"
proof -
  let ?i = "des_init st"
  note init = des_inv_init [OF assms(1)]
  have w1: "take 4 (drop 4 key) = drop 4 key" using assms(2) by simp
  have all: "des_inv (des_setkey key st) \<and> scheduled w0 w1 (des_setkey key st) \<and>
    tables (des_setkey key st) = build_tables \<and> saltbits (des_setkey key st) = saltbits ?i \<and>
    des_initialised (des_setkey key st)"
  proof (cases "w0 OR w1 \<noteq> 0 \<and> w0 = old_rawkey0 ?i \<and> w1 = old_rawkey1 ?i")
    case True
    then have "des_setkey key st = ?i" by (auto simp: des_setkey_def w1 w0_def w1_def Let_def)
    with True init show ?thesis by (auto simp: des_inv_def)
  next
    case False
    let ?st = "?i\<lparr>old_rawkey0 := w0, old_rawkey1 := w1\<rparr>"
    let ?k0 = "key_lookup (key_perm_maskl build_tables) w0 w1"
    let ?k1 = "key_lookup (key_perm_maskr build_tables) w0 w1"
    let ?ws = "map (round_words ?k0 ?k1) [0..<16]"
    have len: "length (en_keysl ?st) = 16" "length (en_keysr ?st) = 16"
        "length (de_keysl ?st) = 16" "length (de_keysr ?st) = 16"
      using init(1) by (simp_all add: des_inv_def sixteen_keys_def)
    have "des_setkey key st = snd (fold (key_round build_tables ?k0 ?k1) [0..<16] (0, ?st))"
      unfolding des_setkey_def Let_def w1 w0_def [symmetric] w1_def [symmetric] if_not_P [OF False]
      by (simp add: init(3) del: upt.simps)
    then have set: "des_setkey key st = ?st\<lparr>en_keysl := map fst ?ws, en_keysr := map snd ?ws,
        de_keysl := rev (map fst ?ws), de_keysr := rev (map snd ?ws)\<rparr>"
      using key_rounds [OF len, of 16 ?k0 ?k1] len by (simp del: upt.simps)
    have "zip (map fst ?ws) (map snd ?ws) = ?ws" by (rule zip_map_fst_snd)
    then have "map key_bits (key_pairs (des_setkey key st)) = subkeys (block_bits (w0, w1))"
      by (simp add: key_pairs_def set subkeys_def round_words_subkey del: upt.simps)
    moreover have "sixteen_keys (des_setkey key st)"
      using round_words_subkey(2,3) [of _ w0 w1]
      by (auto simp: sixteen_keys_def set simp del: upt.simps)
    ultimately have "scheduled w0 w1 (des_setkey key st)" by (simp add: scheduled_def)
    then show ?thesis
      using init by (simp add: des_inv_def set scheduled_def del: upt.simps)
  qed
  then show "des_inv (des_setkey key st)" "scheduled w0 w1 (des_setkey key st)"
    "tables (des_setkey key st) = build_tables" "saltbits (des_setkey key st) = saltbits ?i"
    "des_initialised (des_setkey key st)"
    by blast+
qed

section \<open>The cipher function\<close>

lemma nat_of_bits_Cons: "nat_of_bits (b # bs) = 2 ^ length bs * of_bool b + nat_of_bits bs"
proof -
  let ?f = "\<lambda>(a :: nat) b. 2 * a + of_bool b"
  have "foldl ?f a bs = 2 ^ length bs * a + foldl ?f 0 bs" for a
  proof (induction bs arbitrary: a)
    case (Cons b bs)
    from Cons [of "2 * a + of_bool b"] Cons [of "of_bool b"] show ?case by (simp add: distrib_left)
  qed simp
  from this [of "of_bool b"] show ?thesis by (simp add: nat_of_bits_def)
qed

lemma nat_of_bits_word:
  "nat_of_bits (map (\<lambda>t. bit x (n - 1 - t)) [0..<n]) = take_bit n x" for x :: nat
proof (induction n)
  case 0
  then show ?case by (simp add: nat_of_bits_def)
next
  case (Suc n)
  have "map (\<lambda>t. bit x (Suc n - 1 - t)) [0..<Suc n] = bit x n # map (\<lambda>t. bit x (n - 1 - t)) [0..<n]"
    by (subst upt_conv_Cons, simp, subst map_Suc_upt [symmetric]) (simp add: comp_def)
  then show ?case
    using Suc by (simp add: nat_of_bits_Cons take_bit_Suc_from_most)
qed

text \<open>The rearranged S-boxes are indexed by the six bits as they come.\<close>

lemma sbox_index_rows:
  fixes j :: nat
  shows "sbox_index j = 16 * nat_of_bits [bit j 5, bit j 0] + nat_of_bits [bit j 4, bit j 3, bit j 2, bit j 1]"
    and "sbox_index j < 64"
proof -
  let ?x = "sbox_index j"
  have const: "bit (0x20 :: nat) n \<longleftrightarrow> n = 5" "bit (0xf :: nat) n \<longleftrightarrow> n < 4" for n
  proof -
    have 32: "(0x20 :: nat) = push_bit 5 1" by (simp add: push_bit_eq_mult)
    have 15: "(0xf :: nat) = mask 4" by (simp add: mask_eq_exp_minus_1)
    show "bit (0x20 :: nat) n \<longleftrightarrow> n = 5" unfolding 32 by (simp only: bit_push_bit_iff_nat bit_1_iff) auto
    show "bit (0xf :: nat) n \<longleftrightarrow> n < 4" unfolding 15 by (simp add: bit_mask_iff)
  qed
  have bits: "bit ?x n \<longleftrightarrow> n = 5 \<and> bit j 5 \<or> n = 4 \<and> bit j 0 \<or> n < 4 \<and> bit j (Suc n)" for n
    unfolding sbox_index_def by (auto simp: bit_simps const bit_0)
  then have x: "take_bit 6 ?x = ?x" by (intro bit_eqI) (auto simp: bit_simps)
  have "?x = nat_of_bits (map (\<lambda>t. bit ?x (6 - 1 - t)) [0..<6])" by (simp only: nat_of_bits_word x)
  also have "map (\<lambda>t. bit ?x (6 - 1 - t)) [0..<6] = [bit j 5, bit j 0, bit j 4, bit j 3, bit j 2, bit j 1]"
    by (simp add: bits upt_rec numeral_eq_Suc)
  finally show "?x = 16 * nat_of_bits [bit j 5, bit j 0] + nat_of_bits [bit j 4, bit j 3, bit j 2, bit j 1]"
    by (simp add: nat_of_bits_def)
  have "take_bit 6 ?x < 2 ^ 6" by (rule take_bit_nat_less_exp)
  with x show "?x < 64" by simp
qed

lemma sboxes_4_bits: "list_all (\<lambda>row. length row = 64 \<and> list_all (\<lambda>s. take_bit 4 s = s) row) sbox"
  by code_simp

lemma u_sbox_bits:
  assumes "i < 8" and "j < 64"
  shows "s_box i (map (\<lambda>t. bit j (5 - t)) [0..<6]) = map (\<lambda>t. bit (u_sbox ! i ! j) (3 - t)) [0..<4]"
    and "take_bit 4 (u_sbox ! i ! j) = u_sbox ! i ! j"
proof -
  note index = sbox_index_rows [of j]
  have u: "u_sbox ! i ! j = sbox ! i ! sbox_index j" using assms by (simp add: u_sbox_def)
  show "s_box i (map (\<lambda>t. bit j (5 - t)) [0..<6]) = map (\<lambda>t. bit (u_sbox ! i ! j) (3 - t)) [0..<4]"
    using index by (simp add: s_box_def u)
  have "length sbox = 8" by (simp add: sbox_def)
  then have "sbox ! i \<in> set sbox" using assms(1) by simp
  with sboxes_4_bits have row: "length (sbox ! i) = 64 \<and> list_all (\<lambda>s. take_bit 4 s = s) (sbox ! i)"
    by (auto simp: list_all_iff)
  then have "sbox ! i ! sbox_index j \<in> set (sbox ! i)" using index by simp
  with row show "take_bit 4 (u_sbox ! i ! j) = u_sbox ! i ! j" by (simp add: u list_all_iff)
qed

lemma nth_concat_const:
  assumes "\<And>i. i < a \<Longrightarrow> length (f i) = b" and "i < a" and "j < b"
  shows "concat (map f [0..<a]) ! (b * i + j) = f i ! j"
  using assms
proof (induction a)
  case (Suc a)
  have len: "length (concat (map f [0..<a])) = b * a"
  proof -
    have "map (length \<circ> f) [0..<a] = map (\<lambda>_. b) [0..<a]" using Suc.prems(1) by simp
    then show ?thesis by (simp only: length_concat map_map) (simp add: sum_list_triv)
  qed
  show ?case
  proof (cases "i < a")
    case True
    then have "b * i + j < b * Suc i" using Suc.prems(3) by simp
    also have "\<dots> \<le> b * a" using True by (intro mult_le_mono2) simp
    finally show ?thesis using Suc True len by (simp add: nth_append)
  next
    case False
    then have "i = a" using Suc.prems(2) by simp
    then show ?thesis using len Suc.prems(3) by (simp add: nth_append)
  qed
qed simp

lemma m_sbox_nth:
  assumes "i < 64" and "j < 64"
  shows "m_sbox_of b ! (64 * i + j) = push_bit 4 (u_sbox ! (2 * b) ! i) OR u_sbox ! (2 * b + 1) ! j"
  using nth_concat_const [of 64 "\<lambda>i. map (\<lambda>j. push_bit 4 (u_sbox ! (2 * b) ! i) OR u_sbox ! (2 * b + 1) ! j) [0..<64]" 64 i j] assms
  by (simp add: m_sbox_of_def del: upt.simps)

text \<open>Bits of the six-bit groups of a word of 24 bits.\<close>

definition group :: "u32 \<Rightarrow> nat \<Rightarrow> bool list" where
  "group w s = map (\<lambda>t. bit w (s + 5 - t)) [0..<6]"

lemma m_sbox_bits:
  assumes b: "b < 4" and v: "v = m_sbox_of b ! unat (take_bit 12 (drop_bit s (w :: u32)))"
  shows "map (\<lambda>t. bit v (7 - t)) [0..<8] = s_box (2 * b) (group w (s + 6)) @ s_box (2 * b + 1) (group w s)"
proof -
  let ?x = "take_bit 12 (unat (drop_bit s w))"
  have x: "unat (take_bit 12 (drop_bit s w)) = ?x" by (simp only: unsigned_take_bit_eq)
  let ?i = "?x div 64" and ?j = "?x mod 64"
  have lt: "?i < 64" "?j < 64" by (simp_all add: take_bit_eq_mod less_mult_imp_div_less)
  have bi: "bit ?i (5 - t) = bit w (s + 6 + 5 - t)" if "t < 6" for t
  proof -
    have "?i = drop_bit 6 ?x" by (simp add: drop_bit_eq_div)
    with that show ?thesis by (auto simp: bit_simps add.commute)
  qed
  have bj: "bit ?j (5 - t) = bit w (s + 5 - t)" if "t < 6" for t
  proof -
    have "?j = take_bit 6 ?x" by (simp add: take_bit_eq_mod)
    with that show ?thesis by (auto simp: bit_simps)
  qed
  let ?u = "u_sbox ! (2 * b) ! ?i" and ?u' = "u_sbox ! (2 * b + 1) ! ?j"
  have v': "v = push_bit 4 ?u OR ?u'"
    using m_sbox_nth [OF lt, of b] by (simp add: v x)
  have hi: "s_box (2 * b) (group w (s + 6)) = map (\<lambda>t. bit ?u (3 - t)) [0..<4]"
  proof -
    have "group w (s + 6) = map (\<lambda>t. bit ?i (5 - t)) [0..<6]" unfolding group_def using bi by simp
    then show ?thesis using u_sbox_bits(1) [of "2 * b" ?i] b lt by simp
  qed
  have lo: "s_box (2 * b + 1) (group w s) = map (\<lambda>t. bit ?u' (3 - t)) [0..<4]"
  proof -
    have "group w s = map (\<lambda>t. bit ?j (5 - t)) [0..<6]" unfolding group_def using bj by simp
    then show ?thesis using u_sbox_bits(1) [of "2 * b + 1" ?j] b lt by simp
  qed
  have low: "bit ?u' n \<Longrightarrow> n < 4" for n
  proof -
    have "2 * b + 1 < 8" using b by simp
    from u_sbox_bits(2) [OF this lt(2)] show "bit ?u' n \<Longrightarrow> n < 4" by (metis bit_take_bit_iff)
  qed
  have "bit v (7 - t) = bit ?u (3 - t)" if "t < 4" for t
    using that low [of "7 - t"] unfolding v' by (auto simp: bit_simps)
  moreover have "bit v (3 - t) = bit ?u' (3 - t)" for t
    unfolding v' by (auto simp: bit_simps)
  moreover have "map (\<lambda>t. bit v (7 - t)) [0..<8] = map (\<lambda>t. bit v (7 - t)) [0..<4] @ map (\<lambda>t. bit v (3 - t)) [0..<4]"
    by (simp add: upt_rec numeral_eq_Suc)
  ultimately show ?thesis unfolding hi lo by simp
qed

text \<open>The expansion, with the bits that each of its terms selects.\<close>

lemma bit_range_u32:
  "(w :: u32) = push_bit a (mask b) \<Longrightarrow> a + b \<le> 32 \<Longrightarrow> bit w n \<longleftrightarrow> a \<le> n \<and> n < a + b"
  by (auto simp: bit_simps)

lemma expand_masks:
  "(0x00000001 :: u32) = push_bit 0 (mask 1)" "(0xf8000000 :: u32) = push_bit 27 (mask 5)"
  "(0x1f800000 :: u32) = push_bit 23 (mask 6)" "(0x01f80000 :: u32) = push_bit 19 (mask 6)"
  "(0x001f8000 :: u32) = push_bit 15 (mask 6)" "(0x0001f800 :: u32) = push_bit 11 (mask 6)"
  "(0x00001f80 :: u32) = push_bit 7 (mask 6)" "(0x000001f8 :: u32) = push_bit 3 (mask 6)"
  "(0x0000001f :: u32) = push_bit 0 (mask 5)" "(0x80000000 :: u32) = push_bit 31 (mask 1)"
  by (simp_all add: mask_eq_exp_minus_1)

lemmas expand_bit_simps = bit_push_bit_iff bit_drop_bit_eq bit_and_iff comp_def expand_masks [THEN bit_range_u32]

lemma bit_expand_l:
  "bit (expand_l r) p \<longleftrightarrow> p = 23 \<and> bit r 0 \<or> 18 \<le> p \<and> p < 23 \<and> bit r (p + 9) \<or>
     12 \<le> p \<and> p < 18 \<and> bit r (p + 11) \<or> 6 \<le> p \<and> p < 12 \<and> bit r (p + 13) \<or> p < 6 \<and> bit r (p + 15)"
  unfolding expand_l_def by (simp only: bit_or_iff expand_bit_simps) (auto simp: add.commute)

lemma expand_r_terms:
  "bit (push_bit 7 (r AND 0x0001f800 :: u32)) p \<longleftrightarrow> 18 \<le> p \<and> p < 24 \<and> bit r (p - 7)"
  "bit (push_bit 5 (r AND 0x00001f80 :: u32)) p \<longleftrightarrow> 12 \<le> p \<and> p < 18 \<and> bit r (p - 5)"
  "bit (push_bit 3 (r AND 0x000001f8 :: u32)) p \<longleftrightarrow> 6 \<le> p \<and> p < 12 \<and> bit r (p - 3)"
  "bit (push_bit 1 (r AND 0x0000001f :: u32)) p \<longleftrightarrow> 1 \<le> p \<and> p < 6 \<and> bit r (p - 1)"
  "bit (drop_bit 31 (r AND 0x80000000 :: u32)) p \<longleftrightarrow> p = 0 \<and> bit r 31"
  by (simp only: expand_bit_simps; (auto)[1])+

lemma bit_expand_r:
  "bit (expand_r r) p \<longleftrightarrow> 18 \<le> p \<and> p < 24 \<and> bit r (p - 7) \<or> 12 \<le> p \<and> p < 18 \<and> bit r (p - 5) \<or>
     6 \<le> p \<and> p < 12 \<and> bit r (p - 3) \<or> 1 \<le> p \<and> p < 6 \<and> bit r (p - 1) \<or> p = 0 \<and> bit r 31"
  unfolding expand_r_def bit_or_iff expand_r_terms by (simp only: disj_assoc)

lemma key_bits_expand: "key_bits (expand_l r, expand_r r) = permute e_table (wbits 32 r)"
proof (rule nth_equalityI)
  fix n assume "n < length (key_bits (expand_l r, expand_r r))"
  then have n: "n \<in> set [0..<48]" by simp
  have "\<forall>n\<in>set [0..<48]. e_table ! n - 1 < 32 \<and>
      31 - (e_table ! n - 1) = (if n < 24 then let p = 23 - n in
         if p = 23 then 0 else if 18 \<le> p then p + 9 else if 12 \<le> p then p + 11 else if 6 \<le> p then p + 13 else p + 15
       else let p = 47 - n in if 18 \<le> p then p - 7 else if 12 \<le> p then p - 5 else if 6 \<le> p then p - 3
         else if 1 \<le> p then p - 1 else 31)"
    by code_simp
  note tab = bspec [OF this n]
  have "n < 48" using n by simp
  have "permute e_table (wbits 32 r) ! n \<longleftrightarrow> bit r (31 - (e_table ! n - 1))"
    using tab \<open>n < 48\<close> by simp
  also have "\<dots> \<longleftrightarrow> key_bits (expand_l r, expand_r r) ! n"
    using \<open>n < 48\<close> unfolding nth_key_bits [OF \<open>n < 48\<close>] tab [THEN conjunct2]
    by (auto simp: bit_expand_l bit_expand_r Let_def)
  finally show "key_bits (expand_l r, expand_r r) ! n = permute e_table (wbits 32 r) ! n" ..
qed simp

lemma nth_xor_bits: "n < length a \<Longrightarrow> n < length b \<Longrightarrow> xor_bits a b ! n = (a ! n \<noteq> b ! n)"
  by (simp add: xor_bits_def)

lemma length_xor_bits [simp]: "length (xor_bits a b) = min (length a) (length b)"
  by (simp add: xor_bits_def)

lemma salted_key_bits:
  fixes el er salt :: u32
  defines "f \<equiv> (el XOR er) AND salt_loop salt"
  shows "key_bits (el XOR (f XOR kl), er XOR (f XOR kr)) =
    xor_bits (salted salt (key_bits (el, er))) (key_bits (kl, kr))"
proof (rule nth_equalityI)
  fix n assume "n < length (key_bits (el XOR (f XOR kl), er XOR (f XOR kr)))"
  then have n: "n < 48" by simp
  have "n mod 24 = (if n < 24 then n else n - 24)" "(n + 24) mod 48 = (if n < 24 then n + 24 else n - 24)"
    using n by (simp_all add: mod_if)
  then show "key_bits (el XOR (f XOR kl), er XOR (f XOR kr)) ! n =
      xor_bits (salted salt (key_bits (el, er))) (key_bits (kl, kr)) ! n"
    using n by (simp add: nth_xor_bits salted_def nth_key_bits f_def bit_xor_iff bit_and_iff bit_salt_loop) auto
qed (simp add: salted_def)

lemma length_group [simp]: "length (group w s) = 6"
  by (simp add: group_def)

lemma group_key_bits:
  "i < 4 \<Longrightarrow> take 6 (drop (6 * i) (key_bits (a, b))) = group a (18 - 6 * i)"
  "i < 4 \<Longrightarrow> take 6 (drop (6 * (i + 4)) (key_bits (a, b))) = group b (18 - 6 * i)"
  by (intro nth_equalityI; simp add: group_def nth_key_bits)+

lemma bit_psbox:
  fixes v :: "nat \<Rightarrow> byte"
  assumes "\<And>b. b < 4 \<Longrightarrow> out b = psbox build_tables ! b ! unat (v b)"
  shows "bit (out 0 OR out 1 OR out 2 OR out 3) p \<longleftrightarrow>
    (\<exists>b<4. \<exists>j<8. bit (v b) (7 - j) \<and> bit (bits32 ! (un_pbox build_tables ! (8 * b + j))) p)"
proof -
  have "unat (v b) < 256" for b :: nat using unsigned_less [of "v b", where ?'a = nat] by simp
  then have "bit (out b) p \<longleftrightarrow> (\<exists>j<8. bit (v b) (7 - j) \<and> bit (bits32 ! (un_pbox build_tables ! (8 * b + j))) p)"
    if "b < 4" for b
    using that assms [OF that] unfolding build_tables_simps(7) by (simp add: mask_table_nth bit_or_mask)
  then show ?thesis by (simp add: ex_less_4 bit_or_iff)
qed

lemma des_f_cipher_fun:
  assumes "\<And>p. bit kl p \<Longrightarrow> p < 24" and "\<And>p. bit kr p \<Longrightarrow> p < 24"
  shows "wbits 32 (des_f build_tables (salt_loop salt) (kl, kr) r) =
    cipher_fun salt (key_bits (kl, kr)) (wbits 32 r)"
proof -
  let ?el = "expand_l r" and ?er = "expand_r r"
  let ?f = "(?el XOR ?er) AND salt_loop salt"
  define x where "x = ?el XOR (?f XOR kl)"
  define y where "y = ?er XOR (?f XOR kr)"
  have small: "bit ?el p \<Longrightarrow> p < 24" "bit ?er p \<Longrightarrow> p < 24" for p
    unfolding bit_expand_l bit_expand_r by auto
  have "bit x p \<Longrightarrow> p < 24" "bit y p \<Longrightarrow> p < 24" for p
    using assms small by (auto simp: x_def y_def bit_xor_iff bit_and_iff)
  then have d12: "drop_bit 12 x = take_bit 12 (drop_bit 12 x)" "drop_bit 12 y = take_bit 12 (drop_bit 12 y)"
    by (fastforce intro!: bit_word_eqI simp: bit_simps)+
  have xy: "key_bits (x, y) = xor_bits (salted salt (permute e_table (wbits 32 r))) (key_bits (kl, kr))"
    unfolding x_def y_def salted_key_bits key_bits_expand ..
  define v where "v b = m_sbox_of b ! unat (take_bit 12 (drop_bit (if even b then 12 else 0) (if b < 2 then x else y)))"
    for b :: nat
  let ?F = "des_f build_tables (salt_loop salt) (kl, kr) r"
  let ?out = "\<lambda>b. psbox build_tables ! b ! unat (v b)"
  have F: "?F = ?out 0 OR ?out 1 OR ?out 2 OR ?out 3"
  proof -
    have "m_sbox build_tables ! 0 ! unat (drop_bit 12 x) = v 0" "m_sbox build_tables ! 1 ! unat (x AND 0xfff) = v 1"
      "m_sbox build_tables ! 2 ! unat (drop_bit 12 y) = v 2" "m_sbox build_tables ! 3 ! unat (y AND 0xfff) = v 3"
      unfolding build_tables_simps(6) and_mask_u32
      by (simp_all add: v_def d12 [symmetric] flip: numeral_2_eq_2)
    then show ?thesis
      unfolding des_f_def prod.case Let_def x_def [symmetric] y_def [symmetric] by simp
  qed
  let ?s = "\<lambda>b. map (\<lambda>t. bit (v b) (7 - t)) [0..<8]"
  let ?S = "\<lambda>i. s_box i (take 6 (drop (6 * i) (key_bits (x, y))))"
  have groups: "?S 0 = s_box 0 (group x 18)" "?S 1 = s_box 1 (group x 12)" "?S 2 = s_box 2 (group x 6)"
    "?S 3 = s_box 3 (group x 0)" "?S 4 = s_box 4 (group y 18)" "?S 5 = s_box 5 (group y 12)"
    "?S 6 = s_box 6 (group y 6)" "?S 7 = s_box 7 (group y 0)"
    using group_key_bits(1) [of 0 x y] group_key_bits(1) [of 1 x y] group_key_bits(1) [of 2 x y]
      group_key_bits(1) [of 3 x y] group_key_bits(2) [of 0 x y] group_key_bits(2) [of 1 x y]
      group_key_bits(2) [of 2 x y] group_key_bits(2) [of 3 x y]
    by simp_all
  have boxes: "?s 0 = ?S 0 @ ?S 1" "?s 1 = ?S 2 @ ?S 3" "?s 2 = ?S 4 @ ?S 5" "?s 3 = ?S 6 @ ?S 7"
    unfolding groups
    using m_sbox_bits [of 0 "v 0" 12 x] m_sbox_bits [of 1 "v 1" 0 x]
      m_sbox_bits [of 2 "v 2" 12 y] m_sbox_bits [of 3 "v 3" 0 y]
    by (simp_all add: v_def del: upt.simps)
  define sout where "sout = concat (map ?s [0..<4])"
  have upts: "[0..<4] = [0, 1, 2, 3 :: nat]" "[0..<8] = [0, 1, 2, 3, 4, 5, 6, 7 :: nat]"
    by (simp_all add: upt_rec)
  have "sout = ?s 0 @ ?s 1 @ ?s 2 @ ?s 3" by (simp only: sout_def upts(1) list.map concat.simps append_assoc append_Nil2)
  also have "\<dots> = concat (map ?S [0..<8])" by (simp only: boxes append_assoc) (simp only: upts(2) list.map concat.simps append_assoc append_Nil2)
  finally have "sout = concat (map ?S [0..<8])" .
  then have "cipher_fun salt (key_bits (kl, kr)) (wbits 32 r) = permute pbox sout"
    by (simp add: cipher_fun_def xy Let_def)
  moreover have "wbits 32 ?F = permute pbox sout"
  proof (rule nth_equalityI)
    fix n assume "n < length (wbits 32 ?F)"
    then have n: "n < 32" by simp
    have sout: "sout ! (8 * b + j) = bit (v b) (7 - j)" if "b < 4" "j < 8" for b j
      unfolding sout_def using nth_concat_const [of 4 ?s 8 b j] that by simp
    have "bit ?F (31 - n) \<longleftrightarrow> (\<exists>b<4. \<exists>j<8. sout ! (8 * b + j) \<and>
        bit (bits32 ! (un_pbox build_tables ! (8 * b + j))) (31 - n))"
      unfolding F by (subst bit_psbox [of ?out v]) (simp_all add: sout cong: conj_cong)
    also have "\<dots> \<longleftrightarrow> (\<exists>q<32. sout ! q \<and> bit (bits32 ! (un_pbox build_tables ! q)) (31 - n))"
      using ex_less_mult [of 4 8 "\<lambda>q. sout ! q \<and> bit (bits32 ! (un_pbox build_tables ! q)) (31 - n)"] by simp
    also have "\<dots> \<longleftrightarrow> (\<exists>q<32. sout ! q \<and> q = pbox ! n - 1)"
    proof -
      have "bit (bits32 ! (un_pbox build_tables ! q)) (31 - n) \<longleftrightarrow> q = pbox ! n - 1" if "q < 32" for q
        using pbox.inverse_eq [of q n] pbox.inverse_covered [of q] that n
        by (auto simp: build_tables_simps bit_bits32)
      then show ?thesis by (simp cong: conj_cong)
    qed
    also have "\<dots> \<longleftrightarrow> sout ! (pbox ! n - 1)" using pbox.src_nth [of n] n by auto
    finally show "wbits 32 ?F ! n = permute pbox sout ! n" using n by simp
  qed simp
  ultimately show ?thesis by simp
qed

section \<open>Feistel networks\<close>

text \<open>
  A round that is undone by itself between two exchanges of the halves. A pass through the network
  exchanges the halves at the end, so a pass with the keys in reverse order undoes it.
\<close>

locale feistel =
  fixes round :: "'k \<Rightarrow> 'w \<times> 'w \<Rightarrow> 'w \<times> 'w"
  assumes undo: "round k (prod.swap (round k x)) = prod.swap x"
begin

lemma rounds_undo: "fold round (rev ks) (prod.swap (fold round ks x)) = prod.swap x"
proof (induction ks arbitrary: x)
  case (Cons k ks)
  from Cons [of "round k x"] show ?case by (simp add: undo)
qed simp

lemma pass_undo:
  "prod.swap (fold round (rev ks) (prod.swap (fold round ks x))) = x"
  by (simp add: rounds_undo)

lemma passes_undo:
  "((\<lambda>x. prod.swap (fold round (rev ks) x)) ^^ n) (((\<lambda>x. prod.swap (fold round ks x)) ^^ n) x) = x"
proof (induction n)
  case (Suc n)
  then show ?case
    unfolding funpow.simps(2) [where f = "\<lambda>x. prod.swap (fold round ks x)"]
      funpow_Suc_right [where f = "\<lambda>x. prod.swap (fold round (rev ks) x)"]
    by (simp only: comp_def pass_undo)
qed simp

end

interpretation des_network: feistel "des_round tab salt" for tab salt
proof
  fix k x
  show "des_round tab salt k (prod.swap (des_round tab salt k x)) = prod.swap x"
    by (cases x) (simp add: des_round_def Let_def xor.left_commute [symmetric])
qed

lemma des_pass_swap: "des_pass tab salt ks = (\<lambda>x. prod.swap (fold (des_round tab salt) ks x))"
  by (rule ext) (simp add: des_pass_def Let_def prod.swap_def split_beta)

section \<open>The code computes DES\<close>

definition half_bits :: "u32 \<times> u32 \<Rightarrow> bool list \<times> bool list" where
  "half_bits x = (wbits 32 (fst x), wbits 32 (snd x))"

definition small_key :: "u32 \<times> u32 \<Rightarrow> bool" where
  "small_key k \<longleftrightarrow> (\<forall>p. (bit (fst k) p \<longrightarrow> p < 24) \<and> (bit (snd k) p \<longrightarrow> p < 24))"

lemma wbits_xor: "wbits 32 (v XOR w) = xor_bits (wbits 32 w) (wbits 32 v)"
  by (rule nth_equalityI) (auto simp: nth_xor_bits bit_xor_iff)

lemma des_round_bits:
  assumes "small_key k"
  shows "half_bits (des_round build_tables (salt_loop salt) k x) = cipher_round salt (key_bits k) (half_bits x)"
proof (cases k; cases x)
  fix kl kr l r assume kx: "k = (kl, kr)" "x = (l, r)"
  have "wbits 32 (des_f build_tables (salt_loop salt) (kl, kr) r) = cipher_fun salt (key_bits (kl, kr)) (wbits 32 r)"
    using assms by (intro des_f_cipher_fun) (auto simp: small_key_def kx)
  then show ?thesis
    by (simp add: kx des_round_def cipher_round_def half_bits_def Let_def wbits_xor)
qed

lemma des_rounds_bits:
  "\<forall>k\<in>set ks. small_key k \<Longrightarrow>
     half_bits (fold (des_round build_tables (salt_loop salt)) ks x) =
       fold (cipher_round salt) (map key_bits ks) (half_bits x)"
  by (induction ks arbitrary: x) (simp_all add: des_round_bits)

definition pass_bits :: "u32 \<Rightarrow> bool list list \<Rightarrow> bool list \<Rightarrow> bool list" where
  "pass_bits salt ks p = (let (l, r) = fold (cipher_round salt) ks (take 32 p, drop 32 p) in r @ l)"

lemma des_pass_bits: "des salt ks b = permute ip_inverse (pass_bits salt ks (permute IP b))"
  by (simp add: des_def pass_bits_def Let_def split_beta)

lemma block_bits_pass:
  assumes "\<forall>k\<in>set ks. small_key k"
  shows "block_bits (des_pass build_tables (salt_loop salt) ks x) = pass_bits salt (map key_bits ks) (block_bits x)"
proof -
  have "half_bits x = (take 32 (block_bits x), drop 32 (block_bits x))"
    by (simp add: half_bits_def block_bits_def)
  with des_rounds_bits [OF assms, of salt x] show ?thesis
    by (simp add: des_pass_swap pass_bits_def block_bits_def half_bits_def split_beta)
       (metis fst_conv snd_conv)
qed

lemma block_bits_passes:
  assumes "\<forall>k\<in>set ks. small_key k"
  shows "block_bits ((des_pass build_tables (salt_loop salt) ks ^^ n) x) =
    (pass_bits salt (map key_bits ks) ^^ n) (block_bits x)"
  by (induction n) (simp_all add: block_bits_pass [OF assms])

lemma permute_inverse:
  assumes "length b = 64"
  shows "permute IP (permute ip_inverse b) = b" and "permute ip_inverse (permute IP b) = b"
proof -
  have tab: "IP ! n - 1 < 64 \<and> ip_inverse ! n - 1 < 64 \<and>
      IP ! (ip_inverse ! n - 1) - 1 = n \<and> ip_inverse ! (IP ! n - 1) - 1 = n" if "n < 64" for n
    using ip_tables_inverse that by simp
  show "permute IP (permute ip_inverse b) = b" "permute ip_inverse (permute IP b) = b"
    by (intro nth_equalityI; use assms tab in simp)+
qed

lemma length_pass_bits:
  assumes "length p = 64"
  shows "length (pass_bits salt ks p) = 64"
proof -
  have "length (fst (fold (cipher_round salt) ks x)) = 32 \<and> length (snd (fold (cipher_round salt) ks x)) = 32"
    if "length (fst x) = 32 \<and> length (snd x) = 32" for x
    using that
    by (induction ks arbitrary: x) (simp_all add: cipher_round_def split_beta cipher_fun_def Let_def)
  from this [of "(take 32 p, drop 32 p)"] assms show ?thesis
    by (simp add: pass_bits_def Let_def split_beta)
qed

lemma des_iterated:
  assumes "length b = 64"
  shows "(des salt ks ^^ n) b = permute ip_inverse ((pass_bits salt ks ^^ n) (permute IP b))"
proof -
  have len: "length ((pass_bits salt ks ^^ n) (permute IP b)) = 64" for n
    by (induction n) (simp_all add: length_pass_bits)
  show ?thesis
    by (induction n) (simp_all add: permute_inverse assms des_pass_bits len)
qed

lemma sixteen_keys_small: "sixteen_keys st \<Longrightarrow> k \<in> set (key_pairs st) \<Longrightarrow> small_key k"
  by (cases k) (auto simp: sixteen_keys_def key_pairs_def small_key_def dest: set_zip_leftD set_zip_rightD)

lemma do_des_bits:
  assumes "tables st = build_tables" and "saltbits st = salt_loop salt" and "scheduled w0 w1 st" and "cnt \<noteq> 0"
  defines "ks \<equiv> subkeys (block_bits (w0, w1))"
  shows "\<exists>x. do_des st l r cnt = Some x \<and>
    block_bits x = (des salt (if cnt > 0 then ks else rev ks) ^^ nat \<bar>cnt\<bar>) (block_bits (l, r))"
proof -
  let ?ks = "if cnt > 0 then key_pairs st else rev (key_pairs st)"
  have sixteen: "sixteen_keys st" and ks: "map key_bits (key_pairs st) = ks"
    using assms(3) by (simp_all add: scheduled_def ks_def)
  have ks': "map key_bits ?ks = (if cnt > 0 then ks else rev ks)" by (simp add: ks rev_map [symmetric])
  have small: "\<forall>k\<in>set ?ks. small_key k" using sixteen_keys_small [OF sixteen] by simp
  let ?l = "byte_lookup (ip_maskl build_tables) l r" and ?r = "byte_lookup (ip_maskr build_tables) l r"
  let ?y = "(des_pass build_tables (salt_loop salt) ?ks ^^ nat \<bar>cnt\<bar>) (?l, ?r)"
  have pairs: "(if cnt > 0 then zip (en_keysl st) (en_keysr st) else zip (de_keysl st) (de_keysr st)) = ?ks"
    using sixteen by (simp add: sixteen_keys_def key_pairs_def zip_rev)
  have "do_des st l r cnt = Some (byte_lookup (fp_maskl build_tables) (fst ?y) (snd ?y),
      byte_lookup (fp_maskr build_tables) (fst ?y) (snd ?y))"
    using assms(4) by (simp only: do_des_def assms(1,2) pairs Let_def if_False split_beta)
  moreover have "block_bits ?y = (pass_bits salt (map key_bits ?ks) ^^ nat \<bar>cnt\<bar>) (permute IP (block_bits (l, r)))"
    unfolding block_bits_passes [OF small] init_perm_permutes ..
  ultimately show ?thesis
    using final_perm_permutes [of "fst ?y" "snd ?y"]
    by (simp add: des_iterated ks')
qed

end
