(* ===== verification/Des_Crypt.thy ===== *)
theory Des_Crypt
  imports Des_Spec
begin

text \<open>
  The interface of \<open>cookbook/python2.7/jni/libcrypt/des.c\<close>: \<open>setkey\<close>, \<open>encrypt\<close> and \<open>__des_crypt\<close> in
  every state of the static variables that calls of them can reach.
\<close>

section \<open>Bits of characters\<close>

definition low_bits :: "byte list \<Rightarrow> bool list" where
  "low_bits cs = map (\<lambda>c. bit c 0) cs"

lemma length_low_bits [simp]: "length (low_bits cs) = length cs"
  by (simp add: low_bits_def)

lemma and_1_bit: "(c :: byte) AND 1 \<noteq> 0 \<longleftrightarrow> bit c 0"
  using bit_iff_and_push_bit_not_eq_0 [of c 0] by simp

lemma length_byte_bits [simp]: "length (byte_bits bs) = 8 * length bs"
  by (induction bs) (simp_all add: byte_bits_def)

lemma nth_byte_bits:
  assumes "i < length bs" and "j < 8"
  shows "byte_bits bs ! (8 * i + j) = bit (bs ! i) (7 - j)"
proof -
  let ?f = "\<lambda>i. map (\<lambda>j. bit (bs ! i) (7 - j)) [0..<8]"
  have "map (\<lambda>b. map (\<lambda>i. bit b (7 - i)) [0..<8]) bs = map ?f [0..<length bs]"
    by (rule nth_equalityI) simp_all
  then show ?thesis
    using nth_concat_const [of "length bs" ?f 8 i j] assms by (simp add: byte_bits_def del: upt.simps)
qed

lemma less_mult_split:
  assumes "n < b * a"
  obtains i j where "n = b * i + j" "i < a" "j < (b :: nat)"
proof
  have "0 < b" using assms by (cases b) simp_all
  then show "n = b * (n div b) + n mod b" "n div b < a" "n mod b < b"
    using assms by (simp_all add: less_mult_imp_div_less mult.commute)
qed

lemma block_bits_be32:
  assumes "length p = 8"
  shows "block_bits (be32 (take 4 p), be32 (drop 4 p)) = byte_bits p"
proof -
  from assms obtain a b c d e f g h where p: "p = [a, b, c, d, e, f, g, h]"
    by (auto simp: numeral_eq_Suc length_Suc_conv)
  have w: "wbits 32 (be32 [a, b, c, d]) = byte_bits [a, b, c, d]" for a b c d
    by (simp add: wbits_def byte_bits_def bit_be32 upt_rec)
  show ?thesis
    unfolding block_bits_def using w [of a b c d] w [of e f g h]
    by (simp add: p byte_bits_def)
qed

lemma minus_eq_minus: "i \<le> n \<Longrightarrow> j \<le> n \<Longrightarrow> n - i = n - j \<longleftrightarrow> j = (i :: nat)"
  by auto

section \<open>Setting a key of 64 characters\<close>

definition packed_key :: "byte list \<Rightarrow> byte list" where
  "packed_key key =
     map (\<lambda>i. fold (\<lambda>j p. if key ! (8 * i + j) AND 1 \<noteq> 0 then p OR bits8 ! j else p) [0..<8] 0) [0..<8]"

lemma bits8_eq: "j < 8 \<Longrightarrow> bit (bits8 ! j) p \<longleftrightarrow> p = 7 - j"
proof -
  have "\<forall>j\<in>set [0..<8]. bits8 ! j = push_bit (7 - j) 1" by code_simp
  moreover assume "j < 8"
  ultimately show ?thesis by (auto simp: bit_simps)
qed

lemma byte_bits_packed_key:
  assumes "length key = 64"
  shows "byte_bits (packed_key key) = low_bits key"
proof (rule nth_equalityI)
  fix n assume "n < length (byte_bits (packed_key key))"
  then have "n < 8 * 8" by (simp add: packed_key_def)
  then obtain i j where n: "n = 8 * i + j" "i < 8" "j < 8" by (rule less_mult_split)
  have "bit (packed_key key ! i) (7 - j) \<longleftrightarrow> (\<exists>t<8. bit (key ! (8 * i + t)) 0 \<and> bit (bits8 ! t) (7 - j))"
    using n by (auto simp: packed_key_def bit_fold_or and_1_bit simp del: upt.simps)
  also have "\<dots> \<longleftrightarrow> bit (key ! (8 * i + j)) 0"
    using n by (auto simp: bits8_eq minus_eq_minus)
  finally show "byte_bits (packed_key key) ! n = low_bits key ! n"
    using n assms by (simp add: nth_byte_bits packed_key_def low_bits_def)
qed (simp add: packed_key_def assms)

lemma setkey_packed: "setkey key st = des_setkey (packed_key key) st"
  by (simp add: setkey_def packed_key_def)

lemma length_packed_key [simp]: "length (packed_key key) = 8"
  by (simp add: packed_key_def)

definition scheduled_bits :: "bool list \<Rightarrow> des_state \<Rightarrow> bool" where
  "scheduled_bits kb st \<longleftrightarrow> des_inv st \<and> des_initialised st \<and>
     (\<exists>w0 w1. scheduled w0 w1 st \<and> kb = block_bits (w0, w1))"

lemma scheduled_setkey:
  assumes "des_inv st" and "length key = 8"
  shows "scheduled_bits (byte_bits key) (des_setkey key st)"
  unfolding scheduled_bits_def
  using des_setkey_scheduled [OF assms] block_bits_be32 [OF assms(2)] by metis

section \<open>Encrypting a block of 64 characters\<close>

definition packed_words :: "byte list \<Rightarrow> u32 list" where
  "packed_words block =
     map (\<lambda>i. fold (\<lambda>j w. if block ! (32 * i + j) AND 1 \<noteq> 0 then w OR bits32 ! j else w) [0..<32] 0) [0..<2]"

lemma block_bits_packed_words:
  assumes "length block = 64"
  shows "block_bits (packed_words block ! 0, packed_words block ! 1) = low_bits block"
proof (rule nth_equalityI)
  have w: "bit (packed_words block ! i) (31 - j) \<longleftrightarrow> bit (block ! (32 * i + j)) 0" if "i < 2" "j < 32" for i j
  proof -
    have "bit (packed_words block ! i) (31 - j) \<longleftrightarrow>
        (\<exists>t<32. bit (block ! (32 * i + t)) 0 \<and> bit (bits32 ! t) (31 - j))"
      using that by (auto simp: packed_words_def bit_fold_or and_1_bit simp del: upt.simps)
    also have "\<dots> \<longleftrightarrow> bit (block ! (32 * i + j)) 0"
      using that by (auto simp: bit_bits32 minus_eq_minus)
    finally show ?thesis .
  qed
  fix n assume "n < length (block_bits (packed_words block ! 0, packed_words block ! 1))"
  then have n: "n < 64" by simp
  show "block_bits (packed_words block ! 0, packed_words block ! 1) ! n = low_bits block ! n"
  proof (cases "n < 32")
    case True
    then show ?thesis using w [of 0 n] assms by (simp add: nth_block_bits low_bits_def)
  next
    case False
    then obtain m where "n = 32 + m" by (metis le_iff_add not_le)
    then show ?thesis using w [of 1 m] assms n by (simp add: nth_block_bits low_bits_def)
  qed
qed (simp add: assms)

lemma unpacked_words:
  "concat (map (\<lambda>i. map (\<lambda>j. if [l, r] ! i AND bits32 ! j \<noteq> 0 then 1 else 0) [0..<32]) [0..<2]) =
     map of_bool (block_bits (l, r))"
proof -
  have "w AND bits32 ! j \<noteq> 0 \<longleftrightarrow> bit w (31 - j)" if "j < 32" for w j
    using that by (simp add: bits32_eq bit_iff_and_push_bit_not_eq_0)
  then have m: "map (\<lambda>j. if w AND bits32 ! j \<noteq> 0 then 1 else 0) [0..<32] = map of_bool (wbits 32 w)" for w
    by (auto simp: wbits_def)
  have two: "[0..<2] = [0, Suc 0]" by (simp add: upt_rec)
  show ?thesis
    unfolding two list.map concat.simps nth_Cons_0 nth_Cons_Suc m block_bits_def fst_conv snd_conv
    by (simp only: map_append append_Nil2)
qed

lemma encrypt_words:
  "encrypt block flag st =
     (let st' = setup_salt 0 (des_init st); io = packed_words block in
      (map of_bool (block_bits
         (case do_des st' (io ! 0) (io ! 1) (if flag then -1 else 1) of None \<Rightarrow> (io ! 0, io ! 1) | Some x \<Rightarrow> x)), st'))"
proof -
  have "length (packed_words block) = 2" by (simp add: packed_words_def del: upt.simps)
  then obtain a b where ab: "packed_words block = [a, b]"
    by (auto simp: numeral_2_eq_2 length_Suc_conv)
  let ?st = "setup_salt 0 (des_init st)"
  show ?thesis
  proof (cases "do_des ?st a b (if flag then -1 else 1)")
    case None
    then show ?thesis
      unfolding encrypt_def packed_words_def [symmetric] Let_def ab
      by (simp only: nth_Cons_0 nth_Cons_Suc One_nat_def option.case unpacked_words)
  next
    case (Some x)
    then show ?thesis
      unfolding encrypt_def packed_words_def [symmetric] Let_def ab
      by (cases x) (simp only: nth_Cons_0 nth_Cons_Suc One_nat_def option.case prod.case unpacked_words)
  qed
qed

lemma init_id: "des_initialised st \<Longrightarrow> des_init st = st"
  by (simp add: des_init_def)

lemma scheduled_setup_salt:
  assumes "scheduled_bits kb st"
  shows "scheduled_bits kb (setup_salt salt st)"
proof -
  have "des_initialised (setup_salt salt st)"
    using assms by (simp add: scheduled_bits_def setup_salt_def)
  with assms show ?thesis
    unfolding scheduled_bits_def by (metis des_inv_setup_salt(1,3))
qed

lemma do_des_scheduled:
  assumes "scheduled_bits kb st" and "cnt \<noteq> 0"
  shows "\<exists>x. do_des (setup_salt salt st) l r cnt = Some x \<and>
    block_bits x = (des salt (if cnt > 0 then subkeys kb else rev (subkeys kb)) ^^ nat \<bar>cnt\<bar>) (block_bits (l, r))"
proof -
  from assms(1) obtain w0 w1 where st: "des_inv st" "des_initialised st" "scheduled w0 w1 st"
    and kb: "kb = block_bits (w0, w1)"
    by (auto simp: scheduled_bits_def)
  have "tables (setup_salt salt st) = build_tables"
    using st(1,2) by (simp add: des_inv_def setup_salt_def)
  then show ?thesis
    unfolding kb using st assms(2) by (intro do_des_bits des_inv_setup_salt(2,3))
qed

lemma encrypt_scheduled:
  assumes "scheduled_bits kb st" and "length block = 64"
  shows "fst (encrypt block flag st) =
      map of_bool (des 0 (if flag then rev (subkeys kb) else subkeys kb) (low_bits block))"
    and "scheduled_bits kb (snd (encrypt block flag st))"
proof -
  let ?w = "packed_words block"
  have init: "des_init st = st" using assms(1) by (simp add: init_id scheduled_bits_def)
  obtain x where "do_des (setup_salt 0 st) (?w ! 0) (?w ! 1) (if flag then -1 else 1) = Some x"
    and "block_bits x = des 0 (if flag then rev (subkeys kb) else subkeys kb) (block_bits (?w ! 0, ?w ! 1))"
    using do_des_scheduled [OF assms(1), of "if flag then -1 else 1" 0 "?w ! 0" "?w ! 1"] by (cases flag) auto
  then show "fst (encrypt block flag st) =
      map of_bool (des 0 (if flag then rev (subkeys kb) else subkeys kb) (low_bits block))"
    by (simp add: encrypt_words init Let_def block_bits_packed_words [OF assms(2)] del: One_nat_def)
  show "scheduled_bits kb (snd (encrypt block flag st))"
    by (simp add: encrypt_words init Let_def scheduled_setup_salt [OF assms(1)])
qed

text \<open>Decryption, by the network alone: it holds for every table of S-boxes.\<close>

lemma block_bits_inj: "block_bits x = block_bits y \<longleftrightarrow> x = y"
  by (cases x; cases y) (simp add: block_bits_def wbits_inj)

lemma do_des_undo:
  assumes "tables st = build_tables" and "sixteen_keys st" and "cnt \<noteq> 0"
    and "do_des st l r cnt = Some (l', r')"
  shows "do_des st l' r' (- cnt) = Some (l, r)"
proof -
  let ?ip = "\<lambda>x. (byte_lookup (ip_maskl build_tables) (fst x) (snd x), byte_lookup (ip_maskr build_tables) (fst x) (snd x))"
  let ?fp = "\<lambda>x. (byte_lookup (fp_maskl build_tables) (fst x) (snd x), byte_lookup (fp_maskr build_tables) (fst x) (snd x))"
  let ?ks = "\<lambda>c :: int. if c > 0 then key_pairs st else rev (key_pairs st)"
  let ?pass = "\<lambda>c. des_pass build_tables (saltbits st) (?ks c) ^^ nat \<bar>c\<bar>"
  have pairs: "(if c > 0 then zip (en_keysl st) (en_keysr st) else zip (de_keysl st) (de_keysr st)) = ?ks c" for c :: int
    using assms(2) by (simp add: sixteen_keys_def key_pairs_def zip_rev)
  have run: "do_des st l r c = Some (?fp (?pass c (?ip (l, r))))" if "c \<noteq> 0" for l r c
    using that by (simp only: do_des_def assms(1) pairs Let_def if_False split_beta fst_conv snd_conv)
  have ip_fp: "?ip (?fp x) = x" and fp_ip: "?fp (?ip x) = x" for x
    using init_perm_permutes final_perm_permutes
    by (simp_all add: permute_inverse flip: block_bits_inj [of _ x])
  have "rev (?ks cnt) = ?ks (- cnt)" using assms(3) by auto
  then have "?pass (- cnt) (?pass cnt x) = x" for x
    using des_network.passes_undo [of "nat \<bar>cnt\<bar>" build_tables "saltbits st" "?ks cnt" x]
    by (simp add: des_pass_swap)
  then have "do_des st (fst (?fp y)) (snd (?fp y)) (- cnt) = Some (l, r)" if "y = ?pass cnt (?ip (l, r))" for y
    using that run [of "- cnt" "fst (?fp y)" "snd (?fp y)"] assms(3) ip_fp [of y] fp_ip [of "(l, r)"]
    by (simp only: prod.collapse)
  then show ?thesis using run [of cnt l r] assms(3,4) by (metis fst_conv option.inject snd_conv)
qed

section \<open>The traditional password hash\<close>

definition key_chars :: "byte list \<Rightarrow> byte list" where
  "key_chars key = takeWhile (\<lambda>c. push_bit 1 c \<noteq> 0) (take 8 key)"

definition key_block :: "byte list \<Rightarrow> bool list" where
  "key_block key = byte_bits (map (push_bit 1) (key_chars key) @ replicate (8 - length (key_chars key)) 0)"

lemma key_bytes_zero: "push_bit 1 c = (0 :: byte) \<Longrightarrow> key_bytes n (c # cs) = replicate n 0"
  by (induction n) (simp_all add: Let_def)

lemma key_bytes_Nil: "key_bytes n [] = replicate n 0"
  by (induction n) (simp_all add: Let_def)

lemma key_bytes_eq:
  "key_bytes n key = (let zs = takeWhile (\<lambda>c. push_bit 1 c \<noteq> 0) (take n key) in
     map (push_bit 1) zs @ replicate (n - length zs) 0)"
proof (induction n key rule: key_bytes.induct)
  case (2 n key)
  show ?case
  proof (cases key)
    case (Cons c cs)
    then show ?thesis
    proof (cases "push_bit 1 c = 0")
      case True
      then have "key_bytes (Suc n) (c # cs) = replicate (Suc n) 0" by (rule key_bytes_zero)
      with True show ?thesis unfolding Cons by (simp add: Let_def del: key_bytes.simps)
    next
      case False
      with 2 Cons show ?thesis by (simp add: Let_def)
    qed
  qed (simp add: key_bytes_Nil del: key_bytes.simps)
qed simp

lemma key_bytes_block: "byte_bits (key_bytes 8 key) = key_block key"
  by (simp add: key_bytes_eq key_block_def key_chars_def Let_def)

lemma length_key_bytes [simp]: "length (key_bytes n key) = n"
  by (induction n key rule: key_bytes.induct) (simp_all add: Let_def)

definition hash_of_bits :: "bool list \<Rightarrow> byte list" where
  "hash_of_bits b = map (\<lambda>i. ascii64 ! nat_of_bits (take 6 (drop (6 * i) (b @ [False, False])))) [0..<11]"

lemma and_3f_group: "unat (w AND 0x3f :: u32) = nat_of_bits (group w 0)"
proof -
  have "group w 0 = map (\<lambda>t. bit (unat w) (6 - 1 - t)) [0..<6]"
    unfolding group_def by (simp add: bit_unsigned_iff) 
  then have "nat_of_bits (group w 0) = take_bit 6 (unat w)" by (simp only: nat_of_bits_word)
  then show ?thesis unfolding and_mask_u32 by (simp only: unsigned_take_bit_eq)
qed

lemma group_6: "group w s = [bit w (s + 5), bit w (s + 4), bit w (s + 3), bit w (s + 2), bit w (s + 1), bit w s]"
  by (simp add: group_def upt_rec add.commute)

lemma take_6_drop:
  assumes "k + 6 \<le> length xs"
  shows "take 6 (drop k xs) = [xs ! k, xs ! (k + 1), xs ! (k + 2), xs ! (k + 3), xs ! (k + 4), xs ! (k + 5)]"
proof -
  have "take 6 (drop k xs) = map (\<lambda>t. xs ! (k + t)) [0..<6]"
    by (rule nth_equalityI) (use assms in auto)
  moreover have "[0..<6] = [0, 1, 2, 3, 4, 5 :: nat]" by (simp add: upt_rec)
  ultimately show ?thesis by simp
qed

lemma hash64_bits: "hash64 r0 r1 = hash_of_bits (block_bits (r0, r1))"
proof -
  let ?b = "block_bits (r0, r1) @ [False, False]"
  define l2 l3 l where l2_def: "l2 = push_bit 16 r0 OR (drop_bit 16 r1 AND 0xffff)"
    and l3_def: "l3 = push_bit 2 r1" and l_def: "l = drop_bit 8 r0"
  have n: "?b ! n = (if n < 32 then bit r0 (31 - n) else if n < 64 then bit r1 (63 - n) else False)" if "n < 66" for n
    using that by (auto simp: nth_append nth_block_bits nth_Cons')
  have six: "take 6 (drop k ?b) = [?b ! k, ?b ! (k + 1), ?b ! (k + 2), ?b ! (k + 3), ?b ! (k + 4), ?b ! (k + 5)]"
    if "k \<le> 60" for k
    by (rule take_6_drop) (use that in simp)
  have ff: "(0xffff :: u32) = mask 16" by (simp add: mask_eq_exp_minus_1)
  have l2: "bit l2 m = (if m < 16 then bit r1 (m + 16) else bit r0 (m - 16) \<and> m < 32)" for m
    unfolding l2_def ff by (auto simp: bit_simps add.commute)
  have l3: "bit l3 m = (2 \<le> m \<and> m < 32 \<and> bit r1 (m - 2))" for m
    unfolding l3_def by (auto simp: bit_simps)
  have l: "bit l m = bit r0 (m + 8)" for m
    unfolding l_def by (auto simp: bit_simps add.commute)
  have ws: "group (drop_bit 18 l) 0 = take 6 (drop (6 * 0) ?b)"
    "group (drop_bit 12 l) 0 = take 6 (drop (6 * 1) ?b)"
    "group (drop_bit 6 l) 0 = take 6 (drop (6 * 2) ?b)"
    "group l 0 = take 6 (drop (6 * 3) ?b)"
    "group (drop_bit 18 l2) 0 = take 6 (drop (6 * 4) ?b)"
    "group (drop_bit 12 l2) 0 = take 6 (drop (6 * 5) ?b)"
    "group (drop_bit 6 l2) 0 = take 6 (drop (6 * 6) ?b)"
    "group l2 0 = take 6 (drop (6 * 7) ?b)"
    "group (drop_bit 12 l3) 0 = take 6 (drop (6 * 8) ?b)"
    "group (drop_bit 6 l3) 0 = take 6 (drop (6 * 9) ?b)"
    "group l3 0 = take 6 (drop (6 * 10) ?b)"
    by (subst six, simp, simp add: group_6 n l l2 l3 bit_drop_bit_eq bit_push_bit_iff del: drop_append take_append)+
  have upt: "[0..<11] = [0, 1, 2, 3, 4, 5, 6, 7, 8, 9, 10 :: nat]" by (simp add: upt_rec)
  show ?thesis
    unfolding hash64_def hash_of_bits_def Let_def upt list.map and_3f_group ws [unfolded l_def l2_def l3_def] ..
qed

lemma des_crypt_scheduled:
  assumes "des_inv st"
  shows "fst (des_crypt key (s0 # rest) st) =
      (let s1 = (if rest = [] then 0 else hd rest);
           salt = push_bit 6 (ascii_to_bin s1) OR ascii_to_bin s0
       in Crypted ([s0, if s1 \<noteq> 0 then s1 else s0] @
            hash_of_bits ((des salt (subkeys (key_block key)) ^^ 25) (replicate 64 False))))"
    and "des_inv (snd (des_crypt key setting st))"
proof -
  let ?st = "des_setkey (key_bytes 8 key) (des_init st)"
  let ?s1 = "if rest = [] then 0 else hd rest"
  let ?salt = "push_bit 6 (ascii_to_bin ?s1) OR ascii_to_bin s0"
  have sched: "scheduled_bits (key_block key) ?st"
    using scheduled_setkey [OF des_inv_init(1) [OF assms], of "key_bytes 8 key"]
    by (simp add: key_bytes_block)
  obtain r0 r1 where run: "do_des (setup_salt ?salt ?st) 0 0 25 = Some (r0, r1)"
    and bits: "block_bits (r0, r1) = (des ?salt (subkeys (key_block key)) ^^ 25) (block_bits (0, 0))"
    using do_des_scheduled [OF sched, of 25 ?salt 0 0] by auto
  have "block_bits (0, 0) = replicate 64 False"
    by (rule nth_equalityI) (simp_all add: nth_block_bits)
  then show "fst (des_crypt key (s0 # rest) st) =
      (let s1 = ?s1; salt = push_bit 6 (ascii_to_bin s1) OR ascii_to_bin s0
       in Crypted ([s0, if s1 \<noteq> 0 then s1 else s0] @
            hash_of_bits ((des salt (subkeys (key_block key)) ^^ 25) (replicate 64 False))))"
    using run unfolding des_crypt_def Let_def list.case run
    by (simp add: hash64_bits bits)
  have "des_inv ?st" "des_inv (setup_salt salt ?st)" for salt
    using sched scheduled_setup_salt [OF sched] by (simp_all add: scheduled_bits_def)
  then show "des_inv (snd (des_crypt key setting st))"
    by (simp add: des_crypt_def Let_def split: list.split option.split)
qed

section \<open>Reachable states\<close>

text \<open>The states of the static variables after any calls of the interface.\<close>

inductive des_reachable :: "des_state \<Rightarrow> bool" where
  start: "des_reachable start_state"
| setkey: "des_reachable st \<Longrightarrow> length key = 64 \<Longrightarrow> des_reachable (setkey key st)"
| encrypt: "des_reachable st \<Longrightarrow> length block = 64 \<Longrightarrow> des_reachable (snd (encrypt block flag st))"
| crypt: "des_reachable st \<Longrightarrow> des_reachable (snd (des_crypt key setting st))"

lemma des_reachable_inv: "des_reachable st \<Longrightarrow> des_inv st"
proof (induction rule: des_reachable.induct)
  case (setkey st key)
  then show ?case by (simp add: setkey_packed des_setkey_scheduled)
next
  case (encrypt st block flag)
  then show ?case
    by (simp add: encrypt_words Let_def des_inv_setup_salt des_inv_init)
qed (simp_all add: des_inv_start des_crypt_scheduled)

lemma scheduled_after_setkey:
  "des_reachable st \<Longrightarrow> length key = 64 \<Longrightarrow> scheduled_bits (low_bits key) (setkey key st)"
  using scheduled_setkey [OF des_reachable_inv, of st "packed_key key"]
  by (simp add: setkey_packed byte_bits_packed_key)

section \<open>Properties\<close>

text \<open>
  C21: whatever calls came before, a block encrypted after \<open>setkey\<close> is the one that DES, as the standard
  defines it on bits, gives for the key; with the flag set the subkeys are used in reverse order.
\<close>
theorem encrypt_computes_des:
  assumes "des_reachable st" and "length key = 64" and "length block = 64"
  shows "fst (encrypt block flag (setkey key st)) =
    map of_bool (des 0 (if flag then rev (subkeys (low_bits key)) else subkeys (low_bits key)) (low_bits block))"
  using assms by (intro encrypt_scheduled scheduled_after_setkey)

theorem encrypt_computes_des_witness:
  "fst (encrypt (replicate 64 1) False (setkey (replicate 64 0) start_state)) =
    map of_bool (des 0 (subkeys (replicate 64 False)) (replicate 64 True))"
  using encrypt_computes_des [OF des_reachable.start, of "replicate 64 0" "replicate 64 1" False]
  by (simp add: low_bits_def map_replicate_const)

text \<open>
  C22: encrypting a block and then decrypting it, or the other way round, with the key set before, gives
  the lowest bits of its characters back.
\<close>
theorem encrypt_round_trip:
  assumes "des_reachable st" and "length key = 64" and "length block = 64"
    and "encrypt block flag (setkey key st) = (cipher, st1)"
  shows "fst (encrypt cipher (\<not> flag) st1) = map (\<lambda>c. of_bool (bit c 0)) block"
proof -
  let ?st = "setkey key st" and ?c = "if flag then -1 else 1 :: int"
  let ?w = "packed_words block" and ?v = "packed_words cipher"
  have sched: "scheduled_bits (low_bits key) ?st" by (rule scheduled_after_setkey [OF assms(1,2)])
  have init: "des_init ?st = ?st" using sched by (simp add: init_id scheduled_bits_def)
  obtain l r where run: "do_des (setup_salt 0 ?st) (?w ! 0) (?w ! 1) ?c = Some (l, r)"
    using do_des_scheduled [OF sched, of ?c 0 "?w ! 0" "?w ! 1"] by (cases flag) auto
  have st1: "st1 = setup_salt 0 ?st" and cipher: "cipher = map of_bool (block_bits (l, r))"
    using assms(4) unfolding encrypt_words init Let_def run by simp_all
  have again: "setup_salt 0 (des_init st1) = st1"
    using scheduled_setup_salt [OF sched, of 0] unfolding st1
    by (simp add: init_id scheduled_bits_def) (simp add: setup_salt_def)
  have "low_bits cipher = block_bits (l, r)"
    by (simp add: cipher low_bits_def comp_def bit_of_bool_iff)
  then have v: "?v ! 0 = l" "?v ! 1 = r"
    using block_bits_packed_words [of cipher] cipher block_bits_inj [of "(?v ! 0, ?v ! 1)" "(l, r)"] by simp_all
  have "tables st1 = build_tables" "sixteen_keys st1"
    using scheduled_setup_salt [OF sched, of 0] unfolding st1 by (auto simp: scheduled_bits_def des_inv_def)
  from do_des_undo [OF this _ run [folded st1]]
  have "do_des st1 (?v ! 0) (?v ! 1) (if \<not> flag then -1 else 1) = Some (?w ! 0, ?w ! 1)"
    unfolding v by (cases flag) simp_all
  then have "fst (encrypt cipher (\<not> flag) st1) = map of_bool (block_bits (?w ! 0, ?w ! 1))"
    by (simp only: encrypt_words Let_def again fst_conv option.case)
  then show ?thesis
    by (simp add: block_bits_packed_words [OF assms(3), simplified] low_bits_def comp_def)
qed

theorem encrypt_round_trip_witness:
  "fst (encrypt (fst (encrypt (replicate 64 1) False (setkey (replicate 64 0) start_state))) True
     (snd (encrypt (replicate 64 1) False (setkey (replicate 64 0) start_state)))) = replicate 64 1"
  using encrypt_round_trip [OF des_reachable.start, of "replicate 64 0" "replicate 64 1" False]
  by (simp add: map_replicate_const)

text \<open>
  C23: the traditional hash does not depend on the calls made before. It consists of the two characters
  of the salt, where the second repeats the first if it is missing, and eleven characters for the block
  of zeros encrypted 25 times by DES with the salt. Only the lower seven bits of the first eight
  characters of the password count, and none from the first one on whose lower seven bits are zero.
\<close>
theorem des_crypt_computes:
  assumes "des_reachable st"
  shows "fst (des_crypt key (s0 # rest) st) =
    (let s1 = (if rest = [] then 0 else hd rest);
         salt = push_bit 6 (ascii_to_bin s1) OR ascii_to_bin s0
     in Crypted ([s0, if s1 \<noteq> 0 then s1 else s0] @
          hash_of_bits ((des salt (subkeys (key_block key)) ^^ 25) (replicate 64 False))))"
  using des_reachable_inv [OF assms] by (rule des_crypt_scheduled)

theorem des_crypt_computes_witness:
  "fst (des_crypt (bytes_of ''secret'') (bytes_of ''ab'') start_state) =
     Crypted (bytes_of ''ab'' @ hash_of_bits ((des 2534 (subkeys (key_block (bytes_of ''secret''))) ^^ 25)
       (replicate 64 False)))"
  using des_crypt_computes [OF des_reachable.start, of "bytes_of ''secret''" 97 "[98]"]
  by (simp add: bytes_of_def ascii_to_bin_def)

end
