(* ===== verification/Crypt.thy ===== *)
theory Crypt
  imports Md5_Crypt Des_Crypt
begin

text \<open>
  The library function \<open>crypt\<close> of \<open>cookbook/python2.7/jni/libcrypt/crypt.c\<close>, which chooses between the
  MD5 and the DES based hash, and the stubs of \<open>crypt_stub.c\<close> that are linked when it is left out.
\<close>

section \<open>The code\<close>

definition crypt ::
    "MD5Context \<Rightarrow> MD5Context \<Rightarrow> byte list \<Rightarrow> byte list \<Rightarrow> des_state \<Rightarrow> crypt_result \<times> des_state" where
  "crypt ctx ctx1 key salt st =
     (if take 3 salt = [36, 49, 36] then (Crypted (md5_crypt ctx ctx1 key salt), st)
      else des_crypt key salt st)"

text \<open>The stubs only set \<open>errno\<close>, here with the value of \<open>ENOSYS\<close> on Linux.\<close>

definition ENOSYS :: int where "ENOSYS = 38"

definition stub_crypt :: "byte list \<Rightarrow> byte list \<Rightarrow> int \<Rightarrow> crypt_result \<times> int" where
  "stub_crypt key salt errno = (Null, ENOSYS)"

definition stub_setkey :: "byte list \<Rightarrow> int \<Rightarrow> int" where
  "stub_setkey key errno = ENOSYS"

definition stub_encrypt :: "byte list \<Rightarrow> bool \<Rightarrow> int \<Rightarrow> byte list \<times> int" where
  "stub_encrypt block flag errno = (block, ENOSYS)"

section \<open>Lemmas\<close>

lemma length_ascii64 [simp]: "length ascii64 = 64"
  by (simp add: ascii64_def)

lemma ascii64_printable: "0 \<notin> set ascii64" "36 \<notin> set ascii64"
  by (simp_all add: ascii64_def bytes_of_def)

lemma length_hash_of_bits [simp]: "length (hash_of_bits b) = 11"
  by (simp add: hash_of_bits_def)

lemma nat_of_bits_less: "nat_of_bits bs < 2 ^ length bs"
proof (induction bs)
  case Nil
  show ?case by (simp add: nat_of_bits_def)
next
  case (Cons b bs)
  then show ?case by (cases b) (simp_all add: nat_of_bits_Cons)
qed

lemma set_hash_of_bits:
  assumes "length b = 64"
  shows "set (hash_of_bits b) \<subseteq> set ascii64"
proof -
  have "nat_of_bits (take 6 (drop (6 * i) (b @ [False, False]))) < 64" if "i < 11" for i
  proof -
    have "length (take 6 (drop (6 * i) (b @ [False, False]))) = 6" using that assms by simp
    with nat_of_bits_less [of "take 6 (drop (6 * i) (b @ [False, False]))"]
    have "nat_of_bits (take 6 (drop (6 * i) (b @ [False, False]))) < 2 ^ 6" by (simp only:)
    then show ?thesis by simp
  qed
  then show ?thesis by (auto simp: hash_of_bits_def simp del: upt.simps intro!: nth_mem)
qed

lemma length_des: "length (des salt ks b) = 64"
  by (simp add: des_pass_bits)

lemma length_des_iterated: "length b = 64 \<Longrightarrow> length ((des salt ks ^^ n) b) = 64"
  by (cases n) (simp_all add: length_des)

lemma crypt_md5:
  "take 3 salt = [36, 49, 36] \<Longrightarrow> crypt ctx ctx1 key salt st = (Crypted (md5_crypt ctx ctx1 key salt), st)"
  by (simp add: crypt_def)

section \<open>Properties\<close>

text \<open>
  C24: for a salt of at least two characters \<open>crypt\<close> returns a string of at most 34 characters, and the
  same password hashed with that string as the salt gives the string again, whatever calls of the
  interface come before and in between. A stored hash therefore accepts its password.
\<close>
theorem crypt_verifies:
  assumes "des_reachable st" and "des_reachable st'"
    and "length (buffer ctx) = 64" and "length (buffer ctx1) = 64" and "length key < 2 ^ 31"
    and "2 \<le> length salt" and "0 \<notin> set salt"
  shows "\<exists>hash. fst (crypt ctx ctx1 key salt st) = Crypted hash \<and> length hash \<le> 34 \<and>
    fst (crypt ctx ctx1 key hash st') = Crypted hash"
proof (cases "take 3 salt = [36, 49, 36]")
  case True
  let ?sp = "true_salt salt"
  have eq: "md5_crypt ctx ctx1 key s = md5_magic @ true_salt s @ 36 # hash_chars (stretched key (true_salt s))" for s
    using assms(3-5) by (simp add: md5_crypt_stretched md5_piece_def md5_magic_def) (simp add: bytes_of_def)
  let ?h = "md5_magic @ ?sp @ 36 # hash_chars (stretched key ?sp)"
  have "take 3 ?h = [36, 49, 36]" "length ?h \<le> 34"
    using length_true_salt [of salt] by (simp_all add: md5_magic_def bytes_of_def length_hash_chars)
  moreover have "md5_crypt ctx ctx1 key ?h = ?h"
    unfolding eq [of ?h] true_salt_again ..
  ultimately show ?thesis
    using True by (simp add: crypt_md5 eq [of salt])
next
  case False
  from assms(6) obtain s0 s1 rest where salt: "salt = s0 # s1 # rest"
    by (cases salt; cases "tl salt") auto
  have s1: "s1 \<noteq> 0" using assms(7) salt by simp
  let ?salt = "push_bit 6 (ascii_to_bin s1) OR ascii_to_bin s0"
  let ?x = "hash_of_bits ((des ?salt (subkeys (key_block key)) ^^ 25) (replicate 64 False))"
  have hash: "fst (des_crypt key (s0 # s1 # zs) s) = Crypted (s0 # s1 # ?x)" if "des_reachable s" for zs s
    using des_crypt_scheduled(1) [OF des_reachable_inv [OF that], of key s0 "s1 # zs"] s1 by simp
  have "set ?x \<subseteq> set ascii64"
    by (intro set_hash_of_bits length_des_iterated) simp
  moreover obtain y ys where "?x = y # ys"
    using length_hash_of_bits by (metis length_0_conv neq_Nil_conv zero_neq_numeral)
  ultimately have "take 3 (s0 # s1 # ?x) \<noteq> [36, 49, 36]"
    using ascii64_printable(2) by (auto simp: numeral_3_eq_3)
  then have "crypt ctx ctx1 key (s0 # s1 # ?x) st' = des_crypt key (s0 # s1 # ?x) st'"
    by (simp only: crypt_def if_False)
  moreover have "crypt ctx ctx1 key salt st = des_crypt key salt st"
    using False by (simp only: crypt_def if_False)
  ultimately show ?thesis
    using hash [OF assms(1), of rest] hash [OF assms(2), of ?x] by (simp add: salt)
qed

theorem crypt_verifies_witness:
  "\<exists>hash. fst (crypt blank_ctx blank_ctx (bytes_of ''pw'') (bytes_of ''ab'') start_state) = Crypted hash \<and>
     length hash \<le> 34 \<and>
     fst (crypt blank_ctx blank_ctx (bytes_of ''pw'') hash
       (snd (des_crypt (bytes_of ''other'') (bytes_of ''cd'') start_state))) = Crypted hash"
  using crypt_verifies [OF des_reachable.start des_reachable.crypt [OF des_reachable.start, of "bytes_of ''other''" "bytes_of ''cd''"],
      of blank_ctx blank_ctx "bytes_of ''pw''" "bytes_of ''ab''"]
  by (simp add: blank_ctx_def bytes_of_def)

end
