(* ===== verification/Sqlite_Chars.thy ===== *)
theory Sqlite_Chars
  imports Prelude
begin

text \<open>
  Character classes and case-insensitive comparison of the SQLite library in
  \<open>cookbook/python2.7/jni/sqlite3/sqlite3.c\<close> (files \<open>global.c\<close>, \<open>util.c\<close> and \<open>parse.h\<close> of the amalgamation),
  in its ASCII configuration. Strings are lists of bytes; a read at the end of the list gives the
  terminating NUL.
\<close>

section \<open>Tables\<close>

definition sqlite3UpperToLower :: "byte list" where
  "sqlite3UpperToLower = [
     0, 1, 2, 3, 4, 5, 6, 7, 8, 9, 10, 11, 12, 13, 14, 15, 16, 17, 18, 19, 20, 21, 22, 23,
     24, 25, 26, 27, 28, 29, 30, 31, 32, 33, 34, 35, 36, 37, 38, 39, 40, 41, 42, 43, 44,
     45, 46, 47, 48, 49, 50, 51, 52, 53, 54, 55, 56, 57, 58, 59, 60, 61, 62, 63, 64, 97,
     98, 99, 100, 101, 102, 103, 104, 105, 106, 107, 108, 109, 110, 111, 112, 113, 114,
     115, 116, 117, 118, 119, 120, 121, 122, 91, 92, 93, 94, 95, 96, 97, 98, 99, 100, 101,
     102, 103, 104, 105, 106, 107, 108, 109, 110, 111, 112, 113, 114, 115, 116, 117, 118,
     119, 120, 121, 122, 123, 124, 125, 126, 127, 128, 129, 130, 131, 132, 133, 134, 135,
     136, 137, 138, 139, 140, 141, 142, 143, 144, 145, 146, 147, 148, 149, 150, 151, 152,
     153, 154, 155, 156, 157, 158, 159, 160, 161, 162, 163, 164, 165, 166, 167, 168, 169,
     170, 171, 172, 173, 174, 175, 176, 177, 178, 179, 180, 181, 182, 183, 184, 185, 186,
     187, 188, 189, 190, 191, 192, 193, 194, 195, 196, 197, 198, 199, 200, 201, 202, 203,
     204, 205, 206, 207, 208, 209, 210, 211, 212, 213, 214, 215, 216, 217, 218, 219, 220,
     221, 222, 223, 224, 225, 226, 227, 228, 229, 230, 231, 232, 233, 234, 235, 236, 237,
     238, 239, 240, 241, 242, 243, 244, 245, 246, 247, 248, 249, 250, 251, 252, 253, 254,
     255]"

definition sqlite3CtypeMap :: "byte list" where
  "sqlite3CtypeMap = [
     0x00, 0x00, 0x00, 0x00, 0x00, 0x00, 0x00, 0x00, 0x00, 0x01, 0x01, 0x01, 0x01, 0x01,
     0x00, 0x00, 0x00, 0x00, 0x00, 0x00, 0x00, 0x00, 0x00, 0x00, 0x00, 0x00, 0x00, 0x00,
     0x00, 0x00, 0x00, 0x00, 0x01, 0x00, 0x00, 0x00, 0x40, 0x00, 0x00, 0x00, 0x00, 0x00,
     0x00, 0x00, 0x00, 0x00, 0x00, 0x00, 0x0c, 0x0c, 0x0c, 0x0c, 0x0c, 0x0c, 0x0c, 0x0c,
     0x0c, 0x0c, 0x00, 0x00, 0x00, 0x00, 0x00, 0x00, 0x00, 0x0a, 0x0a, 0x0a, 0x0a, 0x0a,
     0x0a, 0x02, 0x02, 0x02, 0x02, 0x02, 0x02, 0x02, 0x02, 0x02, 0x02, 0x02, 0x02, 0x02,
     0x02, 0x02, 0x02, 0x02, 0x02, 0x02, 0x02, 0x00, 0x00, 0x00, 0x00, 0x40, 0x00, 0x2a,
     0x2a, 0x2a, 0x2a, 0x2a, 0x2a, 0x22, 0x22, 0x22, 0x22, 0x22, 0x22, 0x22, 0x22, 0x22,
     0x22, 0x22, 0x22, 0x22, 0x22, 0x22, 0x22, 0x22, 0x22, 0x22, 0x22, 0x00, 0x00, 0x00,
     0x00, 0x00, 0x40, 0x40, 0x40, 0x40, 0x40, 0x40, 0x40, 0x40, 0x40, 0x40, 0x40, 0x40,
     0x40, 0x40, 0x40, 0x40, 0x40, 0x40, 0x40, 0x40, 0x40, 0x40, 0x40, 0x40, 0x40, 0x40,
     0x40, 0x40, 0x40, 0x40, 0x40, 0x40, 0x40, 0x40, 0x40, 0x40, 0x40, 0x40, 0x40, 0x40,
     0x40, 0x40, 0x40, 0x40, 0x40, 0x40, 0x40, 0x40, 0x40, 0x40, 0x40, 0x40, 0x40, 0x40,
     0x40, 0x40, 0x40, 0x40, 0x40, 0x40, 0x40, 0x40, 0x40, 0x40, 0x40, 0x40, 0x40, 0x40,
     0x40, 0x40, 0x40, 0x40, 0x40, 0x40, 0x40, 0x40, 0x40, 0x40, 0x40, 0x40, 0x40, 0x40,
     0x40, 0x40, 0x40, 0x40, 0x40, 0x40, 0x40, 0x40, 0x40, 0x40, 0x40, 0x40, 0x40, 0x40,
     0x40, 0x40, 0x40, 0x40, 0x40, 0x40, 0x40, 0x40, 0x40, 0x40, 0x40, 0x40, 0x40, 0x40,
     0x40, 0x40, 0x40, 0x40, 0x40, 0x40, 0x40, 0x40, 0x40, 0x40, 0x40, 0x40, 0x40, 0x40,
     0x40, 0x40, 0x40, 0x40]"

definition upper_to_lower :: "byte \<Rightarrow> byte" where
  "upper_to_lower c = sqlite3UpperToLower ! unat c"

definition ctype :: "byte \<Rightarrow> byte \<Rightarrow> bool" where
  "ctype m c \<longleftrightarrow> sqlite3CtypeMap ! unat c AND m \<noteq> 0"

definition sqlite3Isspace :: "byte \<Rightarrow> bool" where "sqlite3Isspace = ctype 0x01"
definition sqlite3Isdigit :: "byte \<Rightarrow> bool" where "sqlite3Isdigit = ctype 0x04"
definition sqlite3Isxdigit :: "byte \<Rightarrow> bool" where "sqlite3Isxdigit = ctype 0x08"
definition IdChar :: "byte \<Rightarrow> bool" where "IdChar = ctype 0x46"

text \<open>Token codes of the grammar.\<close>

definition token_codes :: "(string \<times> nat) list" where
  "token_codes = [
     (''SEMI'', 1), (''EXPLAIN'', 2), (''QUERY'', 3), (''PLAN'', 4), (''BEGIN'', 5),
     (''TRANSACTION'', 6), (''DEFERRED'', 7), (''IMMEDIATE'', 8), (''EXCLUSIVE'', 9),
     (''COMMIT'', 10), (''END'', 11), (''ROLLBACK'', 12), (''SAVEPOINT'', 13),
     (''RELEASE'', 14), (''TO'', 15), (''TABLE'', 16), (''CREATE'', 17), (''IF'', 18),
     (''NOT'', 19), (''EXISTS'', 20), (''TEMP'', 21), (''LP'', 22), (''RP'', 23),
     (''AS'', 24), (''COMMA'', 25), (''ID'', 26), (''INDEXED'', 27), (''ABORT'', 28),
     (''ACTION'', 29), (''AFTER'', 30), (''ANALYZE'', 31), (''ASC'', 32), (''ATTACH'', 33),
     (''BEFORE'', 34), (''BY'', 35), (''CASCADE'', 36), (''CAST'', 37), (''COLUMNKW'', 38),
     (''CONFLICT'', 39), (''DATABASE'', 40), (''DESC'', 41), (''DETACH'', 42),
     (''EACH'', 43), (''FAIL'', 44), (''FOR'', 45), (''IGNORE'', 46), (''INITIALLY'', 47),
     (''INSTEAD'', 48), (''LIKE_KW'', 49), (''MATCH'', 50), (''NO'', 51), (''KEY'', 52),
     (''OF'', 53), (''OFFSET'', 54), (''PRAGMA'', 55), (''RAISE'', 56), (''REPLACE'', 57),
     (''RESTRICT'', 58), (''ROW'', 59), (''TRIGGER'', 60), (''VACUUM'', 61),
     (''VIEW'', 62), (''VIRTUAL'', 63), (''REINDEX'', 64), (''RENAME'', 65),
     (''CTIME_KW'', 66), (''ANY'', 67), (''OR'', 68), (''AND'', 69), (''IS'', 70),
     (''BETWEEN'', 71), (''IN'', 72), (''ISNULL'', 73), (''NOTNULL'', 74), (''NE'', 75),
     (''EQ'', 76), (''GT'', 77), (''LE'', 78), (''LT'', 79), (''GE'', 80),
     (''ESCAPE'', 81), (''BITAND'', 82), (''BITOR'', 83), (''LSHIFT'', 84),
     (''RSHIFT'', 85), (''PLUS'', 86), (''MINUS'', 87), (''STAR'', 88), (''SLASH'', 89),
     (''REM'', 90), (''CONCAT'', 91), (''COLLATE'', 92), (''BITNOT'', 93),
     (''STRING'', 94), (''JOIN_KW'', 95), (''CONSTRAINT'', 96), (''DEFAULT'', 97),
     (''NULL'', 98), (''PRIMARY'', 99), (''UNIQUE'', 100), (''CHECK'', 101),
     (''REFERENCES'', 102), (''AUTOINCR'', 103), (''ON'', 104), (''INSERT'', 105),
     (''DELETE'', 106), (''UPDATE'', 107), (''SET'', 108), (''DEFERRABLE'', 109),
     (''FOREIGN'', 110), (''DROP'', 111), (''UNION'', 112), (''ALL'', 113),
     (''EXCEPT'', 114), (''INTERSECT'', 115), (''SELECT'', 116), (''DISTINCT'', 117),
     (''DOT'', 118), (''FROM'', 119), (''JOIN'', 120), (''USING'', 121), (''ORDER'', 122),
     (''GROUP'', 123), (''HAVING'', 124), (''LIMIT'', 125), (''WHERE'', 126),
     (''INTO'', 127), (''VALUES'', 128), (''INTEGER'', 129), (''FLOAT'', 130),
     (''BLOB'', 131), (''REGISTER'', 132), (''VARIABLE'', 133), (''CASE'', 134),
     (''WHEN'', 135), (''THEN'', 136), (''ELSE'', 137), (''INDEX'', 138), (''ALTER'', 139),
     (''ADD'', 140), (''TO_TEXT'', 141), (''TO_BLOB'', 142), (''TO_NUMERIC'', 143),
     (''TO_INT'', 144), (''TO_REAL'', 145), (''ISNOT'', 146), (''END_OF_FILE'', 147),
     (''ILLEGAL'', 148), (''SPACE'', 149), (''UNCLOSED_STRING'', 150), (''FUNCTION'', 151),
     (''COLUMN'', 152), (''AGG_FUNCTION'', 153), (''AGG_COLUMN'', 154),
     (''CONST_FUNC'', 155), (''UMINUS'', 156), (''UPLUS'', 157)]"

definition TK :: "string \<Rightarrow> nat" where
  "TK name = the (map_of token_codes name)"

text \<open>Result codes.\<close>

definition SQLITE_OK :: nat where "SQLITE_OK = 0"
definition SQLITE_ERROR :: nat where "SQLITE_ERROR = 1"
definition SQLITE_NOMEM :: nat where "SQLITE_NOMEM = 7"
definition SQLITE_INTERRUPT :: nat where "SQLITE_INTERRUPT = 9"
definition SQLITE_TOOBIG :: nat where "SQLITE_TOOBIG = 18"
definition SQLITE_DONE :: nat where "SQLITE_DONE = 101"

section \<open>Strings\<close>

text \<open>A character as a byte.\<close>

abbreviation ch :: "char \<Rightarrow> byte" where
  "ch c \<equiv> word_of_nat (of_char c)"

text \<open>\<open>z[i]\<close> for an index up to the terminator.\<close>

definition at :: "byte list \<Rightarrow> nat \<Rightarrow> byte" where
  "at z i = (if i < length z then z ! i else 0)"

text \<open>\<open>while (P(z[i])) i++\<close> for a condition that is false for NUL.\<close>

function scan_while :: "(byte \<Rightarrow> bool) \<Rightarrow> byte list \<Rightarrow> nat \<Rightarrow> nat" where
  "scan_while P z i = (if i < length z \<and> P (z ! i) then scan_while P z (Suc i) else i)"
  by pat_completeness auto
termination
  by (relation "measure (\<lambda>(P, z, i). length z - i)") auto

declare scan_while.simps [simp del]

text \<open>The two comparisons return the difference of the first characters that differ.\<close>

fun sqlite3StrICmp :: "byte list \<Rightarrow> byte list \<Rightarrow> int" where
  "sqlite3StrICmp (a # as) (b # bs) =
     (if a \<noteq> 0 \<and> upper_to_lower a = upper_to_lower b then sqlite3StrICmp as bs
      else uint (upper_to_lower a) - uint (upper_to_lower b))"
| "sqlite3StrICmp (a # as) [] = uint (upper_to_lower a) - uint (upper_to_lower 0)"
| "sqlite3StrICmp [] (b # bs) = uint (upper_to_lower 0) - uint (upper_to_lower b)"
| "sqlite3StrICmp [] [] = 0"

fun sqlite3_strnicmp :: "byte list \<Rightarrow> byte list \<Rightarrow> nat \<Rightarrow> int" where
  "sqlite3_strnicmp a b 0 = 0"
| "sqlite3_strnicmp a b (Suc n) =
     (if at a 0 \<noteq> 0 \<and> upper_to_lower (at a 0) = upper_to_lower (at b 0)
      then sqlite3_strnicmp (tl a) (tl b) n
      else uint (upper_to_lower (at a 0)) - uint (upper_to_lower (at b 0)))"

section \<open>Lemmas\<close>

lemma at_simps [simp]: "at [] i = 0" "at (c # z) 0 = c" "at (c # z) (Suc i) = at z i"
  by (simp_all add: at_def)

lemma at_append: "at (x @ y) i = (if i < length x then x ! i else at y (i - length x))"
  by (auto simp: at_def nth_append)

lemma at_nonzero: "at z i \<noteq> 0 \<Longrightarrow> i < length z"
  by (auto simp: at_def split: if_splits)

lemma at_drop [simp]: "at (drop k z) i = at z (k + i)"
  by (auto simp: at_def)

lemma scan_while_eq: "scan_while P z i = i + length (takeWhile P (drop i z))"
proof (induction P z i rule: scan_while.induct)
  case (1 P z i)
  then show ?case
    by (cases "i < length z") (auto simp: scan_while.simps [of P z i] Cons_nth_drop_Suc [symmetric])
qed

lemma scan_while_ge: "i \<le> scan_while P z i"
  by (simp add: scan_while_eq)

lemma scan_while_le: "i \<le> length z \<Longrightarrow> scan_while P z i \<le> length z"
  using length_takeWhile_le [of P "drop i z"] by (simp add: scan_while_eq)

lemma scan_while_stop: "i \<le> length z \<Longrightarrow> \<not> P 0 \<Longrightarrow> \<not> P (at z (scan_while P z i))"
proof (induction P z i rule: scan_while.induct)
  case (1 P z i)
  then show ?case by (cases "i < length z \<and> P (z ! i)") (auto simp: scan_while.simps [of P z i] at_def)
qed

lemma table_256:
  assumes "length tab = 256" and "list_all (\<lambda>(c, v). P c v) (zip (map word_of_int [0..255]) tab)"
  shows "P (c :: byte) (tab ! unat c)"
proof -
  have lt: "unat c < 256" using unsigned_less [of c, where ?'a = nat] by simp
  then have "int (unat c) \<le> 255" by linarith
  then have "[0..255] ! unat c = int (unat c)" using nth_upto [of 0 "unat c" 255] by simp
  then have "word_of_int ([0..255] ! unat c) = c" by simp
  then have "zip (map word_of_int [0..255]) tab ! unat c = (c, tab ! unat c)"
    using assms(1) lt by (subst nth_zip) (simp_all add: nth_map del: of_nat_unat)
  moreover have "unat c < length (zip (map word_of_int [0..255] :: byte list) tab)"
    using assms(1) lt by simp
  ultimately have "(c, tab ! unat c) \<in> set (zip (map word_of_int [0..255]) tab)"
    by (metis nth_mem)
  with assms(2) show ?thesis by (auto simp: list_all_iff)
qed

lemma length_char_tables: "length sqlite3UpperToLower = 256" "length sqlite3CtypeMap = 256"
  by (simp_all add: sqlite3UpperToLower_def sqlite3CtypeMap_def)

lemma upper_to_lower_eq: "upper_to_lower c = (if 65 \<le> c \<and> c \<le> 90 then c + 32 else c)"
  unfolding upper_to_lower_def
  by (rule table_256 [OF length_char_tables(1), where P = "\<lambda>c v. v = (if 65 \<le> c \<and> c \<le> 90 then c + 32 else c)"])
    code_simp

lemma ctype_table:
  assumes "list_all (\<lambda>(c, v). (v AND m \<noteq> 0) = Q c) (zip (map word_of_int [0..255]) sqlite3CtypeMap)"
  shows "ctype m c \<longleftrightarrow> Q c"
  unfolding ctype_def by (rule table_256 [OF length_char_tables(2) assms])

lemma IdChar_eq:
  "IdChar c \<longleftrightarrow> (48 \<le> c \<and> c \<le> 57) \<or> (65 \<le> c \<and> c \<le> 90) \<or> (97 \<le> c \<and> c \<le> 122) \<or> c = 95 \<or> c = 36 \<or> 128 \<le> c"
  unfolding IdChar_def by (rule ctype_table) code_simp

lemma sqlite3Isspace_eq: "sqlite3Isspace c \<longleftrightarrow> (9 \<le> c \<and> c \<le> 13) \<or> c = 32"
  unfolding sqlite3Isspace_def by (rule ctype_table) code_simp

lemma sqlite3Isdigit_eq: "sqlite3Isdigit c \<longleftrightarrow> 48 \<le> c \<and> c \<le> 57"
  unfolding sqlite3Isdigit_def by (rule ctype_table) code_simp

lemma sqlite3Isxdigit_eq:
  "sqlite3Isxdigit c \<longleftrightarrow> (48 \<le> c \<and> c \<le> 57) \<or> (65 \<le> c \<and> c \<le> 70) \<or> (97 \<le> c \<and> c \<le> 102)"
  unfolding sqlite3Isxdigit_def by (rule ctype_table) code_simp

lemma not_digit_0 [simp]: "\<not> sqlite3Isdigit 0" "\<not> IdChar 0" "\<not> sqlite3Isspace 0"
  by (simp_all add: sqlite3Isdigit_eq IdChar_eq sqlite3Isspace_eq)

end
