(* ===== verification/Sqlite_Keywords.thy ===== *)
theory Sqlite_Keywords
  imports Sqlite_Chars
begin

text \<open>
  The keyword recogniser of the SQLite library, \<open>keywordCode\<close> in \<open>keywordhash.h\<close> of the amalgamation:
  all keywords overlap in one text, and are found by a hash of the first and the last character and the
  length.
\<close>

section \<open>The code\<close>

definition zText_chars :: string where
  "zText_chars =
     ''REINDEXEDESCAPEACHECKEYBEFOREIGNOREGEXPLAINSTEADDATABASELECTABLEFTHENDEF''
     @ ''ERRABLELSEXCEPTRANSACTIONATURALTERAISEXCLUSIVEXISTSAVEPOINTERSECTRIGGERE''
     @ ''FERENCESCONSTRAINTOFFSETEMPORARYUNIQUERYATTACHAVINGROUPDATEBEGINNERELEAS''
     @ ''EBETWEENOTNULLIKECASCADELETECASECOLLATECREATECURRENT_DATEDETACHIMMEDIATE''
     @ ''JOINSERTMATCHPLANALYZEPRAGMABORTVALUESVIRTUALIMITWHENWHERENAMEAFTEREPLAC''
     @ ''EANDEFAULTAUTOINCREMENTCASTCOLUMNCOMMITCONFLICTCROSSCURRENT_TIMESTAMPRIM''
     @ ''ARYDEFERREDISTINCTDROPFAILFROMFULLGLOBYIFISNULLORDERESTRICTOUTERIGHTROLL''
     @ ''BACKROWUNIONUSINGVACUUMVIEWINITIALLY''"

definition zText :: "byte list" where
  "zText = bytes_of zText_chars"

definition aHash :: "nat list" where
  "aHash = [
     72, 101, 114, 70, 0, 45, 0, 0, 78, 0, 73, 0, 0, 42, 12, 74, 15, 0, 113, 81, 50, 108,
     0, 19, 0, 0, 118, 0, 116, 111, 0, 22, 89, 0, 9, 0, 0, 66, 67, 0, 65, 6, 0, 48, 86, 98,
     0, 115, 97, 0, 0, 44, 0, 99, 24, 0, 17, 0, 119, 49, 23, 0, 5, 106, 25, 92, 0, 0, 121,
     102, 56, 120, 53, 28, 51, 0, 87, 0, 96, 26, 0, 95, 0, 0, 0, 91, 88, 93, 84, 105, 14,
     39, 104, 0, 77, 0, 18, 85, 107, 32, 0, 117, 76, 109, 58, 46, 80, 0, 0, 90, 40, 0, 112,
     0, 36, 0, 0, 29, 0, 82, 59, 60, 0, 20, 57, 0, 52]"

definition aNext :: "nat list" where
  "aNext = [
     0, 0, 0, 0, 4, 0, 0, 0, 0, 0, 0, 0, 0, 0, 2, 0, 0, 0, 0, 0, 0, 13, 0, 0, 0, 0, 0, 7,
     0, 0, 0, 0, 0, 0, 0, 0, 0, 0, 0, 0, 0, 0, 0, 33, 0, 21, 0, 0, 0, 43, 3, 47, 0, 0, 0,
     0, 30, 0, 54, 0, 38, 0, 0, 0, 1, 62, 0, 0, 63, 0, 41, 0, 0, 0, 0, 0, 0, 0, 61, 0, 0,
     0, 0, 31, 55, 16, 34, 10, 0, 0, 0, 0, 0, 0, 0, 11, 68, 75, 0, 8, 0, 100, 94, 0, 103,
     0, 83, 0, 71, 0, 0, 110, 27, 37, 69, 79, 0, 35, 64, 0, 0]"

definition aLen :: "nat list" where
  "aLen = [
     7, 7, 5, 4, 6, 4, 5, 3, 6, 7, 3, 6, 6, 7, 7, 3, 8, 2, 6, 5, 4, 4, 3, 10, 4, 6, 11, 6,
     2, 7, 5, 5, 9, 6, 9, 9, 7, 10, 10, 4, 6, 2, 3, 9, 4, 2, 6, 5, 6, 6, 5, 6, 5, 5, 7, 7,
     7, 3, 2, 4, 4, 7, 3, 6, 4, 7, 6, 12, 6, 9, 4, 6, 5, 4, 7, 6, 5, 6, 7, 5, 4, 5, 6, 5,
     7, 3, 7, 13, 2, 2, 4, 6, 6, 8, 5, 17, 12, 7, 8, 8, 2, 4, 4, 4, 4, 4, 2, 2, 6, 5, 8, 5,
     5, 8, 3, 5, 5, 6, 4, 9, 3]"

definition aOffset :: "nat list" where
  "aOffset = [
     0, 2, 2, 8, 9, 14, 16, 20, 23, 25, 25, 29, 33, 36, 41, 46, 48, 53, 54, 59, 62, 65, 67,
     69, 78, 81, 86, 91, 95, 96, 101, 105, 109, 117, 122, 128, 136, 142, 152, 159, 162,
     162, 165, 167, 167, 171, 176, 179, 184, 189, 194, 197, 203, 206, 210, 217, 223, 223,
     223, 226, 229, 233, 234, 238, 244, 248, 255, 261, 273, 279, 288, 290, 296, 301, 303,
     310, 315, 320, 326, 332, 337, 341, 344, 350, 354, 361, 363, 370, 372, 374, 383, 387,
     393, 399, 407, 412, 412, 428, 435, 442, 443, 450, 454, 458, 462, 466, 469, 471, 473,
     479, 483, 491, 495, 500, 508, 511, 516, 521, 527, 531, 536]"

definition aCode :: "nat list" where
  "aCode = map TK [
     ''REINDEX'', ''INDEXED'', ''INDEX'', ''DESC'', ''ESCAPE'', ''EACH'', ''CHECK'',
     ''KEY'', ''BEFORE'', ''FOREIGN'', ''FOR'', ''IGNORE'', ''LIKE_KW'', ''EXPLAIN'',
     ''INSTEAD'', ''ADD'', ''DATABASE'', ''AS'', ''SELECT'', ''TABLE'', ''JOIN_KW'',
     ''THEN'', ''END'', ''DEFERRABLE'', ''ELSE'', ''EXCEPT'', ''TRANSACTION'', ''ACTION'',
     ''ON'', ''JOIN_KW'', ''ALTER'', ''RAISE'', ''EXCLUSIVE'', ''EXISTS'', ''SAVEPOINT'',
     ''INTERSECT'', ''TRIGGER'', ''REFERENCES'', ''CONSTRAINT'', ''INTO'', ''OFFSET'',
     ''OF'', ''SET'', ''TEMP'', ''TEMP'', ''OR'', ''UNIQUE'', ''QUERY'', ''ATTACH'',
     ''HAVING'', ''GROUP'', ''UPDATE'', ''BEGIN'', ''JOIN_KW'', ''RELEASE'', ''BETWEEN'',
     ''NOTNULL'', ''NOT'', ''NO'', ''NULL'', ''LIKE_KW'', ''CASCADE'', ''ASC'', ''DELETE'',
     ''CASE'', ''COLLATE'', ''CREATE'', ''CTIME_KW'', ''DETACH'', ''IMMEDIATE'', ''JOIN'',
     ''INSERT'', ''MATCH'', ''PLAN'', ''ANALYZE'', ''PRAGMA'', ''ABORT'', ''VALUES'',
     ''VIRTUAL'', ''LIMIT'', ''WHEN'', ''WHERE'', ''RENAME'', ''AFTER'', ''REPLACE'',
     ''AND'', ''DEFAULT'', ''AUTOINCR'', ''TO'', ''IN'', ''CAST'', ''COLUMNKW'',
     ''COMMIT'', ''CONFLICT'', ''JOIN_KW'', ''CTIME_KW'', ''CTIME_KW'', ''PRIMARY'',
     ''DEFERRED'', ''DISTINCT'', ''IS'', ''DROP'', ''FAIL'', ''FROM'', ''JOIN_KW'',
     ''LIKE_KW'', ''BY'', ''IF'', ''ISNULL'', ''ORDER'', ''RESTRICT'', ''JOIN_KW'',
     ''JOIN_KW'', ''ROLLBACK'', ''ROW'', ''UNION'', ''USING'', ''VACUUM'', ''VIEW'',
     ''INITIALLY'', ''ALL'']"

text \<open>
  The loop along a chain; \<open>j\<close> is the entry of the table, one more than the index \<open>i\<close>. All entries are at
  most 121.
\<close>

function keyword_loop :: "byte list \<Rightarrow> nat \<Rightarrow> nat \<Rightarrow> nat option" where
  "keyword_loop z n j =
     (if j = 0 \<or> 121 < j then None
      else
        let i = j - 1
        in if aLen ! i = n \<and> sqlite3_strnicmp (drop (aOffset ! i) zText) z n = 0 then Some i
           else keyword_loop z n (aNext ! i))"
  by pat_completeness auto

definition keyword_hash :: "byte \<Rightarrow> byte \<Rightarrow> nat \<Rightarrow> nat" where
  "keyword_hash c0 c1 n =
     nat (((uint (upper_to_lower c0) * 4) XOR (uint (upper_to_lower c1) * 3) XOR int n) mod 127)"

lemma aNext_decreases: "\<forall>i\<in>set [0..<121]. aNext ! i \<le> i"
  by code_simp

termination keyword_loop
proof (relation "measure (\<lambda>(z, n, j). j)")
  fix z n j i
  assume "\<not> (j = 0 \<or> 121 < j)" "i = j - (1 :: nat)"
  moreover from this have "i \<in> set [0..<121]" by auto
  with aNext_decreases have "aNext ! i \<le> i" by blast
  ultimately show "((z, n, aNext ! i), (z, n, j)) \<in> measure (\<lambda>(z, n, j). j)" by auto
qed simp

declare keyword_loop.simps [simp del]

definition keywordCode :: "byte list \<Rightarrow> nat \<Rightarrow> nat" where
  "keywordCode z n =
     (if n < 2 then TK ''ID''
      else case keyword_loop z n (aHash ! keyword_hash (at z 0) (at z (n - 1)) n) of
             Some i \<Rightarrow> aCode ! i
           | None \<Rightarrow> TK ''ID'')"

section \<open>The keywords\<close>

definition keyword_list :: "(string \<times> string) list" where
  "keyword_list = [
     (''REINDEX'', ''REINDEX''), (''INDEXED'', ''INDEXED''), (''INDEX'', ''INDEX''),
     (''DESC'', ''DESC''), (''ESCAPE'', ''ESCAPE''), (''EACH'', ''EACH''),
     (''CHECK'', ''CHECK''), (''KEY'', ''KEY''), (''BEFORE'', ''BEFORE''),
     (''FOREIGN'', ''FOREIGN''), (''FOR'', ''FOR''), (''IGNORE'', ''IGNORE''),
     (''REGEXP'', ''LIKE_KW''), (''EXPLAIN'', ''EXPLAIN''), (''INSTEAD'', ''INSTEAD''),
     (''ADD'', ''ADD''), (''DATABASE'', ''DATABASE''), (''AS'', ''AS''),
     (''SELECT'', ''SELECT''), (''TABLE'', ''TABLE''), (''LEFT'', ''JOIN_KW''),
     (''THEN'', ''THEN''), (''END'', ''END''), (''DEFERRABLE'', ''DEFERRABLE''),
     (''ELSE'', ''ELSE''), (''EXCEPT'', ''EXCEPT''), (''TRANSACTION'', ''TRANSACTION''),
     (''ACTION'', ''ACTION''), (''ON'', ''ON''), (''NATURAL'', ''JOIN_KW''),
     (''ALTER'', ''ALTER''), (''RAISE'', ''RAISE''), (''EXCLUSIVE'', ''EXCLUSIVE''),
     (''EXISTS'', ''EXISTS''), (''SAVEPOINT'', ''SAVEPOINT''),
     (''INTERSECT'', ''INTERSECT''), (''TRIGGER'', ''TRIGGER''),
     (''REFERENCES'', ''REFERENCES''), (''CONSTRAINT'', ''CONSTRAINT''),
     (''INTO'', ''INTO''), (''OFFSET'', ''OFFSET''), (''OF'', ''OF''), (''SET'', ''SET''),
     (''TEMPORARY'', ''TEMP''), (''TEMP'', ''TEMP''), (''OR'', ''OR''),
     (''UNIQUE'', ''UNIQUE''), (''QUERY'', ''QUERY''), (''ATTACH'', ''ATTACH''),
     (''HAVING'', ''HAVING''), (''GROUP'', ''GROUP''), (''UPDATE'', ''UPDATE''),
     (''BEGIN'', ''BEGIN''), (''INNER'', ''JOIN_KW''), (''RELEASE'', ''RELEASE''),
     (''BETWEEN'', ''BETWEEN''), (''NOTNULL'', ''NOTNULL''), (''NOT'', ''NOT''),
     (''NO'', ''NO''), (''NULL'', ''NULL''), (''LIKE'', ''LIKE_KW''),
     (''CASCADE'', ''CASCADE''), (''ASC'', ''ASC''), (''DELETE'', ''DELETE''),
     (''CASE'', ''CASE''), (''COLLATE'', ''COLLATE''), (''CREATE'', ''CREATE''),
     (''CURRENT_DATE'', ''CTIME_KW''), (''DETACH'', ''DETACH''),
     (''IMMEDIATE'', ''IMMEDIATE''), (''JOIN'', ''JOIN''), (''INSERT'', ''INSERT''),
     (''MATCH'', ''MATCH''), (''PLAN'', ''PLAN''), (''ANALYZE'', ''ANALYZE''),
     (''PRAGMA'', ''PRAGMA''), (''ABORT'', ''ABORT''), (''VALUES'', ''VALUES''),
     (''VIRTUAL'', ''VIRTUAL''), (''LIMIT'', ''LIMIT''), (''WHEN'', ''WHEN''),
     (''WHERE'', ''WHERE''), (''RENAME'', ''RENAME''), (''AFTER'', ''AFTER''),
     (''REPLACE'', ''REPLACE''), (''AND'', ''AND''), (''DEFAULT'', ''DEFAULT''),
     (''AUTOINCREMENT'', ''AUTOINCR''), (''TO'', ''TO''), (''IN'', ''IN''),
     (''CAST'', ''CAST''), (''COLUMN'', ''COLUMNKW''), (''COMMIT'', ''COMMIT''),
     (''CONFLICT'', ''CONFLICT''), (''CROSS'', ''JOIN_KW''),
     (''CURRENT_TIMESTAMP'', ''CTIME_KW''), (''CURRENT_TIME'', ''CTIME_KW''),
     (''PRIMARY'', ''PRIMARY''), (''DEFERRED'', ''DEFERRED''),
     (''DISTINCT'', ''DISTINCT''), (''IS'', ''IS''), (''DROP'', ''DROP''),
     (''FAIL'', ''FAIL''), (''FROM'', ''FROM''), (''FULL'', ''JOIN_KW''),
     (''GLOB'', ''LIKE_KW''), (''BY'', ''BY''), (''IF'', ''IF''), (''ISNULL'', ''ISNULL''),
     (''ORDER'', ''ORDER''), (''RESTRICT'', ''RESTRICT''), (''OUTER'', ''JOIN_KW''),
     (''RIGHT'', ''JOIN_KW''), (''ROLLBACK'', ''ROLLBACK''), (''ROW'', ''ROW''),
     (''UNION'', ''UNION''), (''USING'', ''USING''), (''VACUUM'', ''VACUUM''),
     (''VIEW'', ''VIEW''), (''INITIALLY'', ''INITIALLY''), (''ALL'', ''ALL'')]"

text \<open>The keywords, cut out of the text one after the other.\<close>

fun cut_keywords :: "string \<Rightarrow> nat \<Rightarrow> nat list \<Rightarrow> nat list \<Rightarrow> string list" where
  "cut_keywords t p (d # ds) (l # ls) =
     (let t' = drop (d - p) t in take l t' # cut_keywords t' d ds ls)"
| "cut_keywords t p _ _ = []"

lemma cut_keywords_nth:
  "sorted (p # ds) \<Longrightarrow> t = drop p s \<Longrightarrow> i < length ds \<Longrightarrow> length ls = length ds \<Longrightarrow>
     cut_keywords t p ds ls ! i = take (ls ! i) (drop (ds ! i) s)"
proof (induction t p ds ls arbitrary: i rule: cut_keywords.induct)
  case (1 t p d ds l ls)
  have "drop (d - p) t = drop d s" using "1.prems" by simp
  then show ?case
    using "1.IH" [OF refl, of "i - 1"] "1.prems" by (cases i) (simp_all add: Let_def)
qed simp_all

lemma length_keyword_tables:
  "length aHash = 127" "length aNext = 121" "length aLen = 121" "length aOffset = 121" "length aCode = 121"
  "length keyword_list = 121"
  by (simp_all add: aHash_def aNext_def aLen_def aOffset_def aCode_def keyword_list_def)

lemma cut_keyword_list: "cut_keywords zText_chars 0 aOffset aLen = map fst keyword_list"
  by code_simp

lemma aOffset_sorted: "sorted (0 # aOffset)"
proof -
  have "successively (\<le>) (0 # aOffset)" by (simp add: aOffset_def)
  then show ?thesis by (simp only: successively_conv_sorted_wrt [OF transp_on_le])
qed

lemma aLen_keyword_list: "aLen = map (\<lambda>k. length (fst k)) keyword_list"
  by (simp add: aLen_def keyword_list_def)

lemma keyword_text:
  assumes "i < 121"
  shows "take (aLen ! i) (drop (aOffset ! i) zText) = bytes_of (fst (keyword_list ! i))"
    and "aLen ! i = length (fst (keyword_list ! i))"
proof -
  have "take (aLen ! i) (drop (aOffset ! i) zText_chars) = fst (keyword_list ! i)"
    using cut_keywords_nth [OF aOffset_sorted, of zText_chars zText_chars i aLen] assms
    by (simp add: length_keyword_tables cut_keyword_list)
  then show "take (aLen ! i) (drop (aOffset ! i) zText) = bytes_of (fst (keyword_list ! i))"
    by (simp add: zText_def take_bytes_of drop_bytes_of)
  show "aLen ! i = length (fst (keyword_list ! i))"
    using assms by (simp add: aLen_keyword_list length_keyword_tables)
qed

lemma keyword_strings: "i < 121 \<Longrightarrow> cstring (fst (keyword_list ! i))"
proof -
  have "list_all (\<lambda>k. list_all (\<lambda>c. c \<noteq> CHR 0x00) (fst k)) keyword_list" by code_simp
  then show "i < 121 \<Longrightarrow> cstring (fst (keyword_list ! i))"
    by (auto simp: list_all_length length_keyword_tables cstring_def in_set_conv_nth)
qed

lemma strnicmp_prefix:
  assumes "n \<le> length a" and "n \<le> length b" and "0 \<notin> set (take n a)"
  shows "sqlite3_strnicmp a b n = 0 \<longleftrightarrow> map upper_to_lower (take n a) = map upper_to_lower (take n b)"
  using assms
proof (induction n arbitrary: a b)
  case (Suc n)
  then obtain x a' y b' where "a = x # a'" "b = y # b'" by (cases a; cases b) auto
  with Suc show ?case by (auto simp: word_uint_eq_iff)
qed simp

text \<open>The loop only depends on the lower case letters.\<close>

definition lower :: "byte list \<Rightarrow> byte list" where
  "lower = map upper_to_lower"

definition lower_keyword :: "nat \<Rightarrow> byte list" where
  "lower_keyword i = lower (bytes_of (fst (keyword_list ! i)))"

function chain :: "byte list \<Rightarrow> nat \<Rightarrow> nat option" where
  "chain w j =
     (if j = 0 \<or> 121 < j then None
      else if w = lower_keyword (j - 1) then Some (j - 1) else chain w (aNext ! (j - 1)))"
  by pat_completeness auto
termination
proof (relation "measure snd")
  fix w :: "byte list" and j :: nat
  assume "\<not> (j = 0 \<or> 121 < j)"
  then have "j - 1 \<in> set [0..<121]" "0 < j" by auto
  with aNext_decreases have "aNext ! (j - 1) \<le> j - 1" by blast
  then show "((w, aNext ! (j - 1)), (w, j)) \<in> measure snd" using \<open>0 < j\<close> by auto
qed simp

declare chain.simps [simp del]

lemma keyword_loop_chain:
  assumes "n \<le> length z" and "0 \<notin> set (take n z)"
  shows "keyword_loop z n j = chain (lower (take n z)) j"
  using assms
proof (induction z n j rule: keyword_loop.induct)
  case (1 z n j)
  show ?case
  proof (cases "j = 0 \<or> 121 < j")
    case True
    then show ?thesis by (auto simp: keyword_loop.simps [of z n j] chain.simps [of _ j])
  next
    case False
    define i where "i = j - 1"
    have i: "i < 121" using False by (auto simp: i_def)
    have test: "aLen ! i = n \<and> sqlite3_strnicmp (drop (aOffset ! i) zText) z n = 0 \<longleftrightarrow>
        lower (take n z) = lower_keyword i"
    proof (cases "aLen ! i = n")
      case True
      let ?k = "drop (aOffset ! i) zText"
      have k: "take n ?k = bytes_of (fst (keyword_list ! i))" using keyword_text [OF i] True by simp
      then have "n \<le> length ?k"
        using keyword_text(2) [OF i] True by (metis length_bytes_of length_take min.cobounded1 min_def)
      moreover have "0 \<notin> set (take n ?k)"
        unfolding k using keyword_strings [OF i] by (rule zero_notin_bytes_of)
      ultimately show ?thesis
        using True strnicmp_prefix [of n ?k z] "1.prems" by (auto simp: k lower_keyword_def lower_def)
    next
      case False
      then have "length (lower (take n z)) \<noteq> length (lower_keyword i)"
        using "1.prems" keyword_text(2) [OF i] by (simp add: lower_def lower_keyword_def)
      with False show ?thesis by auto
    qed
    have j: "j = Suc i" "j - 1 = i" using False by (auto simp: i_def)
    show ?thesis
    proof (cases "lower (take n z) = lower_keyword i")
      case True
      with test False show ?thesis
        unfolding keyword_loop.simps [of z n j] chain.simps [of _ j] Let_def j(2) by simp
    next
      case no: False
      then have "keyword_loop z n (aNext ! i) = chain (lower (take n z)) (aNext ! i)"
        using "1.IH" [OF False i_def] test "1.prems" by blast
      with no test False show ?thesis
        unfolding keyword_loop.simps [of z n j] chain.simps [of _ j] Let_def j(2) by auto
    qed
  qed
qed

lemma chain_sound: "chain w j = Some i \<Longrightarrow> i < 121 \<and> w = lower_keyword i"
proof (induction w j rule: chain.induct)
  case (1 w j)
  then show ?case by (subst (asm) (2) chain.simps) (auto split: if_splits)
qed

definition word_hash :: "byte list \<Rightarrow> nat" where
  "word_hash w = nat (((uint (hd w) * 4) XOR (uint (last w) * 3) XOR int (length w)) mod 127)"

text \<open>Completeness: the chain of its hash value reaches every keyword, and no keyword occurs twice.\<close>

fun reaches :: "nat \<Rightarrow> nat \<Rightarrow> nat \<Rightarrow> bool" where
  "reaches 0 j i = False"
| "reaches (Suc fuel) j i = (0 < j \<and> j \<le> 121 \<and> (j = Suc i \<or> reaches fuel (aNext ! (j - 1)) i))"

definition hash_values :: "nat list" where
  "hash_values = [
     40, 16, 74, 62, 62, 41, 73, 69, 34, 86, 78, 14, 31, 90, 16, 44, 56, 96, 23, 123, 105,
     31, 60, 54, 64, 79, 18, 73, 117, 124, 88, 99, 51, 76, 26, 114, 2, 28, 91, 110, 103,
     13, 20, 51, 5, 105, 126, 43, 59, 20, 74, 126, 72, 120, 97, 70, 124, 104, 120, 121, 28,
     37, 47, 58, 40, 37, 38, 48, 47, 3, 103, 0, 10, 15, 45, 102, 94, 8, 28, 106, 19, 119,
     98, 88, 97, 44, 76, 86, 32, 109, 85, 65, 87, 89, 81, 78, 48, 45, 53, 69, 1, 69, 89,
     92, 89, 63, 98, 21, 103, 112, 29, 112, 18, 2, 47, 28, 101, 26, 58, 71, 68]"

lemma word_hash_bytes:
  "s \<noteq> [] \<Longrightarrow> word_hash (lower (bytes_of s)) =
     keyword_hash (word_of_nat (of_char (hd s))) (word_of_nat (of_char (last s))) (length s)"
  by (simp add: word_hash_def keyword_hash_def lower_def bytes_of_def hd_map last_map)

lemma hash_values_map:
  "map (\<lambda>k. keyword_hash (word_of_nat (of_char (hd (fst k)))) (word_of_nat (of_char (last (fst k))))
      (length (fst k))) keyword_list = hash_values"
  by code_simp

lemma keywords_nonempty: "list_all (\<lambda>k. fst k \<noteq> []) keyword_list"
  by code_simp

lemma hash_values_eq:
  assumes "i < 121"
  shows "word_hash (lower_keyword i) = hash_values ! i"
proof -
  let ?k = "keyword_list ! i"
  have "fst ?k \<noteq> []"
    using keywords_nonempty assms unfolding list_all_length length_keyword_tables by blast
  then have "word_hash (lower_keyword i) =
      keyword_hash (word_of_nat (of_char (hd (fst ?k)))) (word_of_nat (of_char (last (fst ?k)))) (length (fst ?k))"
    unfolding lower_keyword_def by (rule word_hash_bytes)
  also have "\<dots> = hash_values ! i"
    unfolding hash_values_map [symmetric] using assms by (subst nth_map) (simp_all only: length_keyword_tables)
  finally show ?thesis .
qed

lemma chains_reach: "i < 121 \<Longrightarrow> reaches 5 (aHash ! (hash_values ! i)) i"
proof -
  have "list_all (\<lambda>(i, h). reaches 5 (aHash ! h) i) (enumerate 0 hash_values)" by code_simp
  moreover have "length hash_values = 121" by (simp add: hash_values_def)
  ultimately show "i < 121 \<Longrightarrow> reaches 5 (aHash ! (hash_values ! i)) i"
    by (auto simp: list_all_length nth_enumerate_eq)
qed

definition keyword_char :: "char \<Rightarrow> bool" where
  "keyword_char c \<longleftrightarrow> c \<in> set ''ABCDEFGHIJKLMNOPQRSTUVWXYZ_''"

lemma keyword_chars: "list_all (\<lambda>k. list_all keyword_char (fst k)) keyword_list"
  by code_simp

lemma lower_char_inj:
  "keyword_char c \<Longrightarrow> keyword_char d \<Longrightarrow>
     upper_to_lower (word_of_nat (of_char c)) = upper_to_lower (word_of_nat (of_char d)) \<Longrightarrow> c = d"
proof -
  let ?s = "''ABCDEFGHIJKLMNOPQRSTUVWXYZ_''"
  have dist: "distinct (map (\<lambda>c. upper_to_lower (word_of_nat (of_char c))) ?s)" by code_simp
  assume "keyword_char c" "keyword_char d"
    "upper_to_lower (word_of_nat (of_char c)) = upper_to_lower (word_of_nat (of_char d))"
  with dist show "c = d" unfolding keyword_char_def distinct_map by (meson inj_onD)
qed

lemma lower_keywords_inj:
  assumes "k \<in> fst ` set keyword_list" and "l \<in> fst ` set keyword_list"
  shows "lower (bytes_of k) = lower (bytes_of l) \<longleftrightarrow> k = l"
proof -
  have "s = t" if "list_all keyword_char s" "list_all keyword_char t" "lower (bytes_of s) = lower (bytes_of t)" for s t
    using that
  proof (induction s arbitrary: t)
    case (Cons c s)
    then show ?case by (cases t) (auto simp: lower_def bytes_of_def dest: lower_char_inj)
  qed (simp add: lower_def bytes_of_def)
  moreover have "list_all keyword_char k" "list_all keyword_char l"
    using keyword_chars assms by (auto simp: list_all_iff [of _ keyword_list])
  ultimately show ?thesis by blast
qed

lemma distinct_keywords: "distinct (map fst keyword_list)"
  by code_simp

lemma lower_keyword_inj:
  assumes "i < 121" and "k < 121"
  shows "lower_keyword i = lower_keyword k \<longleftrightarrow> i = k"
proof -
  have "fst (keyword_list ! j) \<in> fst ` set keyword_list" if "j < 121" for j
    using that by (simp add: length_keyword_tables)
  then have "lower_keyword i = lower_keyword k \<longleftrightarrow> map fst keyword_list ! i = map fst keyword_list ! k"
    using assms by (simp add: lower_keyword_def lower_keywords_inj length_keyword_tables)
  also have "\<dots> \<longleftrightarrow> i = k"
    using assms distinct_keywords by (simp add: nth_eq_iff_index_eq length_keyword_tables del: nth_map)
  finally show ?thesis .
qed

lemma reaches_chain: "i < 121 \<Longrightarrow> reaches fuel j i \<Longrightarrow> chain (lower_keyword i) j = Some i"
proof (induction fuel arbitrary: j)
  case (Suc fuel)
  then have j: "\<not> (j = 0 \<or> 121 < j)" and k: "j - 1 < 121" by auto
  show ?case
  proof (cases "j = Suc i")
    case True
    then show ?thesis using j by (subst chain.simps) simp
  next
    case False
    with Suc.prems(2) have "reaches fuel (aNext ! (j - 1)) i" by simp
    then have IH: "chain (lower_keyword i) (aNext ! (j - 1)) = Some i" by (rule Suc.IH [OF Suc.prems(1)])
    have "lower_keyword i \<noteq> lower_keyword (j - 1)"
      using lower_keyword_inj [OF Suc.prems(1) k] False j by auto
    then show ?thesis using IH j by (subst chain.simps) (simp only: if_False)
  qed
qed simp

lemma chain_complete: "i < 121 \<Longrightarrow> chain (lower_keyword i) (aHash ! word_hash (lower_keyword i)) = Some i"
  using reaches_chain [OF _ chains_reach] by (simp only: hash_values_eq)

section \<open>The recogniser is a lookup in the list of keywords\<close>

definition keyword_table :: "(byte list \<times> nat) list" where
  "keyword_table = map (\<lambda>(k, c). (lower (bytes_of k), TK c)) keyword_list"

lemma aCode_keyword_list: "aCode = map (\<lambda>k. TK (snd k)) keyword_list"
  by (simp add: aCode_def keyword_list_def)

lemma keyword_table_nth:
  assumes "i < 121"
  shows "keyword_table ! i = (lower_keyword i, aCode ! i)"
  using assms
  by (simp add: keyword_table_def lower_keyword_def aCode_keyword_list length_keyword_tables split_beta)

lemma length_keyword_table: "length keyword_table = 121"
  by (simp add: keyword_table_def length_keyword_tables)

lemma distinct_keyword_table: "distinct (map fst keyword_table)"
proof -
  have "map fst keyword_table ! i = lower_keyword i" if "i < 121" for i
    using that by (simp add: length_keyword_table keyword_table_nth)
  then show ?thesis
    by (auto simp: distinct_conv_nth length_keyword_table lower_keyword_inj)
qed

lemma keyword_table_lookup: "i < 121 \<Longrightarrow> map_of keyword_table (lower_keyword i) = Some (aCode ! i)"
  using map_of_is_SomeI [OF distinct_keyword_table] keyword_table_nth length_keyword_table by (metis nth_mem)

lemma keyword_table_chain:
  "map_of keyword_table w = map_option (\<lambda>i. aCode ! i) (chain w (aHash ! word_hash w))"
proof (cases "chain w (aHash ! word_hash w)")
  case None
  have "w \<notin> fst ` set keyword_table"
  proof
    assume "w \<in> fst ` set keyword_table"
    then obtain i where "i < 121" "w = lower_keyword i"
      by (auto simp: in_set_conv_nth length_keyword_table keyword_table_nth)
    then show False using chain_complete None by simp
  qed
  then show ?thesis using None by (simp add: map_of_eq_None_iff)
next
  case (Some i)
  then show ?thesis using chain_sound [OF Some] keyword_table_lookup by simp
qed

lemma short_word:
  assumes "length w < 2"
  shows "map_of keyword_table w = None"
proof (cases "chain w (aHash ! word_hash w)")
  case None
  then show ?thesis by (simp add: keyword_table_chain)
next
  case (Some i)
  have "list_all (\<lambda>k. 2 \<le> length (fst k)) keyword_list" by code_simp
  moreover from chain_sound [OF Some] have i: "i < 121" "w = lower_keyword i" by simp_all
  ultimately have "2 \<le> length w"
    by (simp add: list_all_length length_keyword_tables lower_keyword_def lower_def)
  with assms show ?thesis by simp
qed

lemma keyword_hash_eq:
  assumes "n \<le> length z" and "2 \<le> n"
  shows "keyword_hash (at z 0) (at z (n - 1)) n = word_hash (lower (take n z))"
proof -
  have ne: "take n z \<noteq> []" "z \<noteq> []" "n - 1 < length z" using assms by auto
  then have "hd (take n z) = at z 0" "last (take n z) = at z (n - 1)"
    using assms by (simp_all add: at_def hd_conv_nth last_conv_nth)
  then show ?thesis
    using assms ne by (simp add: keyword_hash_def word_hash_def lower_def hd_map last_map)
qed

lemma keywordCode_eq:
  assumes "n \<le> length z" and "0 \<notin> set (take n z)"
  shows "keywordCode z n =
    (case map_of keyword_table (lower (take n z)) of Some c \<Rightarrow> c | None \<Rightarrow> TK ''ID'')"
proof (cases "n < 2")
  case True
  then show ?thesis using short_word [of "lower (take n z)"] by (simp add: keywordCode_def lower_def)
next
  case False
  then have "keyword_hash (at z 0) (at z (n - 1)) n = word_hash (lower (take n z))"
    using keyword_hash_eq assms(1) by simp
  with False show ?thesis
    by (simp add: keywordCode_def keyword_loop_chain [OF assms] keyword_table_chain split: option.split)
qed

text \<open>
  C27: the hash table of \<open>keywordCode\<close> is a lookup in the list of SQL keywords: a word gets the token code of
  the keyword it equals up to the case of ASCII letters, and \<open>TK_ID\<close> when there is none. All 121
  keywords are reached through their hash chain, and no other word is taken for one.
\<close>

theorem keywordCode_looks_up:
  assumes "n \<le> length z" and "0 \<notin> set (take n z)"
  shows "keywordCode z n =
    (case map_of keyword_table (lower (take n z)) of Some c \<Rightarrow> c | None \<Rightarrow> TK ''ID'')"
  using assms by (rule keywordCode_eq)

lemma keywordCode_looks_up_witness:
  "(6 :: nat) \<le> length (bytes_of ''Select * from t'') \<and> 0 \<notin> set (take 6 (bytes_of ''Select * from t'')) \<and>
   keywordCode (bytes_of ''Select * from t'') 6 = TK ''SELECT''"
proof -
  have pre: "(6 :: nat) \<le> length (bytes_of ''Select * from t'')" "0 \<notin> set (take 6 (bytes_of ''Select * from t''))"
    by code_simp+
  have "lower (bytes_of ''SELECT'') = lower (take 6 (bytes_of ''Select * from t''))"
    by code_simp
  moreover have "keyword_list ! 18 = (''SELECT'', ''SELECT'')"
    by (simp add: keyword_list_def)
  ultimately have "map_of keyword_table (lower (take 6 (bytes_of ''Select * from t''))) = Some (TK ''SELECT'')"
    using keyword_table_lookup [of 18]
    by (simp add: lower_keyword_def aCode_keyword_list length_keyword_tables)
  with pre show ?thesis by (simp only: keywordCode_looks_up [OF pre]) simp
qed

end
