(* ===== verification/Sqlite_Tokenize.thy ===== *)
theory Sqlite_Tokenize
  imports Sqlite_Keywords
begin

text \<open>
  The tokenizer of the SQLite library (\<open>tokenize.c\<close> in the amalgamation): \<open>sqlite3GetToken\<close>, one definition per
  case of its switch that has a loop, the loop of \<open>sqlite3RunParser\<close> that hands the tokens to the
  grammar, and the quoting of strings: \<open>%q\<close>, \<open>%Q\<close> and \<open>%w\<close> of \<open>sqlite3VXPrintf\<close> and \<open>sqlite3Dequote\<close>. A text
  is a list of bytes without its terminating NUL.
\<close>

section \<open>sqlite3GetToken\<close>

text \<open>\<open>for(i=3, c=z[2]; (c!='*' || z[i]!='/') && (c=z[i])!=0; i++)\<close>: the final \<open>i\<close> and \<open>c\<close>.\<close>

function comment_loop :: "byte list \<Rightarrow> nat \<Rightarrow> byte \<Rightarrow> nat \<times> byte" where
  "comment_loop z i c =
     (if c = ch CHR ''*'' \<and> at z i = ch CHR ''/'' then (i, c)
      else if at z i = 0 then (i, 0)
      else comment_loop z (Suc i) (at z i))"
  by pat_completeness auto
termination by (relation "measure (\<lambda>(z, i, c). length z - i)") (auto dest: at_nonzero)

text \<open>The loop over a quoted string or name.\<close>

function quoted_loop :: "byte list \<Rightarrow> byte \<Rightarrow> nat \<Rightarrow> nat \<times> byte" where
  "quoted_loop z delim i =
     (if at z i = 0 then (i, 0)
      else if at z i = delim then
        if at z (i + 1) = delim then quoted_loop z delim (i + 2) else (i, at z i)
      else quoted_loop z delim (i + 1))"
  by pat_completeness auto
termination by (relation "measure (\<lambda>(z, d, i). length z - i)") (auto dest: at_nonzero)

text \<open>The loop over a name in brackets.\<close>

function bracket_loop :: "byte list \<Rightarrow> nat \<Rightarrow> byte \<Rightarrow> nat \<times> byte" where
  "bracket_loop z i c =
     (if c = ch CHR '']'' then (i, c)
      else if at z i = 0 then (i, 0)
      else bracket_loop z (Suc i) (at z i))"
  by pat_completeness auto
termination by (relation "measure (\<lambda>(z, i, c). length z - i)") (auto dest: at_nonzero)

text \<open>The inner loop of a variable: from a parenthesis to the one that closes it, without white space.\<close>

definition paren_end :: "byte list \<Rightarrow> nat \<Rightarrow> nat" where
  "paren_end z i = scan_while (\<lambda>c. c \<noteq> 0 \<and> \<not> sqlite3Isspace c \<and> c \<noteq> ch CHR '')'') z (i + 1)"

text \<open>The loop over a variable: its token type, its end and the count \<open>n\<close> of name characters.\<close>

function variable_loop :: "byte list \<Rightarrow> nat \<Rightarrow> nat \<Rightarrow> nat \<times> nat \<times> nat" where
  "variable_loop z i n =
     (if at z i = 0 then (TK ''VARIABLE'', i, n)
      else if IdChar (at z i) then variable_loop z (i + 1) (n + 1)
      else if at z i = ch CHR ''('' \<and> 0 < n then
        let j = paren_end z i in if at z j = ch CHR '')'' then (TK ''VARIABLE'', j + 1, n) else (TK ''ILLEGAL'', j, n)
      else if at z i = ch CHR '':'' \<and> at z (i + 1) = ch CHR '':'' then variable_loop z (i + 2) n
      else (TK ''VARIABLE'', i, n))"
  by pat_completeness auto
termination
  apply (relation "measure (\<lambda>(z, i, n). length z - i)")
     apply (auto dest: at_nonzero)
  subgoal for z i using at_nonzero [of z i] by simp
  done

text \<open>The loop over a blob literal: its end, the last character read and whether all were hexadecimal digits.\<close>

function blob_loop :: "byte list \<Rightarrow> nat \<Rightarrow> bool \<Rightarrow> nat \<times> byte \<times> bool" where
  "blob_loop z i ok =
     (if at z i = 0 \<or> at z i = ch CHR 0x27 then (i, at z i, ok)
      else blob_loop z (Suc i) (ok \<and> sqlite3Isxdigit (at z i)))"
  by pat_completeness auto
termination by (relation "measure (\<lambda>(z, i, ok). length z - i)") (auto dest: at_nonzero)

lemmas token_loops = comment_loop.simps quoted_loop.simps bracket_loop.simps variable_loop.simps blob_loop.simps

declare token_loops [simp del]

text \<open>The cases of the switch: the token type and the length.\<close>

definition comment_token :: "byte list \<Rightarrow> nat \<times> nat" where
  "comment_token z =
     (if at z 1 \<noteq> ch CHR ''*'' \<or> at z 2 = 0 then (TK ''SLASH'', 1)
      else let (i, c) = comment_loop z 3 (at z 2)
           in (TK ''SPACE'', if c \<noteq> 0 then i + 1 else i))"

definition quoted_token :: "byte list \<Rightarrow> nat \<times> nat" where
  "quoted_token z =
     (let (i, c) = quoted_loop z (at z 0) 1
      in if c = ch CHR 0x27 then (TK ''STRING'', i + 1)
         else if c \<noteq> 0 then (TK ''ID'', i + 1)
         else (TK ''ILLEGAL'', i))"

definition fraction_part :: "byte list \<Rightarrow> nat \<Rightarrow> nat \<times> nat" where
  "fraction_part z i =
     (if at z i = ch CHR ''.'' then (TK ''FLOAT'', scan_while sqlite3Isdigit z (i + 1)) else (TK ''INTEGER'', i))"

definition exponent_starts :: "byte list \<Rightarrow> nat \<Rightarrow> bool" where
  "exponent_starts z i \<longleftrightarrow>
     (at z i = ch CHR ''e'' \<or> at z i = ch CHR ''E'') \<and>
     (sqlite3Isdigit (at z (i + 1)) \<or>
      (at z (i + 1) = ch CHR ''+'' \<or> at z (i + 1) = ch CHR ''-'') \<and> sqlite3Isdigit (at z (i + 2)))"

definition exponent_part :: "byte list \<Rightarrow> nat \<times> nat \<Rightarrow> nat \<times> nat" where
  "exponent_part z = (\<lambda>(t, i).
     if exponent_starts z i then (TK ''FLOAT'', scan_while sqlite3Isdigit z (i + 2)) else (t, i))"

definition number_suffix :: "byte list \<Rightarrow> nat \<times> nat \<Rightarrow> nat \<times> nat" where
  "number_suffix z = (\<lambda>(t, i). let j = scan_while IdChar z i in (if i < j then TK ''ILLEGAL'' else t, j))"

definition number_token :: "byte list \<Rightarrow> nat \<times> nat" where
  "number_token z = number_suffix z (exponent_part z (fraction_part z (scan_while sqlite3Isdigit z 0)))"

definition bracket_token :: "byte list \<Rightarrow> nat \<times> nat" where
  "bracket_token z =
     (let (i, c) = bracket_loop z 1 (at z 0)
      in (if c = ch CHR '']'' then TK ''ID'' else TK ''ILLEGAL'', i))"

definition variable_token :: "byte list \<Rightarrow> nat \<times> nat" where
  "variable_token z =
     (let (t, i, n) = variable_loop z 1 0 in (if n = 0 then TK ''ILLEGAL'' else t, i))"

definition blob_token :: "byte list \<Rightarrow> nat \<times> nat" where
  "blob_token z =
     (let (i, c, ok) = blob_loop z 2 True
      in (if ok \<and> \<not> (odd i \<or> c = 0) then TK ''BLOB'' else TK ''ILLEGAL'', if c \<noteq> 0 then i + 1 else i))"

definition word_token :: "byte list \<Rightarrow> nat \<times> nat" where
  "word_token z = (if IdChar (at z 0) then let i = scan_while IdChar z 1 in (keywordCode z i, i) else (TK ''ILLEGAL'', 1))"

definition sqlite3GetToken :: "byte list \<Rightarrow> nat \<times> nat" where
  "sqlite3GetToken z =
     (let c = at z 0; d = at z 1
      in if c = ch CHR '' '' \<or> c = 0x09 \<or> c = 0x0a \<or> c = 0x0c \<or> c = 0x0d then (TK ''SPACE'', scan_while sqlite3Isspace z 1)
         else if c = ch CHR ''-'' then
           if d = ch CHR ''-'' then (TK ''SPACE'', scan_while (\<lambda>c. c \<noteq> 0 \<and> c \<noteq> 0x0a) z 2) else (TK ''MINUS'', 1)
         else if c = ch CHR ''('' then (TK ''LP'', 1)
         else if c = ch CHR '')'' then (TK ''RP'', 1)
         else if c = ch CHR '';'' then (TK ''SEMI'', 1)
         else if c = ch CHR ''+'' then (TK ''PLUS'', 1)
         else if c = ch CHR ''*'' then (TK ''STAR'', 1)
         else if c = ch CHR ''/'' then comment_token z
         else if c = ch CHR ''%'' then (TK ''REM'', 1)
         else if c = ch CHR ''='' then (TK ''EQ'', if d = ch CHR ''='' then 2 else 1)
         else if c = ch CHR ''<'' then
           if d = ch CHR ''='' then (TK ''LE'', 2) else if d = ch CHR ''>'' then (TK ''NE'', 2)
           else if d = ch CHR ''<'' then (TK ''LSHIFT'', 2) else (TK ''LT'', 1)
         else if c = ch CHR ''>'' then
           if d = ch CHR ''='' then (TK ''GE'', 2) else if d = ch CHR ''>'' then (TK ''RSHIFT'', 2) else (TK ''GT'', 1)
         else if c = ch CHR ''!'' then (if d \<noteq> ch CHR ''='' then TK ''ILLEGAL'' else TK ''NE'', 2)
         else if c = ch CHR ''|'' then if d \<noteq> ch CHR ''|'' then (TK ''BITOR'', 1) else (TK ''CONCAT'', 2)
         else if c = ch CHR '','' then (TK ''COMMA'', 1)
         else if c = ch CHR ''&'' then (TK ''BITAND'', 1)
         else if c = ch CHR ''~'' then (TK ''BITNOT'', 1)
         else if c = ch CHR 0x60 \<or> c = ch CHR 0x27 \<or> c = ch CHR 0x22 then quoted_token z
         else if c = ch CHR ''.'' \<and> \<not> sqlite3Isdigit d then (TK ''DOT'', 1)
         else if c = ch CHR ''.'' \<or> sqlite3Isdigit c then number_token z
         else if c = ch CHR ''['' then bracket_token z
         else if c = ch CHR ''?'' then (TK ''VARIABLE'', scan_while sqlite3Isdigit z 1)
         else if c = ch CHR ''#'' \<and> 1 < scan_while sqlite3Isdigit z 1 then (TK ''REGISTER'', scan_while sqlite3Isdigit z 1)
         else if c = ch CHR ''#'' \<or> c = ch CHR ''$'' \<or> c = ch CHR ''@'' \<or> c = ch CHR '':'' then variable_token z
         else if (c = ch CHR ''x'' \<or> c = ch CHR ''X'') \<and> d = ch CHR 0x27 then blob_token z
         else word_token z)"

section \<open>Tokens stay inside the text\<close>

lemma comment_loop_bounds:
  "i \<le> length z \<Longrightarrow> comment_loop z i c = (j, d) \<Longrightarrow> i \<le> j \<and> (if d = 0 then j \<le> length z else j < length z)"
proof (induction z i c rule: comment_loop.induct)
  case (1 z i c)
  then show ?case using at_nonzero [of z i]
    by (subst (asm) (2) comment_loop.simps) (auto split: if_splits)
qed

lemma quoted_loop_bounds:
  "i \<le> length z \<Longrightarrow> quoted_loop z delim i = (j, d) \<Longrightarrow> i \<le> j \<and> (if d = 0 then j \<le> length z else j < length z)"
proof (induction z delim i rule: quoted_loop.induct)
  case (1 z delim i)
  then show ?case using at_nonzero [of z i] at_nonzero [of z "i + 1"]
    by (subst (asm) (3) quoted_loop.simps) (auto split: if_splits)
qed

lemma bracket_loop_bounds:
  "i \<le> length z \<Longrightarrow> bracket_loop z i c = (j, d) \<Longrightarrow> i \<le> j \<and> j \<le> length z"
proof (induction z i c rule: bracket_loop.induct)
  case (1 z i c)
  then show ?case using at_nonzero [of z i]
    by (subst (asm) (2) bracket_loop.simps) (auto split: if_splits)
qed

lemma blob_loop_bounds:
  "i \<le> length z \<Longrightarrow> blob_loop z i ok = (j, d, ok') \<Longrightarrow> i \<le> j \<and> (if d = 0 then j \<le> length z else j < length z)"
proof (induction z i ok rule: blob_loop.induct)
  case (1 z i ok)
  then show ?case using at_nonzero [of z i]
    by (subst (asm) (2) blob_loop.simps) (auto split: if_splits)
qed

lemma paren_end_bounds: "i < paren_end z i" "i < length z \<Longrightarrow> paren_end z i \<le> length z"
  unfolding paren_end_def by (simp_all add: scan_while_ge Suc_le_lessD scan_while_le)

lemma variable_loop_bounds:
  "i \<le> length z \<Longrightarrow> variable_loop z i n = (t, j, m) \<Longrightarrow> i \<le> j \<and> j \<le> length z"
proof (induction z i n rule: variable_loop.induct)
  case (1 z i n)
  then show ?case
    using at_nonzero [of z i] at_nonzero [of z "i + 1"] at_nonzero [of z "paren_end z i"] paren_end_bounds [of i z]
    by (subst (asm) (3) variable_loop.simps) (auto simp: Let_def split: if_splits)
qed

lemma comment_token_bounds:
  assumes "z \<noteq> []" and "comment_token z = (t, n)"
  shows "0 < n \<and> n \<le> length z"
proof (cases "at z 1 \<noteq> ch CHR ''*'' \<or> at z 2 = 0")
  case True
  then show ?thesis using assms by (auto simp: comment_token_def Suc_le_eq)
next
  case False
  obtain i c where l: "comment_loop z 3 (at z 2) = (i, c)" by fastforce
  moreover have "3 \<le> length z" using False at_nonzero [of z 2] by simp
  ultimately have "3 \<le> i \<and> (if c = 0 then i \<le> length z else i < length z)"
    by (rule comment_loop_bounds [rotated])
  moreover have "n = (if c \<noteq> 0 then i + 1 else i)"
    using assms(2) False l by (auto simp: comment_token_def)
  ultimately show ?thesis by (auto split: if_splits)
qed

lemma quoted_token_bounds:
  "z \<noteq> [] \<Longrightarrow> quoted_token z = (t, n) \<Longrightarrow> 0 < n \<and> n \<le> length z"
  using quoted_loop_bounds [of 1 z "at z 0"]
  by (auto simp: quoted_token_def Suc_le_eq split: if_splits prod.splits)

lemma bracket_token_bounds:
  "z \<noteq> [] \<Longrightarrow> bracket_token z = (t, n) \<Longrightarrow> 0 < n \<and> n \<le> length z"
  using bracket_loop_bounds [of 1 z "at z 0"]
  by (auto simp: bracket_token_def Suc_le_eq split: if_splits prod.splits)

lemma variable_token_bounds:
  "z \<noteq> [] \<Longrightarrow> variable_token z = (t, n) \<Longrightarrow> 0 < n \<and> n \<le> length z"
  using variable_loop_bounds [of 1 z 0]
  by (auto simp: variable_token_def Suc_le_eq split: if_splits prod.splits)

lemma blob_token_bounds:
  assumes "at z 1 \<noteq> 0" and "blob_token z = (t, n)"
  shows "0 < n \<and> n \<le> length z"
proof -
  obtain i c ok where l: "blob_loop z 2 True = (i, c, ok)" by (metis prod_cases3)
  have "2 \<le> i \<and> (if c = 0 then i \<le> length z else i < length z)"
    using blob_loop_bounds [OF _ l] at_nonzero [OF assms(1)] by simp
  moreover have "n = (if c \<noteq> 0 then i + 1 else i)"
    using assms(2) l by (simp add: blob_token_def)
  ultimately show ?thesis by (auto split: if_splits)
qed

lemma scan_while_token: "0 < i \<Longrightarrow> i \<le> length z \<Longrightarrow> 0 < scan_while P z i \<and> scan_while P z i \<le> length z"
  using scan_while_ge [of i P z] scan_while_le [of i z P] by linarith

lemma word_token_bounds:
  "z \<noteq> [] \<Longrightarrow> word_token z = (t, n) \<Longrightarrow> 0 < n \<and> n \<le> length z"
  using scan_while_token [of 1 z IdChar] by (auto simp: word_token_def Suc_le_eq Let_def split: if_splits)


lemma scan_while_loops: "i \<le> length z \<Longrightarrow> P (at z i) \<Longrightarrow> \<not> P 0 \<Longrightarrow> i < scan_while P z i"
proof -
  assume "i \<le> length z" "P (at z i)" "\<not> P 0"
  then have "i < length z" "P (z ! i)" by (auto simp: at_def split: if_splits)
  then show ?thesis using scan_while_ge [of "Suc i" P z] by (simp add: scan_while.simps [of P z i])
qed

lemma fraction_part_bounds:
  "i \<le> length z \<Longrightarrow> fraction_part z i = (t, j) \<Longrightarrow> i \<le> j \<and> j \<le> length z \<and> (at z i = ch CHR ''.'' \<longrightarrow> i < j)"
  using at_nonzero [of z i] scan_while_token [of "i + 1" z sqlite3Isdigit] scan_while_ge [of "i + 1" sqlite3Isdigit z]
  by (auto simp: fraction_part_def split: if_splits)

lemma exponent_starts_at: "exponent_starts z i \<Longrightarrow> i + 2 \<le> length z"
proof -
  assume "exponent_starts z i"
  then have "at z (i + 1) \<noteq> 0" by (auto simp: exponent_starts_def)
  from at_nonzero [OF this] show ?thesis by simp
qed

lemma exponent_part_bounds:
  "i \<le> length z \<Longrightarrow> exponent_part z (t, i) = (u, j) \<Longrightarrow> i \<le> j \<and> j \<le> length z"
  using exponent_starts_at [of z i] scan_while_le [of "i + 2" z sqlite3Isdigit] scan_while_ge [of "i + 2" sqlite3Isdigit z]
  by (auto simp: exponent_part_def split: if_splits)

lemma number_suffix_bounds:
  "i \<le> length z \<Longrightarrow> number_suffix z (t, i) = (u, j) \<Longrightarrow> i \<le> j \<and> j \<le> length z"
  using scan_while_le [of i z IdChar] scan_while_ge [of i IdChar z]
  by (auto simp: number_suffix_def Let_def)

lemma number_token_bounds:
  assumes "z \<noteq> []" and "number_token z = (t, n)" and "at z 0 = ch CHR ''.'' \<or> sqlite3Isdigit (at z 0)"
  shows "0 < n \<and> n \<le> length z"
proof -
  define i where "i = scan_while sqlite3Isdigit z 0"
  obtain t1 j where j: "fraction_part z i = (t1, j)" by fastforce
  obtain t2 k where k: "exponent_part z (t1, j) = (t2, k)" by fastforce
  have n: "number_suffix z (t2, k) = (t, n)"
    using assms(2) by (simp add: number_token_def i_def [symmetric] j k)
  have i: "i \<le> length z" unfolding i_def by (simp add: scan_while_le)
  note bounds = fraction_part_bounds [OF i j] exponent_part_bounds [OF _ k] number_suffix_bounds [OF _ n]
  have "0 < j"
  proof (cases "sqlite3Isdigit (at z 0)")
    case True
    then have "0 < i" unfolding i_def by (intro scan_while_loops) simp_all
    then show ?thesis using bounds by simp
  next
    case False
    then have "i = 0" using assms(1) by (simp add: i_def scan_while.simps [of _ z 0] at_def)
    then show ?thesis using assms(3) False bounds by simp
  qed
  then show ?thesis using bounds by auto
qed

definition token_inside :: "byte list \<Rightarrow> nat \<times> nat \<Rightarrow> bool" where
  "token_inside z p \<longleftrightarrow> 0 < snd p \<and> (snd p \<le> length z \<or> at z 0 = ch CHR ''!'' \<and> at z 1 = 0)"

lemma token_inside_if:
  "(P \<Longrightarrow> token_inside z p) \<Longrightarrow> (\<not> P \<Longrightarrow> token_inside z q) \<Longrightarrow> token_inside z (if P then p else q)"
  by simp

lemma token_inside_1: "z \<noteq> [] \<Longrightarrow> token_inside z (t, 1)"
  by (simp add: token_inside_def Suc_le_eq)

lemma token_inside_2: "at z 1 = c \<Longrightarrow> c \<noteq> 0 \<Longrightarrow> token_inside z (t, 2)"
  using at_nonzero [of z 1] by (simp add: token_inside_def)

lemma token_inside_scan: "z \<noteq> [] \<Longrightarrow> token_inside z (t, scan_while P z 1)"
  using scan_while_token [of 1 z P] by (simp add: token_inside_def Suc_le_eq)

lemma token_inside_sub:
  "z \<noteq> [] \<Longrightarrow> token_inside z (comment_token z)"
  "z \<noteq> [] \<Longrightarrow> token_inside z (quoted_token z)"
  "z \<noteq> [] \<Longrightarrow> token_inside z (bracket_token z)"
  "z \<noteq> [] \<Longrightarrow> token_inside z (variable_token z)"
  "z \<noteq> [] \<Longrightarrow> token_inside z (word_token z)"
  "z \<noteq> [] \<Longrightarrow> at z 0 = ch CHR ''.'' \<or> sqlite3Isdigit (at z 0) \<Longrightarrow> token_inside z (number_token z)"
  "at z 1 \<noteq> 0 \<Longrightarrow> token_inside z (blob_token z)"
  using comment_token_bounds quoted_token_bounds bracket_token_bounds variable_token_bounds
    word_token_bounds number_token_bounds blob_token_bounds
  unfolding token_inside_def by (metis prod.collapse)+

lemma token_inside_scan2: "at z 1 = c \<Longrightarrow> c \<noteq> 0 \<Longrightarrow> token_inside z (t, scan_while P z 2)"
  using at_nonzero [of z 1] scan_while_token [of 2 z P] by (simp add: token_inside_def)

lemma token_inside_bang: "at z 0 = ch CHR ''!'' \<Longrightarrow> token_inside z (t, 2)"
  using at_nonzero [of z 1] by (cases "at z 1 = 0") (simp_all add: token_inside_def)

lemma get_token_inside:
  assumes "z \<noteq> []"
  shows "token_inside z (sqlite3GetToken z)"
  unfolding sqlite3GetToken_def Let_def
  by (intro token_inside_if token_inside_sub assms token_inside_1 token_inside_scan)
    (simp_all add: token_inside_1 token_inside_2 token_inside_scan2 token_inside_bang token_inside_sub assms
      del: One_nat_def)

text \<open>
  C32: the tokenizer always makes progress and stays inside the text: a token has at least one character
  and ends at the latest at the end of the text, except for an exclamation mark as the last character,
  for which it returns a length of 2, so that the token reaches past the terminating NUL.
\<close>

theorem get_token_bounds:
  assumes "z \<noteq> []" and "0 \<notin> set z"
  shows "0 < snd (sqlite3GetToken z) \<and>
    (snd (sqlite3GetToken z) \<le> length z \<or> z = [ch CHR ''!''] \<and> snd (sqlite3GetToken z) = 2)"
proof -
  have bang: "z = [ch CHR ''!'']" if "at z 0 = ch CHR ''!''" "at z 1 = 0"
    using that assms by (cases z rule: remdups_adj.cases) auto
  show ?thesis
    using get_token_inside [OF assms(1)] bang
    by (auto simp: token_inside_def sqlite3GetToken_def)
qed

lemma get_token_bounds_witness:
  "bytes_of ''a!'' \<noteq> [] \<and> 0 \<notin> set (bytes_of ''a!'') \<and> 0 < snd (sqlite3GetToken (bytes_of ''a!'')) \<and>
   bytes_of ''!'' \<noteq> [] \<and> 0 \<notin> set (bytes_of ''!'') \<and> snd (sqlite3GetToken (bytes_of ''!'')) = 2"
proof -
  have "0 \<notin> set (bytes_of ''a!'')" "0 \<notin> set (bytes_of ''!'')" "bytes_of ''a!'' \<noteq> []" "bytes_of ''!'' \<noteq> []"
    by code_simp+
  moreover have "\<not> snd (sqlite3GetToken (bytes_of ''!'')) \<le> length (bytes_of ''!'')"
    by (simp add: sqlite3GetToken_def bytes_of_def)
  ultimately show ?thesis
    using get_token_bounds [of "bytes_of ''a!''"] get_token_bounds [of "bytes_of ''!''"] by blast
qed

section \<open>sqlite3RunParser\<close>

text \<open>
  The grammar that consumes the tokens is an argument \<open>feed\<close>, \<open>sqlite3Parser(pEngine, tokenType, sLastToken, pParse)\<close>,
  which changes the parse context; \<open>'e\<close> is the part of the context only it uses. \<open>failed\<close> reads
  \<open>db->mallocFailed\<close>, \<open>interrupted\<close> is \<open>db->u1.isInterrupted\<close>. Positions in the text are numbers, which is what
  the pointers and the \<open>int\<close> counter are for texts below 2 GB; the limit \<open>mxSqlLen\<close> is smaller. Memory
  management is not modelled: the engine is allocated, and what the grammar left in the context is freed
  at the end. Errors are reported (\<open>db->suppressErr\<close> is not set).
\<close>

datatype parse_message = Interrupted | Unrecognized "byte list" | ErrStr nat | Grammar string

record 'e parse =
  rc :: nat
  zErrMsg :: "parse_message option"
  zTail :: nat
  sLastToken :: "byte list"
  engine :: 'e

record 'e parser_run =
  pos :: nat
  lastTokenParsed :: int
  nErr :: nat
  pzErrMsg :: "parse_message option"
  pParse :: "'e parse"

text \<open>One token handed to the grammar.\<close>

definition feed_token :: "(nat \<Rightarrow> 'e parse \<Rightarrow> 'e parse) \<Rightarrow> nat \<Rightarrow> 'e parser_run \<Rightarrow> 'e parser_run" where
  "feed_token feed t r =
     (let r = (if t = TK ''SEMI'' then r\<lparr>pParse := (pParse r)\<lparr>zTail := pos r\<rparr>\<rparr> else r)
      in r\<lparr>pParse := feed t (pParse r), lastTokenParsed := int t\<rparr>)"

text \<open>The loop, up to the label \<open>abort_parse\<close>.\<close>

function parse_loop ::
  "(nat \<Rightarrow> 'e parse \<Rightarrow> 'e parse) \<Rightarrow> ('e \<Rightarrow> bool) \<Rightarrow> bool \<Rightarrow> nat \<Rightarrow> byte list \<Rightarrow> 'e parser_run \<Rightarrow> 'e parser_run" where
  "parse_loop feed failed interrupted mxSqlLen zSql r =
     (if failed (engine (pParse r)) \<or> at zSql (pos r) = 0 then r
      else
        let z = drop (pos r) zSql;
            (t, n) = sqlite3GetToken z;
            r' = r\<lparr>pos := pos r + n, pParse := (pParse r)\<lparr>sLastToken := take n z\<rparr>\<rparr>
        in if mxSqlLen < pos r' then r'\<lparr>pParse := (pParse r')\<lparr>rc := SQLITE_TOOBIG\<rparr>\<rparr>
           else if t = TK ''SPACE'' then
             if interrupted
             then r'\<lparr>pParse := (pParse r')\<lparr>rc := SQLITE_INTERRUPT, zErrMsg := Some Interrupted\<rparr>\<rparr>
             else parse_loop feed failed interrupted mxSqlLen zSql r'
           else if t = TK ''ILLEGAL'' then
             r'\<lparr>pzErrMsg := Some (Unrecognized (take n z)), nErr := nErr r' + 1\<rparr>
           else
             let r'' = feed_token feed t r'
             in if rc (pParse r'') \<noteq> SQLITE_OK then r''
                else parse_loop feed failed interrupted mxSqlLen zSql r'')"
  by pat_completeness auto

lemma pos_feed_token [simp]: "pos (feed_token feed t r) = pos r"
  by (simp add: feed_token_def Let_def)

lemma get_token_positive: "z \<noteq> [] \<Longrightarrow> sqlite3GetToken z = (t, n) \<Longrightarrow> 0 < n"
  using get_token_inside [of z] by (simp add: token_inside_def)

lemma parse_loop_progress:
  assumes "at z i \<noteq> 0" and "(t, n) = sqlite3GetToken (drop i z)"
  shows "length z - (i + n) < length z - i"
  using at_nonzero [OF assms(1)] get_token_positive [OF _ assms(2) [symmetric]] by simp

termination parse_loop
  apply (relation "measure (\<lambda>(feed, failed, interrupted, mx, z, r). length z - pos r)")
    apply simp
   apply (use parse_loop_progress in force)
  apply (use parse_loop_progress in force)
  done

declare parse_loop.simps [simp del]

text \<open>
  The end of the text is handed to the grammar as a semicolon, unless the last token was one, and as token 0;
  then the messages are collected. The number of errors, the message and the parse context are returned.
\<close>

definition parse_end :: "(nat \<Rightarrow> 'e parse \<Rightarrow> 'e parse) \<Rightarrow> byte list \<Rightarrow> 'e parser_run \<Rightarrow> 'e parser_run" where
  "parse_end feed zSql r =
     (if at zSql (pos r) = 0 \<and> nErr r = 0 \<and> rc (pParse r) = SQLITE_OK then
        let p = (if lastTokenParsed r \<noteq> int (TK ''SEMI'')
                 then (feed (TK ''SEMI'') (pParse r))\<lparr>zTail := pos r\<rparr> else pParse r)
        in r\<lparr>pParse := feed 0 p\<rparr>
      else r)"

definition parse_result :: "('e \<Rightarrow> bool) \<Rightarrow> 'e parser_run \<Rightarrow> nat \<times> parse_message option \<times> 'e parse" where
  "parse_result failed r =
     (let p = (if failed (engine (pParse r)) then (pParse r)\<lparr>rc := SQLITE_NOMEM\<rparr> else pParse r);
          p = (if rc p \<noteq> SQLITE_OK \<and> rc p \<noteq> SQLITE_DONE \<and> zErrMsg p = None
               then p\<lparr>zErrMsg := Some (ErrStr (rc p))\<rparr> else p);
          (msg, n, p) = (case zErrMsg p of None \<Rightarrow> (pzErrMsg r, nErr r, p)
                         | Some m \<Rightarrow> (Some m, nErr r + 1, p\<lparr>zErrMsg := None\<rparr>));
          p = (if 0 < n \<and> rc p = SQLITE_OK then p\<lparr>rc := SQLITE_ERROR\<rparr> else p)
      in (n, msg, p))"

definition sqlite3RunParser ::
  "(nat \<Rightarrow> 'e parse \<Rightarrow> 'e parse) \<Rightarrow> ('e \<Rightarrow> bool) \<Rightarrow> bool \<Rightarrow> nat \<Rightarrow> byte list \<Rightarrow> 'e parse
     \<Rightarrow> nat \<times> parse_message option \<times> 'e parse" where
  "sqlite3RunParser feed failed interrupted mxSqlLen zSql p =
     (let r = \<lparr>pos = 0, lastTokenParsed = - 1, nErr = 0, pzErrMsg = None, pParse = p\<lparr>rc := SQLITE_OK, zTail := 0\<rparr>\<rparr>;
          r = parse_loop feed failed interrupted mxSqlLen zSql r
      in parse_result failed (parse_end feed zSql r))"

text \<open>The tokens of a text.\<close>

function split_tokens :: "byte list \<Rightarrow> (nat \<times> byte list) list" where
  "split_tokens z =
     (if z = [] then []
      else let (t, n) = sqlite3GetToken z in (t, take n z) # split_tokens (drop n z))"
  by pat_completeness auto
termination
  apply (relation "measure length")
   apply simp
  subgoal for z p t n using get_token_positive [of z t n] by auto
  done

declare split_tokens.simps [simp del]

lemma split_tokens_Nil [simp]: "split_tokens [] = []"
  by (simp add: split_tokens.simps)

lemma concat_split_tokens: "concat (map snd (split_tokens z)) = z"
proof (induction z rule: split_tokens.induct)
  case (1 z)
  then show ?case
    by (cases "z = []"; cases "sqlite3GetToken z") (simp_all add: split_tokens.simps [of z])
qed

text \<open>What a grammar without errors is given: the tokens that are not white space.\<close>

definition significant :: "(nat \<times> byte list) list \<Rightarrow> (nat \<times> byte list) list" where
  "significant ts = filter (\<lambda>(t, s). t \<noteq> TK ''SPACE'') ts"

definition end_tokens :: "(nat \<times> byte list) list \<Rightarrow> (nat \<times> byte list) list" where
  "end_tokens ts =
     (let s = (if ts = [] then [] else snd (last ts));
          semi = significant ts \<noteq> [] \<and> fst (last (significant ts)) = TK ''SEMI''
      in if semi then [(0, s)] else [(TK ''SEMI'', s), (0, s)])"

text \<open>
  A grammar in general: a function that takes what is its own in the context, the result code and the message, and a token,
  to new ones. The generated parser of the library is one; it sets the code to \<open>SQLITE_DONE\<close> when a statement is
  complete, and to an error code when a token does not fit.
\<close>

type_synonym 'e verdict = "'e \<times> nat \<times> parse_message option"

definition verdict :: "'e parse \<Rightarrow> 'e verdict" where
  "verdict p = (engine p, rc p, zErrMsg p)"

definition grammar :: "('e verdict \<Rightarrow> nat \<times> byte list \<Rightarrow> 'e verdict) \<Rightarrow> nat \<Rightarrow> 'e parse \<Rightarrow> 'e parse" where
  "grammar step t p = (case step (verdict p) (t, sLastToken p) of (e, c, m) \<Rightarrow> p\<lparr>engine := e, rc := c, zErrMsg := m\<rparr>)"

definition code :: "'e verdict \<Rightarrow> nat" where
  "code x = fst (snd x)"

text \<open>The tokens up to the first one after which the grammar's code is not \<open>SQLITE_OK\<close>; all of them if there is none.\<close>

fun passed :: "('e verdict \<Rightarrow> nat \<times> byte list \<Rightarrow> 'e verdict) \<Rightarrow> 'e verdict \<Rightarrow> (nat \<times> byte list) list \<Rightarrow> (nat \<times> byte list) list" where
  "passed step x [] = []"
| "passed step x (t # ts) =
     t # (if fst t = TK ''SPACE'' then passed step x ts
          else if code (step x t) = SQLITE_OK then passed step (step x t) ts else [])"

text \<open>The tokens up to the last semicolon.\<close>

definition upto_semi :: "(nat \<times> byte list) list \<Rightarrow> (nat \<times> byte list) list" where
  "upto_semi ts = rev (dropWhile (\<lambda>t. fst t \<noteq> TK ''SEMI'') (rev ts))"

definition text_length :: "(nat \<times> byte list) list \<Rightarrow> nat" where
  "text_length ts = length (concat (map snd ts))"

text \<open>The number of errors, the message and the code that are reported for a verdict.\<close>

definition reported :: "'e verdict \<Rightarrow> nat \<times> parse_message option \<times> nat" where
  "reported x =
     (case x of (e, c, Some m) \<Rightarrow> (1, Some m, if c = SQLITE_OK then SQLITE_ERROR else c)
      | (e, c, None) \<Rightarrow> if c = SQLITE_OK \<or> c = SQLITE_DONE then (0, None, c) else (1, Some (ErrStr c), c))"

lemma TK_eqs: "TK ''SEMI'' = 1" "TK ''ID'' = 26" "TK ''ILLEGAL'' = 148" "TK ''SPACE'' = 149"
  by code_simp+

lemma get_token_legal:
  assumes "z \<noteq> []" and "0 \<notin> set z" and "sqlite3GetToken z = (t, n)" and "t \<noteq> TK ''ILLEGAL''"
  shows "0 < n" "n \<le> length z"
proof -
  have "n \<le> length z" if "at z 0 = ch CHR ''!''" "at z 1 = 0"
    using that assms(3,4) by (auto simp: sqlite3GetToken_def)
  then show "0 < n" "n \<le> length z"
    using get_token_inside [OF assms(1)] assms(3) by (auto simp: token_inside_def)
qed

lemma at_eq_0_iff: "0 \<notin> set z \<Longrightarrow> at z i = 0 \<longleftrightarrow> length z \<le> i"
  by (metis at_def linorder_not_le nth_mem)

lemma grammar_simps [simp]:
  "verdict (grammar step t p) = step (verdict p) (t, sLastToken p)"
  "zTail (grammar step t p) = zTail p" "sLastToken (grammar step t p) = sLastToken p"
  by (simp_all add: grammar_def verdict_def split: prod.split)

lemma verdict_update [simp]:
  "verdict (p\<lparr>sLastToken := s\<rparr>) = verdict p" "verdict (p\<lparr>zTail := i\<rparr>) = verdict p"
  by (simp_all add: verdict_def)

lemma feed_token_simps [simp]:
  "verdict (pParse (feed_token (grammar step) t r)) = step (verdict (pParse r)) (t, sLastToken (pParse r))"
  "sLastToken (pParse (feed_token (grammar step) t r)) = sLastToken (pParse r)"
  "zTail (pParse (feed_token (grammar step) t r)) = (if t = TK ''SEMI'' then pos r else zTail (pParse r))"
  "nErr (feed_token feed t r) = nErr r" "pzErrMsg (feed_token feed t r) = pzErrMsg r"
  "lastTokenParsed (feed_token feed t r) = int t"
  by (simp_all add: feed_token_def Let_def)

lemma rc_code: "rc p = code (verdict p)"
  by (simp add: code_def verdict_def)

lemma upto_semi_Nil [simp]: "upto_semi [] = []"
  by (simp add: upto_semi_def)

lemma upto_semi_Cons:
  "upto_semi (t # ts) = (if upto_semi ts \<noteq> [] then t # upto_semi ts else if fst t = TK ''SEMI'' then [t] else [])"
  by (auto simp: upto_semi_def dropWhile_append dropWhile_eq_Nil_conv)

lemma text_length_simps [simp]: "text_length [] = 0" "text_length (t # ts) = length (snd t) + text_length ts"
  by (simp_all add: text_length_def)

text \<open>The effect of the loop when it has passed over the tokens \<open>ts\<close>.\<close>

definition ran :: "('e verdict \<Rightarrow> nat \<times> byte list \<Rightarrow> 'e verdict) \<Rightarrow> (nat \<times> byte list) list \<Rightarrow> 'e parser_run \<Rightarrow> 'e parser_run \<Rightarrow> bool" where
  "ran step ts r s \<longleftrightarrow>
     nErr s = nErr r \<and> pzErrMsg s = pzErrMsg r \<and> pos s = pos r + text_length ts \<and>
     lastTokenParsed s = (if significant ts = [] then lastTokenParsed r else int (fst (last (significant ts)))) \<and>
     sLastToken (pParse s) = (if ts = [] then sLastToken (pParse r) else snd (last ts)) \<and>
     zTail (pParse s) = (if upto_semi ts = [] then zTail (pParse r) else pos r + text_length (upto_semi ts)) \<and>
     verdict (pParse s) = foldl step (verdict (pParse r)) (significant ts)"

lemma parse_loop_ran:
  assumes "0 \<notin> set zSql" and "length zSql \<le> mx" and "pos r \<le> length zSql"
    and "\<forall>t\<in>set (split_tokens (drop (pos r) zSql)). fst t \<noteq> TK ''ILLEGAL''"
  shows "ran step (passed step (verdict (pParse r)) (split_tokens (drop (pos r) zSql))) r
    (parse_loop (grammar step) (\<lambda>e. False) False mx zSql r)"
  using assms
proof (induction "length zSql - pos r" arbitrary: r rule: less_induct)
  case (less r)
  show ?case
  proof (cases "at zSql (pos r) = 0")
    case True
    then have "pos r = length zSql" using less.prems by (simp add: at_eq_0_iff)
    moreover have "parse_loop (grammar step) (\<lambda>e. False) False mx zSql r = r"
      by (subst parse_loop.simps) (simp add: True)
    ultimately show ?thesis by (simp add: ran_def significant_def)
  next
    case False
    define z where "z = drop (pos r) zSql"
    obtain t n where tn: "sqlite3GetToken z = (t, n)" by fastforce
    define r' where "r' = r\<lparr>pos := pos r + n, pParse := (pParse r)\<lparr>sLastToken := take n z\<rparr>\<rparr>"
    have z: "z \<noteq> []" "0 \<notin> set z" using False less.prems by (auto simp: z_def at_eq_0_iff dest: in_set_dropD)
    have ts: "split_tokens z = (t, take n z) # split_tokens (drop n z)"
      by (subst split_tokens.simps) (simp add: z tn)
    with less.prems have t: "t \<noteq> TK ''ILLEGAL''" by (auto simp: z_def)
    note n = get_token_legal [OF z tn t]
    have pos: "pos r + n \<le> length zSql" using n False at_nonzero [OF False] by (simp add: z_def)
    have next_ts: "split_tokens (drop (pos r + n) zSql) = split_tokens (drop n z)"
      by (simp add: z_def add.commute)
    have all: "\<forall>t\<in>set (split_tokens (drop (pos r + n) zSql)). fst t \<noteq> TK ''ILLEGAL''"
      using less.prems(4) unfolding next_ts z_def [symmetric] ts by simp
    have less: "length zSql - pos r' < length zSql - pos r"
      using n(1) pos by (simp add: r'_def)
    have len: "length (take n z) = n" using n(2) by simp
    let ?loop = "parse_loop (grammar step) (\<lambda>e. False) False mx zSql" and ?r = "feed_token (grammar step) t r'"
    have step: "?loop r = (if t = TK ''SPACE'' then ?loop r' else if rc (pParse ?r) \<noteq> SQLITE_OK then ?r else ?loop ?r)"
      by (subst parse_loop.simps) (use False less.prems pos t in \<open>simp add: z_def [symmetric] tn r'_def [symmetric] Let_def; simp add: r'_def\<close>)
    show ?thesis
    proof (cases "t = TK ''SPACE''")
      case True
      have "ran step (passed step (verdict (pParse r')) (split_tokens (drop n z))) r' (?loop r')"
        using less.hyps [OF less] less.prems pos all by (simp add: r'_def next_ts)
      then show ?thesis
        unfolding step z_def [symmetric] ts using True len
        by (auto simp: ran_def significant_def r'_def upto_semi_Cons TK_eqs)
    next
      case False
      have v: "verdict (pParse ?r) = step (verdict (pParse r)) (t, take n z)"
        by (simp add: r'_def)
      have IH: "ran step (passed step (verdict (pParse ?r)) (split_tokens (drop n z))) ?r (?loop ?r)"
        using less.hyps [of ?r] less less.prems pos all by (simp add: r'_def next_ts)
      show ?thesis
      proof (cases "rc (pParse ?r) = SQLITE_OK")
        case True
        with IH show ?thesis
          unfolding step z_def [symmetric] ts using False len
          by (auto simp: ran_def significant_def rc_code v r'_def upto_semi_Cons)
      next
        case stop: False
        then show ?thesis
          unfolding step z_def [symmetric] ts using False len
          by (auto simp: ran_def significant_def rc_code v r'_def upto_semi_Cons)
      qed
    qed
  qed
qed

lemma passed_all: "code (foldl step x (significant (passed step x ts))) = SQLITE_OK \<Longrightarrow> passed step x ts = ts"
  by (induction step x ts rule: passed.induct) (auto simp: significant_def split: if_splits)

lemma parse_result_reported:
  assumes "nErr r = 0" and "pzErrMsg r = None" and "parse_result (\<lambda>e. False) r = (errs, msg, q')"
  shows "(errs, msg, rc q') = reported (verdict (pParse r)) \<and> engine q' = fst (verdict (pParse r)) \<and> zTail q' = zTail (pParse r)"
proof (cases "zErrMsg (pParse r)")
  case None
  with assms show ?thesis
    by (simp add: parse_result_def reported_def verdict_def Let_def split: if_splits) auto
next
  case (Some m)
  with assms show ?thesis
    by (simp add: parse_result_def reported_def verdict_def Let_def split: if_splits) (auto split: option.split, metis+)
qed



section \<open>Quoting\<close>

text \<open>
  The conversions \<open>%q\<close>, \<open>%Q\<close> and \<open>%w\<close>. The first loop counts the characters consumed and the quotes
  among them, for the size of the buffer; the second one copies. A negative precision is no limit.
\<close>

datatype et_xtype = etSQLESCAPE | etSQLESCAPE2 | etSQLESCAPE3

fun escape_count :: "byte \<Rightarrow> int \<Rightarrow> byte list \<Rightarrow> nat \<times> nat" where
  "escape_count q k [] = (0, 0)"
| "escape_count q k (c # s) =
     (if c = 0 \<or> k = 0 then (0, 0)
      else let (i, n) = escape_count q (k - 1) s in (i + 1, if c = q then n + 1 else n))"

fun escape_copy :: "byte \<Rightarrow> byte list \<Rightarrow> byte list" where
  "escape_copy q [] = []"
| "escape_copy q (c # s) = (if c = q then c # c # escape_copy q s else c # escape_copy q s)"

text \<open>The size of the buffer, and what is written to it; a null pointer is \<open>None\<close>.\<close>

definition sql_escape :: "et_xtype \<Rightarrow> int \<Rightarrow> byte list option \<Rightarrow> nat \<times> byte list" where
  "sql_escape xtype precision arg =
     (let q = (if xtype = etSQLESCAPE3 then ch CHR 0x22 else ch CHR 0x27);
          escarg = (case arg of Some s \<Rightarrow> s
                    | None \<Rightarrow> bytes_of (if xtype = etSQLESCAPE2 then ''NULL'' else ''(NULL)''));
          (i, n) = escape_count q precision escarg;
          needQuote = (arg \<noteq> None \<and> xtype = etSQLESCAPE2);
          quote = (if needQuote then [q] else [])
      in (n + i + 1 + (if needQuote then 2 else 0), quote @ escape_copy q (take i escarg) @ quote @ [0]))"

text \<open>\<open>sqlite3Dequote\<close> writes the string over its own quoted form: the buffer with its terminating NUL.\<close>

function dequote_loop :: "byte list \<Rightarrow> byte \<Rightarrow> nat \<Rightarrow> nat \<Rightarrow> byte list \<times> nat" where
  "dequote_loop z quote i j =
     (if at z i = 0 then (z, j)
      else if at z i = quote then
        if at z (i + 1) = quote then dequote_loop (z[j := quote]) quote (i + 2) (j + 1) else (z, j)
      else dequote_loop (z[j := at z i]) quote (i + 1) (j + 1))"
  by pat_completeness auto
termination by (relation "measure (\<lambda>(z, q, i, j). length z - i)") (auto dest: at_nonzero)

declare dequote_loop.simps [simp del]

definition sqlite3Dequote :: "byte list option \<Rightarrow> int \<times> byte list option" where
  "sqlite3Dequote zp =
     (case zp of None \<Rightarrow> (- 1, None)
      | Some z \<Rightarrow>
          let c = at z 0
          in if c = ch CHR 0x27 \<or> c = ch CHR 0x22 \<or> c = ch CHR 0x60 \<or> c = ch CHR ''['' then
               let (z, j) = dequote_loop z (if c = ch CHR ''['' then ch CHR '']'' else c) 1 0
               in (int j, Some (z[j := 0]))
             else (- 1, zp))"

lemma escape_count_eq:
  "escape_count q k s = (i, n) \<Longrightarrow> i \<le> length s \<and> length (escape_copy q (take i s)) = i + n"
proof (induction q k s arbitrary: i n rule: escape_count.induct)
  case (2 q k c s)
  show ?case
  proof (cases "c = 0 \<or> k = 0")
    case False
    obtain i' n' where "escape_count q (k - 1) s = (i', n')" by fastforce
    then show ?thesis using "2.IH" [OF False] "2.prems" False by (auto split: if_splits)
  qed (use "2.prems" in auto)
qed simp

text \<open>
  The buffer that \<open>sqlite3VXPrintf\<close> provides for \<open>%q\<close>, \<open>%Q\<close> and \<open>%w\<close> is exactly as large as what the copy
  loop writes, the terminating NUL included, for every argument, precision and conversion.
\<close>

theorem sql_escape_fits: "length (snd (sql_escape xtype precision arg)) = fst (sql_escape xtype precision arg)"
proof -
  obtain i n where "escape_count (if xtype = etSQLESCAPE3 then ch CHR 0x22 else ch CHR 0x27) precision
      (case arg of Some s \<Rightarrow> s | None \<Rightarrow> bytes_of (if xtype = etSQLESCAPE2 then ''NULL'' else ''(NULL)'')) = (i, n)"
    by fastforce
  with escape_count_eq [OF this] show ?thesis by (simp add: sql_escape_def Let_def)
qed

lemma escape_count_all: "0 \<notin> set s \<Longrightarrow> k < 0 \<Longrightarrow> fst (escape_count q k s) = length s"
  by (induction q k s rule: escape_count.induct) (auto split: prod.splits)

lemma quoted_loop_escape:
  assumes "0 \<notin> set s" and "q \<noteq> 0" and "rest = [] \<or> hd rest \<noteq> q" and "drop i z = escape_copy q s @ q # rest"
  shows "quoted_loop z q i = (i + length (escape_copy q s), q)"
  using assms
proof (induction s arbitrary: i)
  case Nil
  have "at z i = q" "at z (i + 1) = at rest 0"
    using at_drop [of i z 0] at_drop [of i z 1] Nil.prems(4) by simp_all
  moreover have "at rest 0 \<noteq> q" using Nil.prems by (cases rest) auto
  ultimately show ?case using Nil.prems(2) by (subst quoted_loop.simps) simp
next
  case (Cons c s)
  let ?k = "if c = q then 2 else 1"
  have "drop (?k + i) z = escape_copy q s @ q # rest"
    unfolding drop_drop [symmetric] Cons.prems(4) by (simp add: numeral_2_eq_2)
  then have IH: "quoted_loop z q (i + ?k) = (i + ?k + length (escape_copy q s), q)"
    using Cons by (simp add: add.commute)
  have "at z i = c" "c = q \<Longrightarrow> at z (i + 1) = q"
    using at_drop [of i z 0] at_drop [of i z 1] Cons.prems(4) by (simp_all split: if_splits)
  then show ?case
    using IH Cons.prems(1) by (subst quoted_loop.simps) auto
qed

lemma dequote_loop_escape:
  assumes "0 \<notin> set s" and "q \<noteq> 0" and "rest = [] \<or> hd rest \<noteq> q" and "drop i z = escape_copy q s @ q # rest"
    and "j < i" and "i \<le> length z"
  shows "\<exists>z'. dequote_loop z q i j = (z', j + length s) \<and> length z' = length z \<and> take (j + length s) z' = take j z @ s"
  using assms
proof (induction s arbitrary: i j z)
  case Nil
  have "at z i = q" "at z (i + 1) = at rest 0"
    using at_drop [of i z 0] at_drop [of i z 1] Nil.prems(4) by simp_all
  moreover have "at rest 0 \<noteq> q" using Nil.prems by (cases rest) auto
  ultimately show ?case using Nil.prems(2) by (subst dequote_loop.simps) simp
next
  case (Cons c s)
  let ?k = "if c = q then 2 else 1"
  let ?z = "z[j := c]"
  have at: "at z i = c" "c = q \<Longrightarrow> at z (i + 1) = q"
    using at_drop [of i z 0] at_drop [of i z 1] Cons.prems(4) by (simp_all split: if_splits)
  have drop: "drop (i + ?k) ?z = escape_copy q s @ q # rest"
  proof -
    have "drop (?k + i) z = escape_copy q s @ q # rest"
      unfolding drop_drop [symmetric] Cons.prems(4) by (simp add: numeral_2_eq_2)
    then show ?thesis using Cons.prems(5) by (simp add: add.commute)
  qed
  then have "i + ?k \<le> length ?z"
    by (metis append_is_Nil_conv drop_all linorder_le_cases list.distinct(1))
  moreover have "j + 1 < i + ?k" using Cons.prems(5) by simp
  moreover have "0 \<notin> set s" using Cons.prems(1) by simp
  ultimately obtain z' where z': "dequote_loop ?z q (i + ?k) (j + 1) = (z', j + 1 + length s)" "length z' = length z"
      "take (j + 1 + length s) z' = take (j + 1) ?z @ s"
    using Cons.IH [OF _ Cons.prems(2,3) drop, of "j + 1"] by auto
  moreover have "dequote_loop z q i j = dequote_loop ?z q (i + ?k) (j + 1)"
    using at Cons.prems(1) by (subst dequote_loop.simps) auto
  moreover have "take (j + 1) ?z = take j z @ [c]"
    using Cons.prems(5,6) by (simp add: take_Suc_conv_app_nth)
  ultimately show ?case by (intro exI [of _ z']) simp
qed

text \<open>A string in quotes, with the quotes in it doubled, as token and under \<open>sqlite3Dequote\<close>.\<close>

lemma quoted_text_reads:
  assumes "0 \<notin> set s" and "rest = [] \<or> hd rest \<noteq> ch CHR 0x27"
    and quoted: "quoted = ch CHR 0x27 # escape_copy (ch CHR 0x27) s @ [ch CHR 0x27]"
  shows "sqlite3GetToken (quoted @ rest) = (TK ''STRING'', length quoted) \<and>
    (\<exists>z. sqlite3Dequote (Some (quoted @ [0])) = (int (length s), Some z) \<and> take (length s) z = s \<and> at z (length s) = 0)"
proof -
  let ?q = "ch CHR 0x27"
  have loop: "quoted_loop (quoted @ rest) ?q 1 = (1 + length (escape_copy ?q s), ?q)"
    using assms by (intro quoted_loop_escape) (simp_all add: quoted)
  have token: "sqlite3GetToken (quoted @ rest) = quoted_token (quoted @ rest)"
    by (simp add: sqlite3GetToken_def quoted)
  obtain z where z: "dequote_loop (quoted @ [0]) ?q 1 0 = (z, length s)" "length z = length (quoted @ [0])"
      "take (length s) z = s"
    using dequote_loop_escape [of s ?q "[0]" 1 "quoted @ [0]" 0] assms(1) by (auto simp: quoted)
  have "length s \<le> length (escape_copy ?q s)" by (induction s) auto
  then have "length s < length z" using z(2) by (simp add: quoted)
  with z have "sqlite3Dequote (Some (quoted @ [0])) = (int (length s), Some (z[length s := 0])) \<and>
      take (length s) (z[length s := 0]) = s \<and> at (z[length s := 0]) (length s) = 0"
    by (simp add: sqlite3Dequote_def quoted at_def)
  moreover have "quoted_token (quoted @ rest) = (TK ''STRING'', length quoted)"
    using loop by (simp add: quoted_token_def quoted)
  ultimately show ?thesis
    using token by (intro conjI exI [of _ "z[length s := 0]"]) simp_all
qed

text \<open>
  Quoting round trip. The text that \<open>%Q\<close> prints for a string is read back by the tokenizer as one
  string token, whatever follows it but another quote, and \<open>sqlite3Dequote\<close>, which works in place, turns
  that token into the string.
\<close>

theorem sql_quote_round_trip:
  assumes "0 \<notin> set s" and "rest = [] \<or> hd rest \<noteq> ch CHR 0x27"
    and "snd (sql_escape etSQLESCAPE2 (- 1) (Some s)) = quoted @ [0]"
  shows "sqlite3GetToken (quoted @ rest) = (TK ''STRING'', length quoted) \<and>
    (\<exists>z. sqlite3Dequote (Some (quoted @ [0])) = (int (length s), Some z) \<and> take (length s) z = s \<and> at z (length s) = 0)"
proof -
  have "quoted = ch CHR 0x27 # escape_copy (ch CHR 0x27) s @ [ch CHR 0x27]"
    using assms(3) escape_count_all [OF assms(1), of "- 1" "ch CHR 0x27"]
    by (simp add: sql_escape_def Let_def split: prod.splits)
  then show ?thesis by (rule quoted_text_reads [OF assms(1,2)])
qed

lemma sql_quote_round_trip_witness:
  "0 \<notin> set (bytes_of ''it'') \<and> ([] = ([] :: byte list)) \<and>
   sqlite3GetToken (bytes_of [CHR 0x27, CHR 0x27, CHR 0x27, CHR 0x27]) = (TK ''STRING'', 4) \<and>
   (\<exists>z. sqlite3Dequote (Some (bytes_of [CHR 0x27, CHR 0x27, CHR 0x27, CHR 0x27] @ [0])) = (1, Some z) \<and>
     take 1 z = bytes_of [CHR 0x27])"
proof -
  have e: "snd (sql_escape etSQLESCAPE2 (- 1) (Some (bytes_of [CHR 0x27]))) =
      bytes_of [CHR 0x27, CHR 0x27, CHR 0x27, CHR 0x27] @ [0]"
    by code_simp
  have "0 \<notin> set (bytes_of [CHR 0x27])" "0 \<notin> set (bytes_of ''it'')" by code_simp+
  then show ?thesis using sql_quote_round_trip [OF _ _ e, of "[]"] by auto
qed

end
