(* ===== verification/Sqlite_Complete.thy ===== *)
theory Sqlite_Complete
  imports Sqlite_Tokenize
begin

text \<open>
  \<open>sqlite3_complete\<close> of the SQLite library (\<open>complete.c\<close> in the amalgamation), which decides whether a text ends at
  the end of a statement with a state machine and a scanner of its own. \<open>Sqlite_Agreement\<close> compares it with the
  tokenizer of the parser.
\<close>

section \<open>The code\<close>

definition tkSEMI :: nat where "tkSEMI = 0"
definition tkWS :: nat where "tkWS = 1"
definition tkOTHER :: nat where "tkOTHER = 2"
definition tkEXPLAIN :: nat where "tkEXPLAIN = 3"
definition tkCREATE :: nat where "tkCREATE = 4"
definition tkTEMP :: nat where "tkTEMP = 5"
definition tkTRIGGER :: nat where "tkTRIGGER = 6"
definition tkEND :: nat where "tkEND = 7"

definition trans_table :: "nat list list" where
  "trans_table = [
     [1, 0, 2, 3, 4, 2, 2, 2],
     [1, 1, 2, 3, 4, 2, 2, 2],
     [1, 2, 2, 2, 2, 2, 2, 2],
     [1, 3, 3, 2, 4, 2, 2, 2],
     [1, 4, 2, 2, 2, 4, 5, 2],
     [6, 5, 5, 5, 5, 5, 5, 5],
     [6, 6, 5, 5, 5, 5, 5, 7],
     [1, 7, 5, 5, 5, 5, 5, 5]]"

definition next_state :: "nat \<Rightarrow> nat \<Rightarrow> nat" where
  "next_state state token = trans_table ! state ! token"

text \<open>A word: the switch on its first letter.\<close>

definition is_word :: "byte list \<Rightarrow> nat \<Rightarrow> string \<Rightarrow> bool" where
  "is_word z nId w \<longleftrightarrow> nId = length w \<and> sqlite3_strnicmp z (bytes_of w) (length w) = 0"

definition complete_word :: "byte list \<Rightarrow> nat \<Rightarrow> nat" where
  "complete_word z nId =
     (let c = at z 0
      in if c = ch CHR ''c'' \<or> c = ch CHR ''C'' then
           if is_word z nId ''create'' then tkCREATE else tkOTHER
         else if c = ch CHR ''t'' \<or> c = ch CHR ''T'' then
           if is_word z nId ''trigger'' then tkTRIGGER
           else if is_word z nId ''temp'' then tkTEMP
           else if is_word z nId ''temporary'' then tkTEMP
           else tkOTHER
         else if c = ch CHR ''e'' \<or> c = ch CHR ''E'' then
           if is_word z nId ''end'' then tkEND
           else if is_word z nId ''explain'' then tkEXPLAIN
           else tkOTHER
         else tkOTHER)"

text \<open>\<open>while( zSql[0] && (zSql[0]!='*' || zSql[1]!='/') ){ zSql++; }\<close>\<close>

function star_loop :: "byte list \<Rightarrow> nat \<Rightarrow> nat" where
  "star_loop z i =
     (if at z i \<noteq> 0 \<and> (at z i \<noteq> ch CHR ''*'' \<or> at z (i + 1) \<noteq> ch CHR ''/'') then star_loop z (Suc i) else i)"
  by pat_completeness auto
termination by (relation "measure (\<lambda>(z, i). length z - i)") (auto dest: at_nonzero)

declare star_loop.simps [simp del]

text \<open>
  One turn of the main loop: the token and by how much \<open>zSql\<close> advances, or the result of a \<open>return\<close>.
\<close>

definition complete_scan :: "nat \<Rightarrow> byte list \<Rightarrow> (nat \<times> nat) + bool" where
  "complete_scan state z =
     (let c = at z 0
      in if c = ch CHR '';'' then Inl (tkSEMI, 1)
         else if c = ch CHR '' '' \<or> c = 0x0d \<or> c = 0x09 \<or> c = 0x0a \<or> c = 0x0c then Inl (tkWS, 1)
         else if c = ch CHR ''/'' then
           if at z 1 \<noteq> ch CHR ''*'' then Inl (tkOTHER, 1)
           else let i = star_loop z 2 in if at z i = 0 then Inr False else Inl (tkWS, i + 2)
         else if c = ch CHR ''-'' then
           if at z 1 \<noteq> ch CHR ''-'' then Inl (tkOTHER, 1)
           else let i = scan_while (\<lambda>c. c \<noteq> 0 \<and> c \<noteq> 0x0a) z 0
                in if at z i = 0 then Inr (state = 1) else Inl (tkWS, i + 1)
         else if c = ch CHR ''['' then
           let i = scan_while (\<lambda>c. c \<noteq> 0 \<and> c \<noteq> ch CHR '']'') z 1
           in if at z i = 0 then Inr False else Inl (tkOTHER, i + 1)
         else if c = ch CHR 0x60 \<or> c = ch CHR 0x22 \<or> c = ch CHR 0x27 then
           let i = scan_while (\<lambda>d. d \<noteq> 0 \<and> d \<noteq> c) z 1
           in if at z i = 0 then Inr False else Inl (tkOTHER, i + 1)
         else if IdChar c then
           let nId = scan_while IdChar z 1 in Inl (complete_word z nId, nId)
         else Inl (tkOTHER, 1))"

lemma complete_scan_positive: "complete_scan state z = Inl (t, n) \<Longrightarrow> 0 < n"
  using scan_while_ge [of 1 IdChar z]
  by (auto simp: complete_scan_def Let_def Suc_le_eq split: if_splits)

function complete_loop :: "nat \<Rightarrow> byte list \<Rightarrow> bool" where
  "complete_loop state z =
     (if at z 0 = 0 then state = 1
      else case complete_scan state z of
             Inr b \<Rightarrow> b
           | Inl (token, n) \<Rightarrow> complete_loop (next_state state token) (drop n z))"
  by pat_completeness auto
termination
  apply (relation "measure (\<lambda>(state, z). length z)")
   apply simp
  subgoal for state z p token n
    using at_nonzero [of z 0] complete_scan_positive [of state z token n] by auto
  done

declare complete_loop.simps [simp del]

definition sqlite3_complete :: "byte list \<Rightarrow> bool" where
  "sqlite3_complete zSql = complete_loop 0 zSql"

section \<open>The state machine\<close>

lemma next_state_simps:
  "s < 8 \<Longrightarrow> next_state s tkWS = s"
  "s < 8 \<Longrightarrow> next_state (next_state s tkOTHER) tkOTHER = next_state s tkOTHER"
  "s < 8 \<Longrightarrow> next_state s tkOTHER \<noteq> 1"
proof -
  have "\<forall>s\<in>set [0..<8]. next_state s tkWS = s \<and> next_state (next_state s tkOTHER) tkOTHER = next_state s tkOTHER \<and> next_state s tkOTHER \<noteq> 1"
    by code_simp
  then show "s < 8 \<Longrightarrow> next_state s tkWS = s" "s < 8 \<Longrightarrow> next_state (next_state s tkOTHER) tkOTHER = next_state s tkOTHER"
    "s < 8 \<Longrightarrow> next_state s tkOTHER \<noteq> 1"
    by (simp_all only: set_upt atLeastLessThan_iff ball_simps) auto
qed

lemma next_state_less: "s < 8 \<Longrightarrow> t < 8 \<Longrightarrow> next_state s t < 8"
proof -
  have "\<forall>s\<in>set [0..<8]. \<forall>t\<in>set [0..<8]. next_state s t < 8" by code_simp
  then show "s < 8 \<Longrightarrow> t < 8 \<Longrightarrow> next_state s t < 8" by simp
qed

lemmas tk_defs = tkSEMI_def tkWS_def tkOTHER_def tkEXPLAIN_def tkCREATE_def tkTEMP_def tkTRIGGER_def tkEND_def

section \<open>Words\<close>

definition token_class :: "nat \<Rightarrow> nat" where
  "token_class t =
     (if t = TK ''SEMI'' then tkSEMI else if t = TK ''SPACE'' then tkWS else if t = TK ''EXPLAIN'' then tkEXPLAIN
      else if t = TK ''CREATE'' then tkCREATE else if t = TK ''TEMP'' then tkTEMP
      else if t = TK ''TRIGGER'' then tkTRIGGER else if t = TK ''END'' then tkEND else tkOTHER)"

definition word_class :: "byte list \<Rightarrow> nat" where
  "word_class w =
     (if w = bytes_of ''create'' then tkCREATE else if w = bytes_of ''trigger'' then tkTRIGGER
      else if w = bytes_of ''temp'' then tkTEMP else if w = bytes_of ''temporary'' then tkTEMP
      else if w = bytes_of ''end'' then tkEND else if w = bytes_of ''explain'' then tkEXPLAIN else tkOTHER)"

lemma token_class_less: "token_class t < 8"
  by (simp add: token_class_def tk_defs)

lemma token_code_values: "map snd token_codes = [1..<158]"
  by code_simp

lemma TK_inj:
  assumes "a \<in> fst ` set token_codes" and "b \<in> fst ` set token_codes"
  shows "TK a = TK b \<longleftrightarrow> a = b"
proof
  assume eq: "TK a = TK b"
  have pair: "(x, TK x) \<in> set token_codes" if "x \<in> fst ` set token_codes" for x
  proof -
    from that obtain v where "map_of token_codes x = Some v"
      by (cases "map_of token_codes x") (auto simp: map_of_eq_None_iff)
    then show ?thesis using map_of_SomeD by (fastforce simp: TK_def)
  qed
  have "distinct (map snd token_codes)" by (simp only: token_code_values distinct_upt)
  then show "a = b" using pair [OF assms(1)] pair [OF assms(2)] eq
    unfolding distinct_map by (metis Pair_inject inj_onD snd_conv)
qed simp

text \<open>The class by the name of a token, and the class of a keyword by its name.\<close>

definition class_names :: "(string \<times> nat) list" where
  "class_names = [(''SEMI'', tkSEMI), (''SPACE'', tkWS), (''EXPLAIN'', tkEXPLAIN), (''CREATE'', tkCREATE),
     (''TEMP'', tkTEMP), (''TRIGGER'', tkTRIGGER), (''END'', tkEND)]"

definition class_words :: "(string \<times> nat) list" where
  "class_words = [(''CREATE'', tkCREATE), (''TRIGGER'', tkTRIGGER), (''TEMP'', tkTEMP), (''TEMPORARY'', tkTEMP),
     (''END'', tkEND), (''EXPLAIN'', tkEXPLAIN)]"

definition class_of :: "(string \<times> nat) list \<Rightarrow> string \<Rightarrow> nat" where
  "class_of cs x = (case map_of cs x of Some c \<Rightarrow> c | None \<Rightarrow> tkOTHER)"

text \<open>Where the codes of the keywords are in the list of token codes.\<close>

definition code_positions :: "nat list" where
  "code_positions = [
     63, 26, 137, 40, 80, 42, 100, 51, 33, 109, 44, 45, 48, 1, 47, 139, 39, 23, 115, 15, 94, 135, 10,
     108, 136, 113, 5, 28, 103, 94, 138, 55, 8, 19, 12, 114, 59, 101, 95, 126, 53, 52, 107, 20, 20, 67,
     99, 2, 32, 123, 122, 106, 4, 94, 13, 70, 73, 18, 50, 97, 48, 35, 31, 105, 133, 91, 16, 65, 41, 7,
     119, 104, 49, 3, 30, 54, 27, 127, 62, 124, 134, 125, 64, 29, 56, 68, 96, 102, 14, 71, 36, 37, 9, 38,
     94, 65, 65, 98, 6, 116, 69, 110, 43, 118, 94, 48, 34, 17, 72, 121, 57, 94, 94, 11, 58, 111, 120, 60,
     61, 46, 112]"

lemma code_positions_ok:
  "list_all2 (\<lambda>x i. i < 157 \<and> fst (token_codes ! i) = x) (map snd keyword_list) code_positions"
  by code_simp

lemma known_positions:
  assumes "list_all2 (\<lambda>x i. i < 157 \<and> fst (token_codes ! i) = x) names positions" and "x \<in> set names"
  shows "x \<in> fst ` set token_codes"
proof -
  obtain j where j: "j < length names" "names ! j = x" using assms(2) by (metis in_set_conv_nth)
  then have "positions ! j < 157" "fst (token_codes ! (positions ! j)) = x"
    using list_all2_nthD [OF assms(1) j(1)] by simp_all
  moreover have "length token_codes = 157" by (simp add: token_codes_def)
  ultimately show ?thesis by (metis image_eqI nth_mem)
qed

lemma keyword_codes_known: "(k, x) \<in> set keyword_list \<Longrightarrow> x \<in> fst ` set token_codes"
  using imageI [of "(k, x)" "set keyword_list" snd] by (intro known_positions [OF code_positions_ok]) simp

lemma class_names_known: "list_all (\<lambda>(x, _). x \<in> fst ` set token_codes) class_names"
  by code_simp

lemma token_class_TK: "x \<in> fst ` set token_codes \<Longrightarrow> token_class (TK x) = class_of class_names x"
  using class_names_known by (simp add: token_class_def class_of_def class_names_def TK_inj)

lemma keyword_classes: "list_all (\<lambda>(k, c). class_of class_names c = class_of class_words k) keyword_list"
  by code_simp

lemma class_words_known: "list_all (\<lambda>(k, _). k \<in> fst ` set keyword_list) class_words"
  by code_simp

lemma lower_class_words: "bytes_of ''create'' = lower (bytes_of ''CREATE'')" "bytes_of ''trigger'' = lower (bytes_of ''TRIGGER'')"
    "bytes_of ''temp'' = lower (bytes_of ''TEMP'')" "bytes_of ''temporary'' = lower (bytes_of ''TEMPORARY'')"
    "bytes_of ''end'' = lower (bytes_of ''END'')" "bytes_of ''explain'' = lower (bytes_of ''EXPLAIN'')"
  by code_simp+

lemma class_words_keywords:
  "''CREATE'' \<in> fst ` set keyword_list" "''TRIGGER'' \<in> fst ` set keyword_list" "''TEMP'' \<in> fst ` set keyword_list"
  "''TEMPORARY'' \<in> fst ` set keyword_list" "''END'' \<in> fst ` set keyword_list" "''EXPLAIN'' \<in> fst ` set keyword_list"
proof -
  have "x \<in> fst ` set keyword_list" if "x \<in> fst ` set class_words" for x
    using that class_words_known by (auto simp: list_all_iff)
  then show "''CREATE'' \<in> fst ` set keyword_list" "''TRIGGER'' \<in> fst ` set keyword_list" "''TEMP'' \<in> fst ` set keyword_list"
    "''TEMPORARY'' \<in> fst ` set keyword_list" "''END'' \<in> fst ` set keyword_list" "''EXPLAIN'' \<in> fst ` set keyword_list"
    by (simp_all add: class_words_def)
qed

lemma lower_keyword_word_class:
  assumes "k \<in> fst ` set keyword_list"
  shows "word_class (lower (bytes_of k)) = class_of class_words k"
  unfolding word_class_def lower_class_words class_words_keywords [THEN lower_keywords_inj [OF assms]]
    class_of_def class_words_def
  by (simp only: map_of.simps fun_upd_apply fst_conv snd_conv option.case split: if_split) simp

lemma token_class_ID: "token_class (TK ''ID'') = tkOTHER"
  by code_simp

lemma word_class_lookup:
  "word_class w = token_class (case map_of keyword_table w of Some c \<Rightarrow> c | None \<Rightarrow> TK ''ID'')"
proof (cases "map_of keyword_table w")
  case None
  have "w \<noteq> lower (bytes_of x)" if "x \<in> fst ` set keyword_list" for x
    using that None unfolding map_of_eq_None_iff by (force simp: keyword_table_def)
  note this = class_words_keywords [THEN this]
  then show ?thesis
    unfolding None option.case token_class_ID word_class_def lower_class_words by (simp only: if_False)
next
  case (Some c)
  then obtain k x where kx: "(k, x) \<in> set keyword_list" "w = lower (bytes_of k)" "c = TK x"
    using map_of_SomeD [OF Some] by (auto simp: keyword_table_def)
  then have x: "x \<in> fst ` set token_codes" "class_of class_names x = class_of class_words k"
    using keyword_codes_known keyword_classes by (auto simp: list_all_iff)
  have "k \<in> fst ` set keyword_list" using imageI [OF kx(1), of fst] by simp
  then show ?thesis
    using Some kx x by (simp add: token_class_TK lower_keyword_word_class)
qed

lemma is_word_eq:
  assumes "n \<le> length z" and "0 \<notin> set (take n z)" and "lower (bytes_of w) = bytes_of w"
  shows "is_word z n w \<longleftrightarrow> lower (take n z) = bytes_of w"
proof (cases "n = length w")
  case True
  then show ?thesis
    using strnicmp_prefix [of n z "bytes_of w"] assms by (simp add: is_word_def lower_def)
next
  case False
  then have "length (lower (take n z)) \<noteq> length (bytes_of w)" using assms(1) by (simp add: lower_def)
  then show ?thesis using False by (auto simp: is_word_def)
qed

lemma upper_to_lower_letter:
  "upper_to_lower c = 99 \<longleftrightarrow> c = 99 \<or> c = 67" "upper_to_lower c = 116 \<longleftrightarrow> c = 116 \<or> c = 84"
  "upper_to_lower c = 101 \<longleftrightarrow> c = 101 \<or> c = 69"
  unfolding upper_to_lower_def
    apply (rule table_256 [OF length_char_tables(1), where P = "\<lambda>c v. v = 99 \<longleftrightarrow> c = 99 \<or> c = 67"], code_simp)
   apply (rule table_256 [OF length_char_tables(1), where P = "\<lambda>c v. v = 116 \<longleftrightarrow> c = 116 \<or> c = 84"], code_simp)
  apply (rule table_256 [OF length_char_tables(1), where P = "\<lambda>c v. v = 101 \<longleftrightarrow> c = 101 \<or> c = 69"], code_simp)
  done

lemma word_switch:
  "(c \<Longrightarrow> C) \<Longrightarrow> (tr \<Longrightarrow> T) \<Longrightarrow> (te \<Longrightarrow> T) \<Longrightarrow> (tm \<Longrightarrow> T) \<Longrightarrow> (en \<Longrightarrow> E) \<Longrightarrow> (ex \<Longrightarrow> E) \<Longrightarrow>
   \<not> (C \<and> T) \<Longrightarrow> \<not> (C \<and> E) \<Longrightarrow> \<not> (T \<and> E) \<Longrightarrow>
   (if C then if c then v1 else d else if T then if tr then v2 else if te then v3 else if tm then v3 else d
    else if E then if en then v4 else if ex then v5 else d else d) =
   (if c then v1 else if tr then v2 else if te then v3 else if tm then v3 else if en then v4 else if ex then v5 else d)"
  by (cases C; cases T; cases E) auto

lemma complete_word_eq:
  assumes "n \<le> length z" and "0 \<notin> set (take n z)"
  shows "complete_word z n = word_class (lower (take n z))"
proof -
  let ?w = "lower (take n z)"
  have low: "list_all (\<lambda>w. lower (bytes_of w) = bytes_of w) [''create'', ''trigger'', ''temp'', ''temporary'', ''end'', ''explain'']"
    by code_simp
  have w: "is_word z n w \<longleftrightarrow> ?w = bytes_of w"
    if "w \<in> set [''create'', ''trigger'', ''temp'', ''temporary'', ''end'', ''explain'']" for w
    using is_word_eq [OF assms] low that unfolding list_all_iff by blast
  have hd: "upper_to_lower (at z 0) = ch (hd w)" if "?w = bytes_of w" "w \<noteq> []" for w
    using that by (cases w; cases z; cases n) (auto simp: lower_def bytes_of_def)
  define C T E where "C \<longleftrightarrow> at z 0 = ch CHR ''c'' \<or> at z 0 = ch CHR ''C''"
    and "T \<longleftrightarrow> at z 0 = ch CHR ''t'' \<or> at z 0 = ch CHR ''T''" and "E \<longleftrightarrow> at z 0 = ch CHR ''e'' \<or> at z 0 = ch CHR ''E''"
  have excl: "\<not> (C \<and> T)" "\<not> (C \<and> E)" "\<not> (T \<and> E)" by (auto simp: C_def T_def E_def)
  have letter: "upper_to_lower (at z 0) = ch CHR ''c'' \<longleftrightarrow> C" "upper_to_lower (at z 0) = ch CHR ''t'' \<longleftrightarrow> T"
      "upper_to_lower (at z 0) = ch CHR ''e'' \<longleftrightarrow> E"
    by (simp_all add: C_def T_def E_def upper_to_lower_letter)
  have hds: "?w = bytes_of ''create'' \<Longrightarrow> C" "?w = bytes_of ''trigger'' \<Longrightarrow> T" "?w = bytes_of ''temp'' \<Longrightarrow> T"
      "?w = bytes_of ''temporary'' \<Longrightarrow> T" "?w = bytes_of ''end'' \<Longrightarrow> E" "?w = bytes_of ''explain'' \<Longrightarrow> E"
    unfolding letter [symmetric] using hd [of "''create''"] hd [of "''trigger''"] hd [of "''temp''"]
      hd [of "''temporary''"] hd [of "''end''"] hd [of "''explain''"] by simp_all
  have words: "is_word z n ''create'' \<longleftrightarrow> ?w = bytes_of ''create''" "is_word z n ''trigger'' \<longleftrightarrow> ?w = bytes_of ''trigger''"
      "is_word z n ''temp'' \<longleftrightarrow> ?w = bytes_of ''temp''" "is_word z n ''temporary'' \<longleftrightarrow> ?w = bytes_of ''temporary''"
      "is_word z n ''end'' \<longleftrightarrow> ?w = bytes_of ''end''" "is_word z n ''explain'' \<longleftrightarrow> ?w = bytes_of ''explain''"
    by (rule w, simp)+
  show ?thesis
    unfolding complete_word_def word_class_def Let_def words C_def [symmetric] T_def [symmetric] E_def [symmetric]
    by (rule word_switch [OF hds excl])
qed

lemma complete_word_keyword:
  assumes "n \<le> length z" and "0 \<notin> set (take n z)"
  shows "complete_word z n = token_class (keywordCode z n)"
  unfolding complete_word_eq [OF assms] keywordCode_eq [OF assms] by (rule word_class_lookup)

section \<open>Steps of the scanner\<close>

lemma complete_loop_end: "at z 0 = 0 \<Longrightarrow> complete_loop s z \<longleftrightarrow> s = 1"
  by (subst complete_loop.simps) simp

lemma complete_loop_step:
  "at z 0 \<noteq> 0 \<Longrightarrow> complete_scan s z = Inl (t, n) \<Longrightarrow> complete_loop s z = complete_loop (next_state s t) (drop n z)"
  by (subst complete_loop.simps) simp

lemma complete_loop_stop: "at z 0 \<noteq> 0 \<Longrightarrow> complete_scan s z = Inr b \<Longrightarrow> complete_loop s z = b"
  by (subst complete_loop.simps) simp

text \<open>The scanner passes over \<open>n\<close> characters as over tokens of class \<open>tkOTHER\<close>, one or several.\<close>

definition skips :: "byte list \<Rightarrow> nat \<Rightarrow> bool" where
  "skips z n \<longleftrightarrow> (\<forall>s<8. complete_loop s z = complete_loop (next_state s tkOTHER) (drop n z))"

lemma skips_add: "skips z m \<Longrightarrow> skips (drop m z) n \<Longrightarrow> skips z (m + n)"
  unfolding skips_def
proof (intro allI impI)
  fix s :: nat
  assume z: "\<forall>s<8. complete_loop s z = complete_loop (next_state s tkOTHER) (drop m z)"
    "\<forall>s<8. complete_loop s (drop m z) = complete_loop (next_state s tkOTHER) (drop n (drop m z))" and s: "s < 8"
  have "next_state s tkOTHER < 8" using s by (rule next_state_less) (simp add: tkOTHER_def)
  with z s show "complete_loop s z = complete_loop (next_state s tkOTHER) (drop (m + n) z)"
    by (simp add: next_state_simps add.commute)
qed

lemma skipsI:
  "at z 0 \<noteq> 0 \<Longrightarrow> (\<And>s. complete_scan s z = Inl (tkOTHER, n)) \<Longrightarrow> skips z n"
  by (simp add: skips_def complete_loop_step)

definition plain :: "byte \<Rightarrow> bool" where
  "plain c \<longleftrightarrow> c \<notin> {0, 59, 32, 13, 9, 10, 12, 47, 45, 91, 96, 34, 39} \<and> \<not> IdChar c"

lemma skips_plain: "plain (at z 0) \<Longrightarrow> skips z 1"
  by (rule skipsI) (auto simp: plain_def complete_scan_def Let_def)

lemma skips_plain2: "plain (at z 0) \<Longrightarrow> plain (at z 1) \<Longrightarrow> skips z 2"
  using skips_add [of z 1 1] skips_plain [of z] skips_plain [of "drop 1 z"] by (simp add: numeral_2_eq_2)

lemma skips_slash: "at z 0 = ch CHR ''/'' \<Longrightarrow> at z 1 \<noteq> ch CHR ''*'' \<Longrightarrow> skips z 1"
  by (rule skipsI) (simp_all add: complete_scan_def)

lemma skips_minus: "at z 0 = ch CHR ''-'' \<Longrightarrow> at z 1 \<noteq> ch CHR ''-'' \<Longrightarrow> skips z 1"
  by (rule skipsI) (simp_all add: complete_scan_def)

text \<open>Words.\<close>

lemma IdChar_special:
  "IdChar c \<Longrightarrow> c \<notin> {0, 59, 32, 13, 9, 10, 12, 47, 45, 91, 96, 34, 39}"
  by (auto simp: IdChar_eq)

lemma complete_scan_word:
  "IdChar (at z 0) \<Longrightarrow>
     complete_scan s z = Inl (complete_word z (scan_while IdChar z 1), scan_while IdChar z 1)"
  using IdChar_special [of "at z 0"] by (simp add: complete_scan_def Let_def)

lemma word_chars:
  assumes "IdChar (at z 0)" and "n = scan_while IdChar z 1"
  shows "n \<le> length z" "0 \<notin> set (take n z)" "0 < n"
proof -
  have z: "0 < length z" using assms(1) at_nonzero [of z 0] by fastforce
  then show n: "n \<le> length z" "0 < n"
    using assms(2) scan_while_token [of 1 z IdChar] by (simp_all add: Suc_le_eq)
  obtain c y where zc: "z = c # y" using z by (cases z) auto
  have "n = Suc (length (takeWhile IdChar y))" by (simp add: assms(2) scan_while_eq zc)
  then have "take n z = c # takeWhile IdChar y" by (simp add: zc takeWhile_eq_take [symmetric])
  moreover have "0 \<notin> set (takeWhile IdChar y)"
    using set_takeWhileD [of 0 IdChar y] IdChar_special by blast
  moreover have "c \<noteq> 0" using IdChar_special [OF assms(1)] zc by simp
  ultimately show "0 \<notin> set (take n z)" by simp
qed

lemma complete_loop_word:
  assumes "IdChar (at z 0)" and "n = scan_while IdChar z 1"
  shows "complete_loop s z = complete_loop (next_state s (token_class (keywordCode z n))) (drop n z)"
  using assms complete_word_keyword [OF word_chars(1,2) [OF assms]] complete_scan_word [OF assms(1)]
    IdChar_special [OF assms(1)] complete_loop_step [of z s]
  by auto

lemma skips_word:
  assumes "IdChar (at z 0)" and "complete_word z (scan_while IdChar z 1) = tkOTHER"
  shows "skips z (scan_while IdChar z 1)"
  using assms IdChar_special [OF assms(1)] by (intro skipsI) (auto simp: complete_scan_word)

text \<open>A word that begins with none of the letters that matter.\<close>

lemma skips_word_letter:
  "IdChar (at z 0) \<Longrightarrow> at z 0 \<notin> {99, 67, 116, 84, 101, 69} \<Longrightarrow> skips z (scan_while IdChar z 1)"
  by (rule skips_word) (auto simp: complete_word_def Let_def)

end
