(* ===== verification/Sqlite_Agreement.thy ===== *)
theory Sqlite_Agreement
  imports Sqlite_Complete
begin

text \<open>
  Agreement of \<open>sqlite3_complete\<close> with the tokenizer: both scan the same text with different code. For each kind of
  token, the scanner of \<open>complete.c\<close> passes over the characters of the token and changes its state as
  the state machine does on the class of the token (\<open>agrees\<close>); a string, a number or an operator of two
  characters takes the scanner several steps, all of class \<open>tkOTHER\<close> (\<open>skips\<close>).
\<close>

section \<open>Scan loops\<close>

lemma scan_while_eqI:
  assumes "i \<le> k" and "\<And>m. i \<le> m \<Longrightarrow> m < k \<Longrightarrow> at z m \<noteq> 0 \<and> P (at z m)" and "\<not> P (at z k)"
  shows "scan_while P z i = k"
  using assms
proof (induction "k - i" arbitrary: i)
  case 0
  then show ?case by (subst scan_while.simps) (auto simp: at_def)
next
  case (Suc d)
  then have "at z i \<noteq> 0 \<and> P (at z i)" by simp
  moreover from this have "i < length z" using at_nonzero by blast
  ultimately have "scan_while P z i = scan_while P z (Suc i)"
    by (subst scan_while.simps) (simp add: at_def)
  then show ?case using Suc by simp
qed

lemma scan_while_unfold: "\<not> P 0 \<Longrightarrow> scan_while P z i = (if P (at z i) then scan_while P z (Suc i) else i)"
  by (subst scan_while.simps) (auto simp: at_def)

lemma scan_while_all: "i \<le> m \<Longrightarrow> m < scan_while P z i \<Longrightarrow> m < length z \<and> P (at z m)"
proof -
  assume m: "i \<le> m" "m < scan_while P z i"
  then have l: "m - i < length (takeWhile P (drop i z))" by (simp add: scan_while_eq)
  then have "P (takeWhile P (drop i z) ! (m - i))" by (meson nth_mem set_takeWhileD)
  moreover have "m - i < length (drop i z)" using l length_takeWhile_le [of P "drop i z"] by linarith
  ultimately show ?thesis using m l by (simp add: takeWhile_nth at_def)
qed

lemma scan_while_shift: "scan_while P (drop p z) i = scan_while P z (p + i) - p"
  by (simp add: scan_while_eq add.commute)

lemma digit_IdChar: "sqlite3Isdigit c \<Longrightarrow> IdChar c"
  by (simp add: sqlite3Isdigit_eq IdChar_eq)

section \<open>Tokens and scanner\<close>

definition parameter_or_illegal :: "nat \<Rightarrow> bool" where
  "parameter_or_illegal t \<longleftrightarrow> t = TK ''ILLEGAL'' \<or> t = TK ''VARIABLE'' \<or> t = TK ''REGISTER''"

text \<open>A block comment that ends with the text and not with its closing characters.\<close>

definition unclosed :: "nat \<times> byte list \<Rightarrow> bool" where
  "unclosed = (\<lambda>(t, s). t = TK ''SPACE'' \<and> take 2 s = bytes_of ''/*'' \<and>
     \<not> (4 \<le> length s \<and> drop (length s - 2) s = bytes_of ''*/''))"

definition stuck :: "byte list \<Rightarrow> nat \<times> nat \<Rightarrow> bool" where
  "stuck z p \<longleftrightarrow> (\<forall>s. \<not> complete_loop s z) \<and>
     (z = bytes_of ''/*'' \<or> snd p = length z \<and> unclosed (fst p, z))"

definition agrees :: "byte list \<Rightarrow> nat \<times> nat \<Rightarrow> bool" where
  "agrees z p \<longleftrightarrow> parameter_or_illegal (fst p) \<or> stuck z p \<or>
     \<not> unclosed (fst p, take (snd p) z) \<and>
     (\<forall>s<8. complete_loop s z = complete_loop (next_state s (token_class (fst p))) (drop (snd p) z))"

text \<open>The tokens other than words.\<close>

definition operator_names :: "string list" where
  "operator_names = [
     ''LP'', ''RP'', ''COMMA'', ''ID'', ''NE'', ''EQ'', ''GT'', ''LE'', ''LT'', ''GE'', ''BITAND'',
     ''BITOR'', ''LSHIFT'', ''RSHIFT'', ''PLUS'', ''MINUS'', ''STAR'', ''SLASH'', ''REM'', ''CONCAT'',
     ''BITNOT'', ''STRING'', ''DOT'', ''INTEGER'', ''FLOAT'', ''BLOB'']"

lemma operator_positions:
  "list_all2 (\<lambda>x i. i < 157 \<and> fst (token_codes ! i) = x) operator_names
    [21, 22, 24, 25, 74, 75, 76, 77, 78, 79, 81, 82, 83, 84, 85, 86, 87, 88, 89, 90, 92, 93, 117, 128, 129, 130]"
  by code_simp

lemma operator_classes: "list_all (\<lambda>x. class_of class_names x = tkOTHER) operator_names"
  by code_simp

lemma token_class_operator: "x \<in> set operator_names \<Longrightarrow> token_class (TK x) = tkOTHER"
proof -
  assume x: "x \<in> set operator_names"
  then have "x \<in> fst ` set token_codes" by (rule known_positions [OF operator_positions])
  then show ?thesis using x operator_classes by (simp add: token_class_TK list_all_iff)
qed

lemma agrees_if: "(P \<Longrightarrow> agrees z p) \<Longrightarrow> (\<not> P \<Longrightarrow> agrees z q) \<Longrightarrow> agrees z (if P then p else q)"
  by simp

lemma agrees_bad: "parameter_or_illegal t \<Longrightarrow> agrees z (t, n)"
  by (simp add: agrees_def)

lemma token_class_SPACE: "token_class (TK ''SPACE'') = tkWS" "token_class (TK ''SEMI'') = tkSEMI"
  by (simp_all add: token_class_def TK_eqs)

lemma agrees_skips:
  assumes "skips z n" and "token_class t = tkOTHER"
  shows "agrees z (t, n)"
proof -
  have "t \<noteq> TK ''SPACE''" using assms(2) token_class_SPACE by (auto simp: tk_defs)
  then show ?thesis using assms by (simp add: agrees_def skips_def unclosed_def)
qed

lemma not_comment: "at z 0 \<noteq> ch CHR ''/'' \<Longrightarrow> \<not> unclosed (t, take n z)"
  by (cases z; cases n) (auto simp: unclosed_def bytes_of_def)

lemma agrees_space:
  "\<not> unclosed (TK ''SPACE'', take n z) \<Longrightarrow> (\<And>s. s < 8 \<Longrightarrow> complete_loop s z = complete_loop s (drop n z)) \<Longrightarrow>
     agrees z (TK ''SPACE'', n)"
  by (simp add: agrees_def token_class_SPACE next_state_simps)

lemma agrees_operator: "skips z n \<Longrightarrow> x \<in> set operator_names \<Longrightarrow> agrees z (TK x, n)"
  by (rule agrees_skips [OF _ token_class_operator])

lemma agrees_illegal: "agrees z (TK ''ILLEGAL'', n)"
  by (simp add: agrees_def parameter_or_illegal_def)

lemma agrees_plain: "plain (at z 0) \<Longrightarrow> token_class t = tkOTHER \<Longrightarrow> agrees z (t, 1)"
  by (rule agrees_skips [OF skips_plain])

lemma agrees_plain2: "plain (at z 0) \<Longrightarrow> plain (at z 1) \<Longrightarrow> token_class t = tkOTHER \<Longrightarrow> agrees z (t, 2)"
  by (rule agrees_skips [OF skips_plain2])

lemma agrees_semi: "at z 0 = ch CHR '';'' \<Longrightarrow> agrees z (TK ''SEMI'', 1)"
  using complete_loop_step [of z _ tkSEMI 1] not_comment [of z "TK ''SEMI''" 1]
  by (simp add: agrees_def complete_scan_def token_class_SPACE)

subsection \<open>White space and comments\<close>

definition white :: "byte \<Rightarrow> bool" where
  "white c \<longleftrightarrow> c = 32 \<or> c = 9 \<or> c = 10 \<or> c = 12 \<or> c = 13"

lemma sqlite3Isspace_white: "sqlite3Isspace c \<longleftrightarrow> white c \<or> c = 11"
  unfolding sqlite3Isspace_def white_def by (rule ctype_table) code_simp

lemma complete_white: "white c \<Longrightarrow> s < 8 \<Longrightarrow> complete_loop s (c # y) = complete_loop s y"
  using complete_loop_step [of "c # y" s tkWS 1]
  by (auto simp: white_def complete_scan_def next_state_simps)

lemma complete_whites: "\<forall>c\<in>set x. white c \<Longrightarrow> s < 8 \<Longrightarrow> complete_loop s (x @ y) = complete_loop s y"
  by (induction x) (auto simp: complete_white)

lemma agrees_white:
  assumes "11 \<notin> set z" and "white (at z 0)"
  shows "agrees z (TK ''SPACE'', scan_while sqlite3Isspace z 1)"
proof -
  obtain c y where z: "z = c # y" using assms(2) by (cases z) (auto simp: white_def)
  let ?x = "takeWhile sqlite3Isspace y"
  have n: "scan_while sqlite3Isspace z 1 = length (c # ?x)" by (simp add: scan_while_eq z)
  have "\<forall>d\<in>set ?x. white d"
    using set_takeWhileD [of _ sqlite3Isspace y] assms(1) by (auto simp: z sqlite3Isspace_white)
  then have "\<forall>d\<in>set (c # ?x). white d" using assms(2) z by simp
  moreover have "z = (c # ?x) @ drop (length (c # ?x)) z" by (simp add: z dropWhile_eq_drop [symmetric])
  ultimately have "complete_loop s z = complete_loop s (drop (length (c # ?x)) z)" if "s < 8" for s
    using complete_whites that by metis
  moreover have "\<not> unclosed (TK ''SPACE'', take (length (c # ?x)) z)"
    using assms(2) by (intro not_comment) (auto simp: white_def)
  ultimately show ?thesis unfolding n by (rule agrees_space [rotated])
qed

lemma agrees_line_comment:
  assumes "0 \<notin> set z" and "at z 0 = ch CHR ''-''" and "at z 1 = ch CHR ''-''"
  shows "agrees z (TK ''SPACE'', scan_while (\<lambda>c. c \<noteq> 0 \<and> c \<noteq> 0x0a) z 2)"
proof (rule agrees_space)
  let ?P = "\<lambda>c :: byte. c \<noteq> 0 \<and> c \<noteq> 0x0a"
  define i where "i = scan_while ?P z 2"
  obtain y where z: "z = ch CHR ''-'' # ch CHR ''-'' # y"
    using assms(2,3) by (cases z rule: remdups_adj.cases) auto
  have i: "scan_while ?P z 0 = i" by (simp add: i_def z scan_while_eq)
  have stop: "\<not> ?P (at z i)" unfolding i_def by (rule scan_while_stop) (simp_all add: z)
  fix s :: nat assume s: "s < 8"
  show "complete_loop s z = complete_loop s (drop i z)"
  proof (cases "at z i = 0")
    case True
    then show ?thesis
      using complete_loop_stop [of z s "s = 1"] complete_loop_end [of "drop i z" s] assms(2,3) i
      by (simp add: complete_scan_def Let_def)
  next
    case False
    then have nl: "at z i = 10" "i < length z" using stop at_nonzero by auto
    then have "drop i z = 10 # drop (i + 1) z" using Cons_nth_drop_Suc [OF nl(2)] by (simp add: at_def)
    then have "complete_loop s (drop i z) = complete_loop s (drop (i + 1) z)"
      using s by (simp add: complete_white white_def)
    moreover have "complete_loop s z = complete_loop s (drop (i + 1) z)"
      using complete_loop_step [of z s tkWS "i + 1"] assms(2,3) i False s
      by (simp add: complete_scan_def Let_def next_state_simps)
    ultimately show ?thesis by simp
  qed
qed (use assms(2) in \<open>intro not_comment, simp\<close>)

lemma comment_star_loop:
  "at z i \<noteq> 0 \<Longrightarrow> comment_loop z (Suc i) (at z i) =
     (if at z (star_loop z i) = 0 then (star_loop z i, 0) else (Suc (star_loop z i), ch CHR ''*''))"
proof (induction z i rule: star_loop.induct)
  case (1 z i)
  let ?close = "at z i = ch CHR ''*'' \<and> at z (Suc i) = ch CHR ''/''"
  show ?case
  proof (cases ?close)
    case True
    then have "star_loop z i = i" by (subst star_loop.simps) simp
    moreover have "comment_loop z (Suc i) (at z i) = (Suc i, at z i)" using True by (subst comment_loop.simps) simp
    ultimately show ?thesis using True by simp
  next
    case False
    then have star: "star_loop z i = star_loop z (Suc i)" using "1.prems" by (subst star_loop.simps) auto
    show ?thesis
    proof (cases "at z (Suc i) = 0")
      case True
      then have "star_loop z (Suc i) = Suc i" by (subst star_loop.simps) simp
      moreover have "comment_loop z (Suc i) (at z i) = (Suc i, 0)" using True False by (subst comment_loop.simps) simp
      ultimately show ?thesis using star True by simp
    next
      case next_char: False
      then have "comment_loop z (Suc i) (at z i) = comment_loop z (Suc (Suc i)) (at z (Suc i))"
        using False by (subst comment_loop.simps) auto
      then show ?thesis using "1.IH" "1.prems" False next_char star by simp
    qed
  qed
qed

lemma star_loop_end: "i \<le> k \<Longrightarrow> at z k = ch CHR ''*'' \<Longrightarrow> at z (Suc k) = ch CHR ''/'' \<Longrightarrow> star_loop z i \<le> k"
proof (induction z i rule: star_loop.induct)
  case (1 z i)
  then show ?case by (subst star_loop.simps) (cases "i = k", auto)
qed

lemma star_loop_ge: "i \<le> star_loop z i"
proof (induction z i rule: star_loop.induct)
  case (1 z i)
  then show ?case by (subst star_loop.simps) auto
qed

lemma star_loop_stop: "at z (star_loop z i) \<noteq> 0 \<Longrightarrow> at z (star_loop z i) = ch CHR ''*'' \<and> at z (Suc (star_loop z i)) = ch CHR ''/''"
proof (induction z i rule: star_loop.induct)
  case (1 z i)
  show ?case
  proof (cases "at z i \<noteq> 0 \<and> (at z i \<noteq> ch CHR ''*'' \<or> at z (i + 1) \<noteq> ch CHR ''/'')")
    case True
    then have "star_loop z i = star_loop z (Suc i)" by (subst star_loop.simps) simp
    then show ?thesis using "1.IH" [OF True] "1.prems" by simp
  next
    case False
    then have "star_loop z i = i" by (subst star_loop.simps) (rule if_not_P)
    then show ?thesis using False "1.prems" by simp
  qed
qed

lemma star_loop_le: "i \<le> length z \<Longrightarrow> star_loop z i \<le> length z"
proof (induction z i rule: star_loop.induct)
  case (1 z i)
  then show ?case using at_nonzero [of z i] by (subst star_loop.simps) auto
qed

lemma take_last_two: "i + 1 < length z \<Longrightarrow> drop i (take (i + 2) z) = [at z i, at z (i + 1)]"
  using Cons_nth_drop_Suc [of i z] Cons_nth_drop_Suc [of "Suc i" z] by (simp add: drop_take at_def take_Suc_conv_app_nth)

lemma agrees_comment:
  assumes "0 \<notin> set z" and "at z 0 = ch CHR ''/''"
  shows "agrees z (comment_token z)"
proof (cases "at z 1 = ch CHR ''*''")
  case False
  then show ?thesis
    using assms skips_slash [of z] by (simp add: comment_token_def agrees_skips token_class_operator operator_names_def)
next
  case star: True
  then obtain y where z: "z = ch CHR ''/'' # ch CHR ''*'' # y"
    using assms(2) by (cases z rule: remdups_adj.cases) auto
  define i where "i = star_loop z 2"
  have "2 \<le> i" unfolding i_def by (rule star_loop_ge)
  have scan: "complete_scan s z = (if at z i = 0 then Inr False else Inl (tkWS, i + 2))" for s
    using assms(2) star by (simp add: complete_scan_def Let_def i_def)
  have z0: "at z 0 \<noteq> 0" using assms(2) by simp
  show ?thesis
  proof (cases "at z 2 = 0")
    case True
    then have "i = 2" by (simp add: i_def star_loop.simps)
    then have "\<not> complete_loop s z" for s using complete_loop_stop [OF z0, of s False] scan True by simp
    moreover have "y = []" using True at_eq_0_iff [OF assms(1), of 2] z by simp
    ultimately show ?thesis using z by (simp add: agrees_def stuck_def bytes_of_def)
  next
    case False
    have token: "comment_token z = (TK ''SPACE'', if at z i = 0 then i else i + 2)"
    proof -
      have "comment_loop z 3 (at z 2) = (if at z i = 0 then (i, 0) else (Suc i, ch CHR ''*''))"
        using comment_star_loop [OF False] by (simp add: i_def)
      then show ?thesis using star False by (simp add: comment_token_def)
    qed
    show ?thesis
    proof (cases "at z i = 0")
      case True
      then have "\<not> complete_loop s z" for s using complete_loop_stop [OF z0, of s False] scan by simp
      moreover have i: "i = length z"
        using True assms(1) star_loop_le [of 2 z] z by (auto simp: at_eq_0_iff i_def)
      moreover have "unclosed (TK ''SPACE'', z)"
      proof -
        have "drop (length z - 2) z \<noteq> bytes_of ''*/''" if "4 \<le> length z"
        proof
          assume "drop (length z - 2) z = bytes_of ''*/''"
          then have "at (drop (length z - 2) z) 0 = ch CHR ''*''" "at (drop (length z - 2) z) 1 = ch CHR ''/''"
            by (simp_all add: bytes_of_def)
          then have "star_loop z 2 \<le> length z - 2" using that by (intro star_loop_end) simp_all
          then show False using i i_def that by linarith
        qed
        then show ?thesis by (auto simp: unclosed_def z bytes_of_def)
      qed
      ultimately show ?thesis unfolding token using True by (simp add: agrees_def stuck_def)
    next
      case no: False
      have "at z i = ch CHR ''*''" "at z (Suc i) = ch CHR ''/''"
        using star_loop_stop [of z 2] no by (simp_all add: i_def)
      then have len: "Suc i < length z" using at_nonzero [of z "Suc i"] by simp
      have "\<not> unclosed (TK ''SPACE'', take (i + 2) z)"
      proof -
        have "length (take (i + 2) z) = i + 2" using len by simp
        moreover have "drop i (take (i + 2) z) = bytes_of ''*/''"
          using take_last_two [of i z] len \<open>at z i = _\<close> \<open>at z (Suc i) = _\<close> by (simp add: bytes_of_def)
        ultimately show ?thesis using \<open>2 \<le> i\<close> unfolding unclosed_def prod.case by simp
      qed
      moreover have "complete_loop s z = complete_loop s (drop (i + 2) z)" if "s < 8" for s
        using complete_loop_step [OF z0, of s tkWS "i + 2"] scan no that by (simp add: next_state_simps)
      ultimately show ?thesis unfolding token using no by (simp add: agrees_space)
    qed
  qed
qed

subsection \<open>Quoted strings, names and blobs\<close>

definition quote :: "byte \<Rightarrow> bool" where
  "quote c \<longleftrightarrow> c = ch CHR 0x60 \<or> c = ch CHR 0x27 \<or> c = ch CHR 0x22"

text \<open>From a quote at \<open>p\<close> to the next one at \<open>i\<close>.\<close>

lemma skips_quoted:
  assumes "quote (at z p)" and "p < i" and "\<And>m. p < m \<Longrightarrow> m < i \<Longrightarrow> at z m \<noteq> 0 \<and> at z m \<noteq> at z p" and "at z i = at z p"
  shows "skips (drop p z) (i + 1 - p)"
proof (rule skipsI)
  let ?P = "\<lambda>d. d \<noteq> 0 \<and> d \<noteq> at z p"
  show "at (drop p z) 0 \<noteq> 0" using assms(1) by (auto simp: quote_def)
  have "scan_while ?P z (p + 1) = i" using assms by (intro scan_while_eqI) auto
  then have scan: "scan_while ?P (drop p z) 1 = i - p" by (simp only: scan_while_shift)
  have end_at: "at (drop p z) (i - p) \<noteq> 0" using assms by (auto simp: quote_def)
  fix s
  show "complete_scan s (drop p z) = Inl (tkOTHER, i + 1 - p)"
    using assms(1) scan end_at \<open>p < i\<close> unfolding quote_def
    by (elim disjE) (simp_all add: complete_scan_def Let_def Suc_diff_le)
qed

lemma skips_quoted_loop:
  assumes "quote (at z p)" and "p < i" and "\<And>m. p < m \<Longrightarrow> m < i \<Longrightarrow> at z m \<noteq> 0 \<and> at z m \<noteq> at z p"
    and "quoted_loop z (at z p) i = (j, c)" and "c \<noteq> 0"
  shows "p < j \<and> skips (drop p z) (j + 1 - p)"
  using assms
proof (induction "length z - i" arbitrary: p i rule: less_induct)
  case less
  let ?d = "at z p"
  have nz: "at z i \<noteq> 0" using less.prems(4,5) by (subst (asm) quoted_loop.simps) (auto split: if_splits)
  then have i: "i < length z" by (rule at_nonzero)
  show ?case
  proof (cases "at z i = ?d")
    case True
    have seg: "skips (drop p z) (i + 1 - p)" using less.prems(1-3) True by (intro skips_quoted) auto
    show ?thesis
    proof (cases "at z (i + 1) = ?d")
      case double: True
      have "quoted_loop z (at z (i + 1)) (i + 2) = (j, c)"
        using less.prems(4) nz True double by (subst (asm) quoted_loop.simps) simp
      then have "i + 1 < j \<and> skips (drop (i + 1) z) (j + 1 - (i + 1))"
        using less.hyps [of "i + 2" "i + 1"] less.prems(1,5) i double by (auto simp: less_Suc_eq)
      then show ?thesis
        using skips_add [OF seg, of "j + 1 - (i + 1)"] less.prems(2) by simp
    next
      case False
      then have "j = i" using less.prems(4) nz True by (subst (asm) quoted_loop.simps) simp
      then show ?thesis using seg less.prems(2) by simp
    qed
  next
    case False
    then have "quoted_loop z ?d (i + 1) = (j, c)"
      using less.prems(4) nz by (subst (asm) quoted_loop.simps) simp
    moreover have "at z m \<noteq> 0 \<and> at z m \<noteq> ?d" if "p < m" "m < i + 1" for m
      using that less.prems(3) [of m] nz False by (cases "m = i") auto
    ultimately show ?thesis
      using less.hyps [of "i + 1" p] less.prems(1,2,5) i by simp
  qed
qed

lemma agrees_quoted:
  assumes "quote (at z 0)"
  shows "agrees z (quoted_token z)"
proof -
  obtain j c where jc: "quoted_loop z (at z 0) 1 = (j, c)" by fastforce
  have "skips z (j + 1)" if "c \<noteq> 0"
    using skips_quoted_loop [of z 0 1 j c] assms jc that by simp
  then show ?thesis
    unfolding quoted_token_def jc Let_def prod.case
    by (intro agrees_if agrees_operator agrees_illegal) (auto simp: operator_names_def)
qed

lemma bracket_loop_scan:
  "at z i \<noteq> 0 \<Longrightarrow> bracket_loop z (Suc i) (at z i) =
     (let k = scan_while (\<lambda>c. c \<noteq> 0 \<and> c \<noteq> ch CHR '']'') z i in if at z k = 0 then (k, 0) else (Suc k, ch CHR '']''))"
proof (induction "length z - i" arbitrary: i rule: less_induct)
  case less
  have i: "i < length z" using less.prems by (rule at_nonzero)
  let ?P = "\<lambda>c :: byte. c \<noteq> 0 \<and> c \<noteq> ch CHR '']''"
  show ?case
  proof (cases "at z i = ch CHR '']''")
    case True
    then have "scan_while ?P z i = i" by (intro scan_while_eqI) auto
    then show ?thesis using True by (subst bracket_loop.simps) simp
  next
    case False
    then have scan: "scan_while ?P z i = scan_while ?P z (Suc i)"
      using less.prems i by (subst scan_while.simps) (simp add: at_def)
    show ?thesis
    proof (cases "at z (Suc i) = 0")
      case True
      then have "scan_while ?P z (Suc i) = Suc i" by (intro scan_while_eqI) auto
      then show ?thesis using True False scan by (subst bracket_loop.simps) (simp add: Let_def)
    next
      case no: False
      then show ?thesis
        using False scan less.hyps [of "Suc i"] i by (subst bracket_loop.simps) (simp add: Let_def)
    qed
  qed
qed

lemma agrees_bracket:
  assumes "at z 0 = ch CHR ''[''"
  shows "agrees z (bracket_token z)"
proof -
  let ?P = "\<lambda>c :: byte. c \<noteq> 0 \<and> c \<noteq> ch CHR '']''"
  define k where "k = scan_while ?P z 0"
  obtain y where z: "z = ch CHR ''['' # y" using assms by (cases z) auto
  have k: "scan_while ?P z 1 = k" by (simp add: k_def z scan_while_eq)
  have "skips z (k + 1)" if "at z k \<noteq> 0"
    using that assms k by (intro skipsI) (simp_all add: complete_scan_def Let_def)
  moreover have "bracket_loop z 1 (at z 0) = (if at z k = 0 then (k, 0) else (Suc k, ch CHR '']''))"
    using bracket_loop_scan [of z 0] assms by (simp add: k_def)
  then have "bracket_token z = (if at z k = 0 then (TK ''ILLEGAL'', k) else (TK ''ID'', k + 1))"
    unfolding bracket_token_def by simp
  ultimately show ?thesis
    by (auto intro: agrees_operator agrees_illegal simp: operator_names_def)
qed

lemma blob_loop_scan:
  "\<exists>ok'. blob_loop z i ok = (let k = scan_while (\<lambda>c. c \<noteq> 0 \<and> c \<noteq> ch CHR 0x27) z i in (k, at z k, ok'))"
proof (induction z i ok rule: blob_loop.induct)
  case (1 z i ok)
  let ?P = "\<lambda>c :: byte. c \<noteq> 0 \<and> c \<noteq> ch CHR 0x27"
  show ?case
  proof (cases "at z i = 0 \<or> at z i = ch CHR 0x27")
    case True
    then have "scan_while ?P z i = i" by (subst scan_while_unfold) auto
    then show ?thesis using True by (subst blob_loop.simps) (simp add: Let_def)
  next
    case False
    then have "scan_while ?P z i = scan_while ?P z (Suc i)"
      by (subst scan_while_unfold) auto
    moreover have "blob_loop z i ok = blob_loop z (Suc i) (ok \<and> sqlite3Isxdigit (at z i))"
      using False by (subst blob_loop.simps) (rule if_not_P)
    ultimately show ?thesis using "1.IH" [OF False] by simp
  qed
qed

lemma agrees_blob:
  assumes "at z 0 = ch CHR ''x'' \<or> at z 0 = ch CHR ''X''" and "at z 1 = ch CHR 0x27"
  shows "agrees z (blob_token z)"
proof -
  let ?P = "\<lambda>c :: byte. c \<noteq> 0 \<and> c \<noteq> ch CHR 0x27"
  define k where "k = scan_while ?P z 2"
  obtain ok where loop: "blob_loop z 2 True = (k, at z k, ok)"
    using blob_loop_scan [of z 2 True] by (auto simp: Let_def k_def)
  have "scan_while IdChar z 1 = 1" using assms by (intro scan_while_eqI) (auto simp: IdChar_eq)
  then have first: "skips z 1"
    using skips_word_letter [of z] assms by (auto simp: IdChar_eq)
  have "skips z (k + 1)" if "at z k \<noteq> 0"
  proof -
    have k: "2 \<le> k" unfolding k_def by (rule scan_while_ge)
    have "2 \<le> length z" using at_nonzero [of z 1] assms(2) by simp
    then have "\<not> ?P (at z k)" unfolding k_def by (rule scan_while_stop) simp
    moreover have "at z m \<noteq> 0 \<and> at z m \<noteq> at z 1" if "1 < m" "m < k" for m
      using scan_while_all [of 2 m ?P z] that assms(2) by (simp add: k_def)
    ultimately have "skips (drop 1 z) (k + 1 - 1)"
      using assms(2) that k by (intro skips_quoted) (simp_all add: quote_def)
    then show ?thesis using skips_add [OF first, of k] by simp
  qed
  then show ?thesis
    unfolding blob_token_def loop Let_def prod.case
    by (cases "at z k = 0"; cases "ok \<and> \<not> odd k") (auto intro: agrees_operator agrees_illegal simp: operator_names_def)
qed

subsection \<open>Numbers\<close>

text \<open>A word from \<open>p\<close> to \<open>k\<close>.\<close>

lemma word_end:
  assumes "p < k" and "\<And>m. p \<le> m \<Longrightarrow> m < k \<Longrightarrow> IdChar (at z m)" and "\<not> IdChar (at z k)"
  shows "scan_while IdChar (drop p z) 1 = k - p"
proof -
  have "at z m \<noteq> 0 \<and> IdChar (at z m)" if "p + 1 \<le> m" "m < k" for m
    using assms(2) [of m] that by (cases "at z m = 0") simp_all
  then have "scan_while IdChar z (p + 1) = k" using assms(1,3) by (intro scan_while_eqI) auto
  then show ?thesis by (simp only: scan_while_shift)
qed

lemma skips_number_word:
  assumes "p < k" and "\<And>m. p \<le> m \<Longrightarrow> m < k \<Longrightarrow> IdChar (at z m)" and "\<not> IdChar (at z k)" and "sqlite3Isdigit (at z p)"
  shows "skips (drop p z) (k - p)"
proof -
  have "at z p \<notin> {99, 67, 116, 84, 101, 69}"
    using assms(4) by (auto simp: sqlite3Isdigit_eq)
  then show ?thesis
    using skips_word_letter [of "drop p z"] assms(2) [of p] assms(1) word_end [OF assms(1-3)] by simp
qed

lemma skips_digits:
  assumes "k = scan_while sqlite3Isdigit z p" and "p < k" and "\<not> IdChar (at z k)"
  shows "skips (drop p z) (k - p)"
proof -
  have "sqlite3Isdigit (at z m)" if "p \<le> m" "m < k" for m
    using scan_while_all [of p m sqlite3Isdigit z] that assms(1) by simp
  then show ?thesis
    using assms by (intro skips_number_word) (auto intro: digit_IdChar)
qed

text \<open>A word that is the letter of an exponent, alone or followed by a digit.\<close>

lemma strnicmp_second:
  assumes "sqlite3_strnicmp a b n = 0" and "2 \<le> n" and "at a 0 \<noteq> 0"
  shows "upper_to_lower (at a 1) = upper_to_lower (at b 1)"
proof -
  have tl: "at (tl a) 0 = at a 1" "at (tl b) 0 = at b 1" by (cases a; simp) (cases b; simp)
  have eq: "uint x - uint y = 0 \<longleftrightarrow> x = y" for x y :: byte by (simp add: word_uint_eq_iff)
  obtain m where "n = Suc (Suc m)" using assms(2) by (metis Suc_le_D numeral_2_eq_2 Suc_le_mono)
  then show ?thesis using assms tl eq by (auto split: if_splits)
qed

lemma complete_word_exponent:
  assumes "at z 0 = ch CHR ''e'' \<or> at z 0 = ch CHR ''E''" and "n = 1 \<or> sqlite3Isdigit (at z 1)"
  shows "complete_word z n = tkOTHER"
proof -
  have "\<not> is_word z n ''end''" "\<not> is_word z n ''explain''"
  proof -
    have digit: "upper_to_lower (at z 1) \<noteq> 110" "upper_to_lower (at z 1) \<noteq> 120" if "sqlite3Isdigit (at z 1)"
      using that order.trans [of 65 "at z 1" 57] by (auto simp: upper_to_lower_eq sqlite3Isdigit_eq)
    have z0: "at z 0 \<noteq> 0" using assms(1) by auto
    have second: "upper_to_lower (at (bytes_of ''end'') 1) = 110" "upper_to_lower (at (bytes_of ''explain'') 1) = 120"
      by (simp_all add: bytes_of_def upper_to_lower_eq)
    show "\<not> is_word z n ''end''"
    proof
      assume "is_word z n ''end''"
      then have n: "n = length ''end''" and cmp: "sqlite3_strnicmp z (bytes_of ''end'') (length ''end'') = 0"
        unfolding is_word_def by blast+
      have "upper_to_lower (at z 1) = 110"
        using strnicmp_second [OF cmp _ z0] second by simp
      then show False using assms(2) digit n by simp
    qed
    show "\<not> is_word z n ''explain''"
    proof
      assume "is_word z n ''explain''"
      then have n: "n = length ''explain''" and cmp: "sqlite3_strnicmp z (bytes_of ''explain'') (length ''explain'') = 0"
        unfolding is_word_def by blast+
      have "upper_to_lower (at z 1) = 120"
        using strnicmp_second [OF cmp _ z0] second by simp
      then show False using assms(2) digit n by simp
    qed
  qed
  then show ?thesis using assms(1) by (auto simp: complete_word_def Let_def)
qed

lemma skips_exponent_word:
  assumes "p < k" and "\<And>m. p \<le> m \<Longrightarrow> m < k \<Longrightarrow> IdChar (at z m)" and "\<not> IdChar (at z k)"
    and "at z p = ch CHR ''e'' \<or> at z p = ch CHR ''E''" and "k = p + 1 \<or> sqlite3Isdigit (at z (p + 1))"
  shows "skips (drop p z) (k - p)"
proof -
  have "complete_word (drop p z) (k - p) = tkOTHER"
    using assms(4,5) by (intro complete_word_exponent) auto
  then show ?thesis
    using skips_word [of "drop p z"] assms(2) [of p] assms(1) word_end [OF assms(1-3)] by simp
qed

text \<open>The digits and the exponent after the decimal point, or all of a number without one.\<close>

lemma skips_exponent:
  assumes "i = scan_while sqlite3Isdigit z p" and "p \<le> length z"
    and "k = (if exponent_starts z i then scan_while sqlite3Isdigit z (i + 2) else i)" and "\<not> IdChar (at z k)"
  shows "k = p \<or> p < k \<and> skips (drop p z) (k - p)"
proof (cases "exponent_starts z i")
  case False
  then show ?thesis using assms scan_while_ge [of p sqlite3Isdigit z] skips_digits [of i z p] by auto
next
  case True
  have digits: "sqlite3Isdigit (at z m)" if "p \<le> m" "m < i" for m
    using scan_while_all [of p m sqlite3Isdigit z] that assms(1) by simp
  have p: "p \<le> i" using assms(1) scan_while_ge by simp
  have e: "at z i = ch CHR ''e'' \<or> at z i = ch CHR ''E''" using True by (auto simp: exponent_starts_def)
  then have e_id: "IdChar (at z i)" by (auto simp: IdChar_eq)
  have k: "k = scan_while sqlite3Isdigit z (i + 2)" "i + 2 \<le> k" using True assms(3) scan_while_ge by simp_all
  have more: "sqlite3Isdigit (at z m)" if "i + 2 \<le> m" "m < k" for m
    using scan_while_all [of "i + 2" m sqlite3Isdigit z] that k(1) by simp
  show ?thesis
  proof (cases "sqlite3Isdigit (at z (i + 1))")
    case digit: True
    have id: "IdChar (at z m)" if "p \<le> m" "m < k" for m
    proof -
      consider "m < i" | "m = i" | "m = i + 1" | "i + 2 \<le> m" by linarith
      then show ?thesis using digits more that digit e_id by cases (auto intro: digit_IdChar)
    qed
    show ?thesis
    proof (cases "p = i")
      case True
      then have "skips (drop p z) (k - p)"
        using e digit k(2) by (intro skips_exponent_word id assms(4)) auto
      then show ?thesis using p k(2) by simp
    next
      case False
      then have "skips (drop p z) (k - p)"
        using digits [of p] p k(2) by (intro skips_number_word id assms(4)) auto
      then show ?thesis using p k(2) by simp
    qed
  next
    case False
    then have sign: "at z (i + 1) = ch CHR ''+'' \<or> at z (i + 1) = ch CHR ''-''" "sqlite3Isdigit (at z (i + 2))"
      using True by (auto simp: exponent_starts_def)
    then have not_id: "\<not> IdChar (at z (i + 1))" by (auto simp: IdChar_eq)
    have id: "IdChar (at z m)" if "p \<le> m" "m < i + 1" for m
      using digits [of m] that e_id by (cases "m = i") (auto intro: digit_IdChar)
    have first: "skips (drop p z) (i + 1 - p)"
    proof (cases "p = i")
      case True
      then show ?thesis using e by (intro skips_exponent_word id not_id) auto
    next
      case False
      then show ?thesis using digits [of p] p by (intro skips_number_word id not_id) auto
    qed
    have "i + 2 < k" using k(1) sign(2) exponent_starts_at [OF True] by (simp add: scan_while_loops)
    have "plain (at z (i + 1)) \<or> at z (i + 1) = ch CHR ''-''"
      using sign(1) by (auto simp: plain_def IdChar_eq)
    moreover have "at z (i + 2) \<noteq> ch CHR ''-''" using sign(2) by (auto simp: sqlite3Isdigit_eq)
    ultimately have second: "skips (drop (i + 1) z) 1"
      using skips_plain [of "drop (i + 1) z"] skips_minus [of "drop (i + 1) z"] by auto
    have third: "skips (drop (i + 2) z) (k - (i + 2))"
      using k(1) \<open>i + 2 < k\<close> assms(4) by (rule skips_digits)
    have "skips (drop (i + 1) z) (1 + (k - (i + 2)))"
      using skips_add [OF second] third by simp
    then have "skips (drop p z) (i + 1 - p + (1 + (k - (i + 2))))"
      by (intro skips_add [OF first]) (use p in simp)
    moreover have "i + 1 - p + (1 + (k - (i + 2))) = k - p" using p \<open>i + 2 < k\<close> by arith
    ultimately show ?thesis using p \<open>i + 2 < k\<close> by simp
  qed
qed


lemma agrees_number:
  assumes "\<not> (at z 0 = ch CHR ''.'' \<and> \<not> sqlite3Isdigit (at z 1))" and "at z 0 = ch CHR ''.'' \<or> sqlite3Isdigit (at z 0)"
  shows "agrees z (number_token z)"
proof -
  define i where "i = scan_while sqlite3Isdigit z 0"
  obtain t1 j where j: "fraction_part z i = (t1, j)" by fastforce
  obtain t2 k where k: "exponent_part z (t1, j) = (t2, k)" by fastforce
  have n: "number_token z = (if k < scan_while IdChar z k then (TK ''ILLEGAL'', scan_while IdChar z k) else (t2, scan_while IdChar z k))"
    by (simp add: number_token_def i_def [symmetric] j k number_suffix_def Let_def)
  have t: "t2 = TK ''INTEGER'' \<or> t2 = TK ''FLOAT''"
    using j k by (auto simp: fraction_part_def exponent_part_def split: if_splits)
  show ?thesis
  proof (cases "k < scan_while IdChar z k")
    case True
    then show ?thesis unfolding n by (simp add: agrees_illegal)
  next
    case False
    have i: "i \<le> length z" unfolding i_def by (simp add: scan_while_le)
    have bounds: "i \<le> j" "j \<le> length z" "j \<le> k" "k \<le> length z"
      using fraction_part_bounds [OF i j] exponent_part_bounds [OF _ k] by auto
    have not_id: "\<not> IdChar (at z k)" using False bounds(4) scan_while_loops [of k z IdChar] by auto
    have end_k: "scan_while IdChar z k = k" using False scan_while_ge [of k IdChar z] by simp
    have digits: "sqlite3Isdigit (at z m)" if "m < i" for m
      using scan_while_all [of 0 m sqlite3Isdigit z] that i_def by simp
    have "skips z k"
    proof (cases "at z i = ch CHR ''.''")
      case True
      have jk: "j = scan_while sqlite3Isdigit z (i + 1)"
        "k = (if exponent_starts z j then scan_while sqlite3Isdigit z (j + 2) else j)"
        using j k True by (auto simp: fraction_part_def exponent_part_def split: if_splits)
      have dot: "skips (drop i z) 1" using True by (intro skips_plain) (simp add: plain_def IdChar_eq)
      have "i + 1 \<le> length z" using True at_nonzero [of z i] by simp
      then have tail: "k = i + 1 \<or> i + 1 < k \<and> skips (drop (i + 1) z) (k - (i + 1))"
        using skips_exponent [OF jk(1) _ jk(2) not_id] by simp
      have rest: "skips (drop i z) (k - i)"
        using tail
      proof
        assume "k = i + 1"
        then show ?thesis using dot by simp
      next
        assume "i + 1 < k \<and> skips (drop (i + 1) z) (k - (i + 1))"
        then have "skips (drop i z) (1 + (k - (i + 1)))" using skips_add [OF dot] by simp
        moreover have "1 + (k - (i + 1)) = k - i" using tail by arith
        ultimately show ?thesis by simp
      qed
      show ?thesis
      proof (cases "i = 0")
        case False
        moreover have "\<not> IdChar (at z i)" using True by (simp add: IdChar_eq)
        ultimately have "skips (drop 0 z) (i - 0)"
          using digits by (intro skips_number_word) (auto intro: digit_IdChar)
        then have "skips z (i + (k - i))" using rest skips_add by simp
        then show ?thesis using bounds by simp
      qed (use rest in simp)
    next
      case False
      then have jk: "j = scan_while sqlite3Isdigit z 0"
        "k = (if exponent_starts z j then scan_while sqlite3Isdigit z (j + 2) else j)"
        using j k by (auto simp: fraction_part_def exponent_part_def i_def split: if_splits)
      have "sqlite3Isdigit (at z 0)"
      proof (rule ccontr)
        assume "\<not> sqlite3Isdigit (at z 0)"
        then have "at z 0 = ch CHR ''.''" "i = 0" using assms by (auto simp: i_def scan_while_unfold)
        then show False using False by simp
      qed
      then have "0 < j" using jk(1) by (simp add: scan_while_loops)
      then show ?thesis
        using skips_exponent [OF jk(1) _ jk(2) not_id] bounds by auto
    qed
    then show ?thesis
      unfolding n end_k using t by (auto intro: agrees_operator simp: operator_names_def)
  qed
qed

section \<open>Agreement\<close>

lemma agrees_word:
  assumes "at z 0 \<noteq> ch CHR ''/''"
  shows "agrees z (word_token z)"
proof (cases "IdChar (at z 0)")
  case True
  then show ?thesis
    using complete_loop_word [OF True refl] not_comment [OF assms] by (simp add: word_token_def Let_def agrees_def)
next
  case False
  then show ?thesis by (simp only: word_token_def if_False agrees_illegal)
qed

lemma agrees_parameter: "agrees z (TK ''VARIABLE'', n)" "agrees z (TK ''REGISTER'', n)"
  by (simp_all add: agrees_def parameter_or_illegal_def)

lemma variable_loop_type: "variable_loop z i n = (t, j, m) \<Longrightarrow> t = TK ''VARIABLE'' \<or> t = TK ''ILLEGAL''"
proof (induction z i n rule: variable_loop.induct)
  case (1 z i n)
  then show ?case by (subst (asm) (3) variable_loop.simps) (auto simp: Let_def split: if_splits)
qed

lemma agrees_variable: "agrees z (variable_token z)"
proof -
  obtain t i n where v: "variable_loop z 1 0 = (t, i, n)" by (metis prod_cases3)
  then have "t = TK ''VARIABLE'' \<or> t = TK ''ILLEGAL''" by (rule variable_loop_type)
  then show ?thesis
    unfolding variable_token_def v Let_def prod.case by (auto simp: agrees_illegal agrees_parameter)
qed

lemma agrees_operator_char:
  "plain (at z 0) \<Longrightarrow> x \<in> set operator_names \<Longrightarrow> agrees z (TK x, Suc 0)"
  "plain (at z 0) \<Longrightarrow> plain (at z 1) \<Longrightarrow> x \<in> set operator_names \<Longrightarrow> agrees z (TK x, 2)"
  "at z 0 = ch CHR ''-'' \<Longrightarrow> at z 1 \<noteq> ch CHR ''-'' \<Longrightarrow> agrees z (TK ''MINUS'', Suc 0)"
  using skips_plain [of z] skips_plain2 [of z] skips_minus [of z]
  by (simp_all add: agrees_operator operator_names_def)

lemma agrees_get_token:
  assumes "0 \<notin> set z" and "11 \<notin> set z"
  shows "agrees z (sqlite3GetToken z)"
  unfolding sqlite3GetToken_def Let_def
  by (intro agrees_if agrees_white agrees_line_comment agrees_semi agrees_comment agrees_quoted agrees_number agrees_bracket
      agrees_parameter agrees_variable agrees_blob agrees_word assms)
    (simp_all add: white_def quote_def agrees_illegal agrees_operator_char operator_names_def plain_def IdChar_eq)

text \<open>The state machine on the tokens of the parser.\<close>

definition statement_state :: "nat \<Rightarrow> (nat \<times> byte list) list \<Rightarrow> nat" where
  "statement_state = foldl (\<lambda>s (t, _). next_state s (token_class t))"

text \<open>A text that ends in a block comment without its closing characters.\<close>

definition ends_in_comment :: "(nat \<times> byte list) list \<Rightarrow> bool" where
  "ends_in_comment ts \<longleftrightarrow> ts \<noteq> [] \<and> unclosed (last ts)"

lemma split_slash_star:
  "split_tokens (bytes_of ''/*'') = [(TK ''SLASH'', bytes_of ''/''), (TK ''STAR'', bytes_of ''*'')]"
  by (simp add: split_tokens.simps sqlite3GetToken_def comment_token_def bytes_of_def at_def)

lemma statement_state_slash_star: "s < 8 \<Longrightarrow> statement_state s (split_tokens (bytes_of ''/*'')) \<noteq> 1"
  using token_class_operator [of "''SLASH''"] token_class_operator [of "''STAR''"]
  by (simp add: split_slash_star statement_state_def operator_names_def next_state_simps del: One_nat_def)

lemma complete_loop_tokens:
  assumes "0 \<notin> set z" and "11 \<notin> set z" and "s < 8"
    and "\<And>t x. (t, x) \<in> set (split_tokens z) \<Longrightarrow> \<not> parameter_or_illegal t"
  shows "complete_loop s z \<longleftrightarrow> statement_state s (split_tokens z) = 1 \<and> (z \<noteq> [] \<longrightarrow> \<not> unclosed (last (split_tokens z)))"
  using assms
proof (induction z arbitrary: s rule: split_tokens.induct)
  case (1 z)
  show ?case
  proof (cases "z = []")
    case True
    then show ?thesis by (simp add: complete_loop_end statement_state_def)
  next
    case False
    obtain t n where tn: "sqlite3GetToken z = (t, n)" by fastforce
    have split: "split_tokens z = (t, take n z) # split_tokens (drop n z)"
      by (subst split_tokens.simps) (simp add: False tn)
    have good: "\<not> parameter_or_illegal t" using "1.prems"(4) [of t "take n z"] split by simp
    from agrees_get_token [OF "1.prems"(1,2)] good
    consider "stuck z (t, n)"
      | "\<not> unclosed (t, take n z)" "complete_loop s z = complete_loop (next_state s (token_class t)) (drop n z)"
      using "1.prems"(3) by (auto simp: agrees_def tn)
    then show ?thesis
    proof cases
      case 1
      then consider "z = bytes_of ''/*''" | "n = length z" "unclosed (t, z)" by (auto simp: stuck_def)
      then show ?thesis
      proof cases
        case 1
        then show ?thesis using statement_state_slash_star [OF "1.prems"(3)] \<open>stuck z (t, n)\<close> by (simp add: stuck_def)
      next
        case 2
        then show ?thesis using \<open>stuck z (t, n)\<close> by (simp add: stuck_def split False)
      qed
    next
      case 2
      have "complete_loop (next_state s (token_class t)) (drop n z) \<longleftrightarrow>
          statement_state (next_state s (token_class t)) (split_tokens (drop n z)) = 1 \<and>
          (drop n z \<noteq> [] \<longrightarrow> \<not> unclosed (last (split_tokens (drop n z))))"
      proof (rule "1.IH" [OF False tn [symmetric] refl])
        show "0 \<notin> set (drop n z)" "11 \<notin> set (drop n z)" using "1.prems"(1,2) by (auto dest: in_set_dropD)
        show "next_state s (token_class t) < 8" by (rule next_state_less [OF "1.prems"(3) token_class_less])
        show "\<not> parameter_or_illegal u" if "(u, x) \<in> set (split_tokens (drop n z))" for u x
          using "1.prems"(4) [of u x] that by (simp add: split)
      qed
      moreover have "split_tokens (drop n z) \<noteq> []" if "drop n z \<noteq> []"
        using that by (subst split_tokens.simps) (simp split: prod.split)
      ultimately show ?thesis
        using 2 False by (cases "drop n z = []") (simp_all add: split statement_state_def)
    qed
  qed
qed

text \<open>
  C25: \<open>sqlite3_complete\<close> against the tokenizer of the parser. For a text whose tokens are legal and that has no
  parameters and no vertical tab, its hand-written scanner accepts exactly if the state machine of \<open>complete.c\<close>, run
  on the tokens that \<open>sqlite3GetToken\<close> finds, ends in the accepting state and the text does not end in a block comment
  that is not closed; such a comment is white space for the tokenizer, and makes the text incomplete for the scanner.
\<close>

theorem sqlite3_complete_agrees:
  assumes "0 \<notin> set z" and "0x0b \<notin> set z"
    and "\<forall>t\<in>set (split_tokens z). fst t \<noteq> TK ''ILLEGAL'' \<and> fst t \<noteq> TK ''VARIABLE'' \<and> fst t \<noteq> TK ''REGISTER''"
  shows "sqlite3_complete z \<longleftrightarrow> statement_state 0 (split_tokens z) = 1 \<and> \<not> ends_in_comment (split_tokens z)"
proof -
  have "split_tokens z = [] \<longleftrightarrow> z = []" by (subst split_tokens.simps) (simp split: prod.split)
  then show ?thesis
    using complete_loop_tokens [of z 0] assms
    by (force simp: sqlite3_complete_def ends_in_comment_def parameter_or_illegal_def)
qed

lemma sqlite3_complete_agrees_witness:
  "0 \<notin> set (bytes_of ''a;'') \<and> 0x0b \<notin> set (bytes_of ''a;'') \<and>
   sqlite3_complete (bytes_of ''a;'')"
proof -
  let ?z = "bytes_of ''a;''"
  have split: "split_tokens ?z = [(TK ''ID'', bytes_of ''a''), (TK ''SEMI'', bytes_of '';'')]" by code_simp
  have z: "0 \<notin> set ?z" "0x0b \<notin> set ?z" by code_simp+
  have legal: "\<forall>t\<in>set (split_tokens ?z). fst t \<noteq> TK ''ILLEGAL'' \<and> fst t \<noteq> TK ''VARIABLE'' \<and> fst t \<noteq> TK ''REGISTER''"
    unfolding split by code_simp
  have "statement_state 0 (split_tokens ?z) = 1" "\<not> ends_in_comment (split_tokens ?z)"
    unfolding split by code_simp+
  then show ?thesis using sqlite3_complete_agrees [OF z legal] z by blast
qed

text \<open>The comment at the end makes a difference: the tokens of this text end a statement.\<close>

lemma complete_open_comment:
  "statement_state 0 (split_tokens (bytes_of '';/*x'')) = 1 \<and> \<not> sqlite3_complete (bytes_of '';/*x'')"
  by code_simp

text \<open>
  The vertical tab is white space for the tokenizer, which skips it after a blank, and another token for
  \<open>sqlite3_complete\<close>: it calls a statement that ends with a semicolon, a blank and a vertical tab
  incomplete.
\<close>

lemma complete_vertical_tab:
  "split_tokens [97, 59, 32, 11] = [(TK ''ID'', [97]), (TK ''SEMI'', [59]), (TK ''SPACE'', [32, 11])] \<and>
   \<not> sqlite3_complete [97, 59, 32, 11]"
  by code_simp

end
