(* ===== verification/Sqlite_Varint.thy ===== *)
theory Sqlite_Varint
  imports Prelude
begin

text \<open>
  The variable-length integers of the SQLite file format (\<open>util.c\<close> in the amalgamation
  \<open>cookbook/python2.7/jni/sqlite3/sqlite3.c\<close>): seven bits a byte, most significant first, the highest bit of a
  byte marking that another one follows; a ninth byte holds eight bits. The unrolled reader works on
  pairs of 7-bit groups in 32-bit registers. A buffer is a list of bytes that the caller makes long
  enough. Big-endian integers of four bytes are here too.
\<close>

section \<open>The code\<close>

text \<open>\<open>sqlite3PutVarint\<close>: the loop for nine bytes fills the buffer from \<open>p[i]\<close> down to \<open>p[0]\<close>.\<close>

fun put_nine :: "nat \<Rightarrow> u64 \<Rightarrow> byte list \<Rightarrow> byte list" where
  "put_nine 0 v p = p"
| "put_nine (Suc i) v p = put_nine i (drop_bit 7 v) (ucast ((v AND 0x7f) OR 0x80) # p)"

text \<open>The loop for fewer bytes collects them in \<open>buf\<close>, least significant first.\<close>

function put_loop :: "u64 \<Rightarrow> byte list" where
  "put_loop v =
     ucast ((v AND 0x7f) OR 0x80) # (if drop_bit 7 v \<noteq> 0 then put_loop (drop_bit 7 v) else [])"
  by pat_completeness auto
termination
proof (relation "measure unat")
  fix v :: u64
  assume "drop_bit 7 v \<noteq> 0"
  then have "drop_bit 7 (unat v) \<noteq> 0" by (metis unat_drop_bit_eq unsigned_eq_0_iff)
  then show "(drop_bit 7 v, v) \<in> measure unat" by (simp only: in_measure unat_drop_bit_eq) (simp add: drop_bit_eq_div)
qed simp

declare put_loop.simps [simp del]

definition sqlite3PutVarint :: "u64 \<Rightarrow> byte list" where
  "sqlite3PutVarint v =
     (if v AND push_bit 32 0xff000000 \<noteq> 0 then put_nine 8 (drop_bit 8 v) [ucast v]
      else let buf = put_loop v in rev (buf[0 := hd buf AND 0x7f]))"

text \<open>For 32-bit values; the macro handles a single byte.\<close>

definition sqlite3PutVarint32 :: "u32 \<Rightarrow> byte list" where
  "sqlite3PutVarint32 v =
     (if v AND NOT 0x3fff = 0 then [ucast (drop_bit 7 v OR 0x80), ucast (v AND 0x7f)]
      else sqlite3PutVarint (ucast v))"

definition putVarint32 :: "u32 \<Rightarrow> byte list" where
  "putVarint32 v = (if v < 0x80 then [ucast v] else sqlite3PutVarint32 v)"

text \<open>\<open>(0x7f<<14)|(0x7f)\<close>, \<open>(0x1f<<28)|(0x7f<<14)|(0x7f)\<close>: the constants of the reader.\<close>

definition mask2 :: u32 where "mask2 = push_bit 14 0x7f OR 0x7f"
definition mask3 :: u32 where "mask3 = push_bit 28 0x1f OR push_bit 14 0x7f OR 0x7f"

text \<open>\<open>*v = ((u64)s)<<32 | a\<close>\<close>

definition hi_lo :: "u32 \<Rightarrow> u32 \<Rightarrow> u64" where
  "hi_lo s a = push_bit 32 (ucast s) OR ucast a"

text \<open>\<open>sqlite3GetVarint\<close>, in two parts: up to four bytes, and from the fifth byte on with the registers so far.\<close>

definition get_long :: "byte list \<Rightarrow> u32 \<Rightarrow> u32 \<Rightarrow> nat \<times> u64" where
  "get_long p a b =
     (let s = a; a = push_bit 14 a OR ucast (p ! 4) in
      if a AND 0x80 = 0 then (5, hi_lo (drop_bit 18 s) (a OR push_bit 7 b))
      else
      let s = push_bit 7 s OR b; b = push_bit 14 b OR ucast (p ! 5) in
      if b AND 0x80 = 0 then (6, hi_lo (drop_bit 18 s) (push_bit 7 (a AND mask2) OR b))
      else
      let a = push_bit 14 a OR ucast (p ! 6) in
      if a AND 0x80 = 0 then (7, hi_lo (drop_bit 11 s) ((a AND mask3) OR push_bit 7 (b AND mask2)))
      else
      let a = a AND mask2; b = push_bit 14 b OR ucast (p ! 7) in
      if b AND 0x80 = 0 then (8, hi_lo (drop_bit 4 s) (push_bit 7 a OR (b AND mask3)))
      else
      let a = push_bit 15 a OR ucast (p ! 8);
          a = a OR push_bit 8 (b AND mask2);
          s = push_bit 4 s OR drop_bit 3 (ucast (p ! 4) AND 0x7f)
      in (9, hi_lo s a))"

definition sqlite3GetVarint :: "byte list \<Rightarrow> nat \<times> u64" where
  "sqlite3GetVarint p =
     (let a = ucast (p ! 0) :: u32 in
      if a AND 0x80 = 0 then (1, ucast a)
      else
      let b = ucast (p ! 1) in
      if b AND 0x80 = 0 then (2, ucast (push_bit 7 (a AND 0x7f) OR b))
      else
      let a = push_bit 14 a OR ucast (p ! 2) in
      if a AND 0x80 = 0 then (3, ucast ((a AND mask2) OR push_bit 7 (b AND 0x7f)))
      else
      let a = a AND mask2; b = push_bit 14 b OR ucast (p ! 3) in
      if b AND 0x80 = 0 then (4, ucast (push_bit 7 a OR (b AND mask2)))
      else get_long p a (b AND mask2))"

definition SQLITE_MAX_U32 :: u64 where "SQLITE_MAX_U32 = push_bit 32 1 - 1"

definition sqlite3GetVarint32 :: "byte list \<Rightarrow> nat \<times> u32" where
  "sqlite3GetVarint32 p =
     (let a = ucast (p ! 0) :: u32; b = ucast (p ! 1) in
      if b AND 0x80 = 0 then (2, push_bit 7 (a AND 0x7f) OR b)
      else
      let a = push_bit 14 a OR ucast (p ! 2) in
      if a AND 0x80 = 0 then (3, (a AND mask2) OR push_bit 7 (b AND 0x7f))
      else
      let (n, v64) = sqlite3GetVarint p
      in (n, if v64 AND SQLITE_MAX_U32 \<noteq> v64 then 0xffffffff else ucast v64))"

definition getVarint32 :: "byte list \<Rightarrow> nat \<times> u32" where
  "getVarint32 p = (if p ! 0 < 0x80 then (1, ucast (p ! 0)) else sqlite3GetVarint32 p)"

text \<open>\<open>sqlite3VarintLen\<close>: the loop from \<open>i\<close>.\<close>

function len_loop :: "nat \<Rightarrow> u64 \<Rightarrow> nat" where
  "len_loop i v =
     (let i = i + 1; v = drop_bit 7 v in if v \<noteq> 0 \<and> i < 9 then len_loop i v else i)"
  by pat_completeness auto
termination by (relation "measure (\<lambda>(i, v). 9 - i)") auto

declare len_loop.simps [simp del]

definition sqlite3VarintLen :: "u64 \<Rightarrow> nat" where
  "sqlite3VarintLen v = len_loop 0 v"

text \<open>Big-endian integers.\<close>

definition sqlite3Get4byte :: "byte list \<Rightarrow> u32" where
  "sqlite3Get4byte p =
     push_bit 24 (ucast (p ! 0)) OR push_bit 16 (ucast (p ! 1)) OR push_bit 8 (ucast (p ! 2)) OR ucast (p ! 3)"

definition sqlite3Put4byte :: "u32 \<Rightarrow> byte list" where
  "sqlite3Put4byte v = [ucast (drop_bit 24 v), ucast (drop_bit 16 v), ucast (drop_bit 8 v), ucast v]"

section \<open>Reference reader\<close>

text \<open>One byte after the other; \<open>None\<close> when the buffer ends within the number.\<close>

fun varint_decode :: "nat \<Rightarrow> u64 \<Rightarrow> byte list \<Rightarrow> (nat \<times> u64) option" where
  "varint_decode k v [] = None"
| "varint_decode k v (c # p) =
     (if k = 8 then Some (9, push_bit 8 v OR ucast c)
      else let v = push_bit 7 v OR (ucast c AND 0x7f)
           in if c AND 0x80 = 0 then Some (k + 1, v) else varint_decode (k + 1) v p)"

section \<open>The unrolled reader computes what the reference reads\<close>

lemma and_0x80: "(x :: 'a::len word) AND 0x80 = 0 \<longleftrightarrow> \<not> bit x 7"
  using and_exp_eq_0_iff_not_bit [of x 7] by simp

lemma and_0x7f: "(x :: 'a::len word) AND 0x7f = take_bit 7 x"
  by (simp add: take_bit_eq_mask mask_eq_exp_minus_1)

lemma mask2_eq: "mask2 = 2080895" by (simp add: mask2_def)
lemma mask3_eq: "mask3 = 4028612735" by (simp add: mask3_def)

text \<open>One more group of seven bits.\<close>

definition digit :: "u64 \<Rightarrow> byte \<Rightarrow> u64" where
  "digit v c = push_bit 7 v OR (ucast c AND 0x7f)"

lemmas varint_bits = and_0x7f mask2_eq mask3_eq hi_lo_def digit_def

lemma varint_value_1:
  "\<not> bit c0 7 \<Longrightarrow>
     \<not> bit c0 7 \<Longrightarrow>
     \<not> bit c0 7 \<Longrightarrow>
     \<not> bit c0 7 \<Longrightarrow>
     ucast (ucast c0 :: u32) =
     digit 0 c0"
  for c0 :: byte
  unfolding varint_bits by (rule word_eq_upt) (simp add: upt_64 bit_simps bit_byte)

lemma varint_value_2:
  "\<not> bit c1 7 \<Longrightarrow>
     \<not> bit c1 7 \<Longrightarrow>
     \<not> bit c1 7 \<Longrightarrow>
     \<not> bit c1 7 \<Longrightarrow>
     ucast (push_bit 7 (ucast c0 AND 0x7f) OR ucast c1 :: u32) =
     digit (digit 0 c0) c1"
  for c0 c1 :: byte
  unfolding varint_bits by (rule word_eq_upt) (simp add: upt_64 bit_simps bit_byte)

lemma varint_value_3:
  "\<not> bit c2 7 \<Longrightarrow>
     \<not> bit c2 7 \<Longrightarrow>
     \<not> bit c2 7 \<Longrightarrow>
     \<not> bit c2 7 \<Longrightarrow>
     ucast (((push_bit 14 (ucast c0) OR ucast c2) AND mask2) OR push_bit 7 (ucast c1 AND 0x7f) :: u32) =
     digit (digit (digit 0 c0) c1) c2"
  for c0 c1 c2 :: byte
  unfolding varint_bits by (rule word_eq_upt) (simp add: upt_64 bit_simps bit_byte)

lemma varint_value_4:
  "\<not> bit c3 7 \<Longrightarrow>
     \<not> bit c3 7 \<Longrightarrow>
     \<not> bit c3 7 \<Longrightarrow>
     \<not> bit c3 7 \<Longrightarrow>
     ucast (push_bit 7 ((push_bit 14 (ucast c0) OR ucast c2) AND mask2) OR ((push_bit 14 (ucast c1) OR
      ucast c3) AND mask2) :: u32) =
     digit (digit (digit (digit 0 c0) c1) c2) c3"
  for c0 c1 c2 c3 :: byte
  unfolding varint_bits by (rule word_eq_upt) (simp add: upt_64 bit_simps bit_byte)

lemma varint_value_5:
  "\<not> bit c4 7 \<Longrightarrow>
     \<not> bit c4 7 \<Longrightarrow>
     \<not> bit c4 7 \<Longrightarrow>
     \<not> bit c4 7 \<Longrightarrow>
     hi_lo (drop_bit 18 ((push_bit 14 (ucast c0) OR ucast c2) AND mask2)) ((push_bit 14 ((push_bit 14 (ucast c0) OR
      ucast c2) AND mask2) OR ucast c4) OR push_bit 7 ((push_bit 14 (ucast c1) OR ucast c3) AND mask2)) =
     digit (digit (digit (digit (digit 0 c0) c1) c2) c3) c4"
  for c0 c1 c2 c3 c4 :: byte
  unfolding varint_bits by (rule word_eq_upt) (simp add: upt_64 bit_simps bit_byte)

lemma varint_value_6:
  "\<not> bit c5 7 \<Longrightarrow>
     \<not> bit c5 7 \<Longrightarrow>
     \<not> bit c5 7 \<Longrightarrow>
     \<not> bit c5 7 \<Longrightarrow>
     hi_lo (drop_bit 18 (push_bit 7 ((push_bit 14 (ucast c0) OR ucast c2) AND mask2) OR ((push_bit 14 (ucast c1) OR
      ucast c3) AND mask2))) (push_bit 7 ((push_bit 14 ((push_bit 14 (ucast c0) OR ucast c2) AND mask2) OR
      ucast c4) AND mask2) OR (push_bit 14 ((push_bit 14 (ucast c1) OR ucast c3) AND mask2) OR ucast c5)) =
     digit (digit (digit (digit (digit (digit 0 c0) c1) c2) c3) c4) c5"
  for c0 c1 c2 c3 c4 c5 :: byte
  unfolding varint_bits by (rule word_eq_upt) (simp add: upt_64 bit_simps bit_byte)

lemma varint_value_7:
  "\<not> bit c6 7 \<Longrightarrow>
     \<not> bit c6 7 \<Longrightarrow>
     \<not> bit c6 7 \<Longrightarrow>
     \<not> bit c6 7 \<Longrightarrow>
     hi_lo (drop_bit 11 (push_bit 7 ((push_bit 14 (ucast c0) OR ucast c2) AND mask2) OR ((push_bit 14 (ucast c1) OR
      ucast c3) AND mask2))) (((push_bit 14 (push_bit 14 ((push_bit 14 (ucast c0) OR ucast c2) AND mask2) OR
      ucast c4) OR ucast c6) AND mask3) OR push_bit 7 ((push_bit 14 ((push_bit 14 (ucast c1) OR ucast c3) AND mask2) OR
      ucast c5) AND mask2)) =
     digit (digit (digit (digit (digit (digit (digit 0 c0) c1) c2) c3) c4) c5) c6"
  for c0 c1 c2 c3 c4 c5 c6 :: byte
  unfolding varint_bits by (rule word_eq_upt) (simp add: upt_64 bit_simps bit_byte)

lemma varint_value_8:
  "\<not> bit c7 7 \<Longrightarrow>
     \<not> bit c7 7 \<Longrightarrow>
     \<not> bit c7 7 \<Longrightarrow>
     \<not> bit c7 7 \<Longrightarrow>
     hi_lo (drop_bit 4 (push_bit 7 ((push_bit 14 (ucast c0) OR ucast c2) AND mask2) OR ((push_bit 14 (ucast c1) OR
      ucast c3) AND mask2))) (push_bit 7 ((push_bit 14 (push_bit 14 ((push_bit 14 (ucast c0) OR ucast c2) AND mask2) OR
      ucast c4) OR ucast c6) AND mask2) OR ((push_bit 14 (push_bit 14 ((push_bit 14 (ucast c1) OR
      ucast c3) AND mask2) OR ucast c5) OR ucast c7) AND mask3)) =
     digit (digit (digit (digit (digit (digit (digit (digit 0 c0) c1) c2) c3) c4) c5) c6) c7"
  for c0 c1 c2 c3 c4 c5 c6 c7 :: byte
  unfolding varint_bits by (rule word_eq_upt) (simp add: upt_64 bit_simps bit_byte)

lemma varint_value_9:
  "hi_lo (push_bit 4 (push_bit 7 ((push_bit 14 (ucast c0) OR ucast c2) AND mask2) OR ((push_bit 14 (ucast c1) OR
      ucast c3) AND mask2)) OR
      drop_bit 3 (ucast c4 AND 0x7f)) ((push_bit 15 ((push_bit 14 (push_bit 14 ((push_bit 14 (ucast c0) OR
      ucast c2) AND mask2) OR ucast c4) OR ucast c6) AND mask2) OR ucast c8) OR
      push_bit 8 ((push_bit 14 (push_bit 14 ((push_bit 14 (ucast c1) OR ucast c3) AND mask2) OR ucast c5) OR
      ucast c7) AND mask2)) =
     push_bit 8 (digit (digit (digit (digit (digit (digit (digit (digit 0 c0) c1) c2) c3) c4) c5) c6) c7) OR ucast c8"
  for c0 c1 c2 c3 c4 c5 c6 c7 c8 :: byte
  unfolding varint_bits by (rule word_eq_upt) (simp add: upt_64 bit_simps bit_byte)


lemma flag_byte: "((ucast (c :: byte) :: u32) AND 0x80 = 0) = (\<not> bit c 7)"
  "((c AND 0x80) = 0) = (\<not> bit c 7)"
  "((push_bit 14 x OR (ucast c :: u32)) AND 0x80 = 0) = (\<not> bit c 7)"
  by (simp_all add: and_0x80 bit_simps)

lemma varint_decode_Cons: "varint_decode k v (c # p) =
   (if k = 8 then Some (9, push_bit 8 v OR ucast c)
    else if bit c 7 then varint_decode (k + 1) (digit v c) p
    else Some (k + 1, digit v c))"
  by (simp add: Let_def digit_def flag_byte)

lemma nth_bytes:
  "(c0 # p) ! 0 = c0"
  "(c0 # c1 # p) ! 1 = c1"
  "(c0 # c1 # c2 # p) ! 2 = c2"
  "(c0 # c1 # c2 # c3 # p) ! 3 = c3"
  "(c0 # c1 # c2 # c3 # c4 # p) ! 4 = c4"
  "(c0 # c1 # c2 # c3 # c4 # c5 # p) ! 5 = c5"
  "(c0 # c1 # c2 # c3 # c4 # c5 # c6 # p) ! 6 = c6"
  "(c0 # c1 # c2 # c3 # c4 # c5 # c6 # c7 # p) ! 7 = c7"
  "(c0 # c1 # c2 # c3 # c4 # c5 # c6 # c7 # c8 # p) ! 8 = c8"
  by simp_all

lemmas read_simps = Let_def flag_byte nth_bytes if_True if_False not_True_eq_False not_False_eq_True

lemma get_varint_1: "\<not> bit c0 7 \<Longrightarrow>
    sqlite3GetVarint (c0 # p) = (1, digit 0 c0)"
  by (simp only: sqlite3GetVarint_def read_simps varint_value_1)

lemma get_varint_2: "bit c0 7 \<Longrightarrow>
    \<not> bit c1 7 \<Longrightarrow>
    sqlite3GetVarint (c0 # c1 # p) = (2, digit (digit 0 c0) c1)"
  by (simp only: sqlite3GetVarint_def read_simps varint_value_2)

lemma get_varint_3: "bit c0 7 \<Longrightarrow> bit c1 7 \<Longrightarrow>
    \<not> bit c2 7 \<Longrightarrow>
    sqlite3GetVarint (c0 # c1 # c2 # p) = (3, digit (digit (digit 0 c0) c1) c2)"
  by (simp only: sqlite3GetVarint_def read_simps varint_value_3)

lemma get_varint_4: "bit c0 7 \<Longrightarrow> bit c1 7 \<Longrightarrow> bit c2 7 \<Longrightarrow>
    \<not> bit c3 7 \<Longrightarrow>
    sqlite3GetVarint (c0 # c1 # c2 # c3 # p) = (4, digit (digit (digit (digit 0 c0) c1) c2) c3)"
  by (simp only: sqlite3GetVarint_def read_simps varint_value_4)

lemma get_varint_5: "bit c0 7 \<Longrightarrow> bit c1 7 \<Longrightarrow> bit c2 7 \<Longrightarrow> bit c3 7 \<Longrightarrow>
    \<not> bit c4 7 \<Longrightarrow>
    sqlite3GetVarint (c0 # c1 # c2 # c3 # c4 # p) = (5, digit (digit (digit (digit (digit 0 c0) c1) c2) c3) c4)"
  by (simp only: sqlite3GetVarint_def get_long_def read_simps varint_value_5)

lemma get_varint_6: "bit c0 7 \<Longrightarrow> bit c1 7 \<Longrightarrow> bit c2 7 \<Longrightarrow> bit c3 7 \<Longrightarrow> bit c4 7 \<Longrightarrow>
    \<not> bit c5 7 \<Longrightarrow>
    sqlite3GetVarint (c0 # c1 # c2 # c3 # c4 # c5 # p) = (6, digit (digit (digit (digit (digit (digit 0 c0) c1) c2) c3) c4) c5)"
  by (simp only: sqlite3GetVarint_def get_long_def read_simps varint_value_6)

lemma get_varint_7: "bit c0 7 \<Longrightarrow> bit c1 7 \<Longrightarrow> bit c2 7 \<Longrightarrow> bit c3 7 \<Longrightarrow> bit c4 7 \<Longrightarrow> bit c5 7 \<Longrightarrow>
    \<not> bit c6 7 \<Longrightarrow>
    sqlite3GetVarint (c0 # c1 # c2 # c3 # c4 # c5 # c6 # p) = (7, digit (digit (digit (digit (digit (digit (digit 0 c0) c1) c2) c3) c4) c5) c6)"
  by (simp only: sqlite3GetVarint_def get_long_def read_simps varint_value_7)

lemma get_varint_8: "bit c0 7 \<Longrightarrow> bit c1 7 \<Longrightarrow> bit c2 7 \<Longrightarrow> bit c3 7 \<Longrightarrow> bit c4 7 \<Longrightarrow> bit c5 7 \<Longrightarrow> bit c6 7 \<Longrightarrow>
    \<not> bit c7 7 \<Longrightarrow>
    sqlite3GetVarint (c0 # c1 # c2 # c3 # c4 # c5 # c6 # c7 # p) = (8, digit (digit (digit (digit (digit (digit (digit (digit 0 c0) c1) c2) c3) c4) c5) c6) c7)"
  by (simp only: sqlite3GetVarint_def get_long_def read_simps varint_value_8)

lemma get_varint_9: "bit c0 7 \<Longrightarrow> bit c1 7 \<Longrightarrow> bit c2 7 \<Longrightarrow> bit c3 7 \<Longrightarrow> bit c4 7 \<Longrightarrow> bit c5 7 \<Longrightarrow> bit c6 7 \<Longrightarrow> bit c7 7 \<Longrightarrow>
    sqlite3GetVarint (c0 # c1 # c2 # c3 # c4 # c5 # c6 # c7 # c8 # p) = (9, push_bit 8 (digit (digit (digit (digit (digit (digit (digit (digit 0 c0) c1) c2) c3) c4) c5) c6) c7) OR ucast c8)"
  by (simp only: sqlite3GetVarint_def get_long_def read_simps varint_value_9)

lemmas get_varint = get_varint_1 get_varint_2 get_varint_3 get_varint_4 get_varint_5 get_varint_6 get_varint_7 get_varint_8 get_varint_9

lemma varint_decode_elim:
  assumes "varint_decode k v p = Some r" "k \<noteq> 8"
  obtains c q where "p = c # q" "\<not> bit c 7" "r = (k + 1, digit v c)"
    | c q where "p = c # q" "bit c 7" "varint_decode (k + 1) (digit v c) q = Some r"
  using assms by (cases p) (auto simp: varint_decode_Cons simp del: varint_decode.simps(2) split: if_splits)

lemma GetVarint_decode:
  "varint_decode 0 0 p = Some r \<Longrightarrow> sqlite3GetVarint p = r"
  apply ((erule varint_decode_elim, simp, simp add: get_varint)+)
  apply (auto simp: varint_decode.simps get_varint elim: varint_decode.elims)
  done

section \<open>The writer and the reference reader\<close>

lemma flagged_byte: "bit (ucast (((v :: u64) AND 0x7f) OR 0x80) :: byte) 7"
  by (simp add: bit_simps)

lemma ucast_flag: "ucast ((v :: u64) AND 0x7f OR 0x80) AND 0x7f = (ucast v AND 0x7f :: byte)"
  unfolding and_0x7f by (rule bit_word_eqI) (auto simp: bit_simps bit_0x80)

lemma digit_flagged: "digit acc (ucast (v AND 0x7f OR 0x80)) = push_bit 7 acc OR take_bit 7 v" for v :: u64
  unfolding varint_bits by (rule bit_word_eqI) (auto simp: bit_simps bit_0x80)

lemma decode_put_nine:
  "k + i \<le> 8 \<Longrightarrow> varint_decode k acc (put_nine i v p) =
     varint_decode (k + i) (push_bit (7 * i) acc OR take_bit (7 * i) v) p"
proof (induction i arbitrary: v p)
  case 0
  show ?case by simp
next
  case (Suc i)
  have "digit (push_bit (7 * i) acc OR take_bit (7 * i) (drop_bit 7 v)) (ucast (v AND 0x7f OR 0x80))
      = push_bit (7 * Suc i) acc OR take_bit (7 * Suc i) v"
    unfolding digit_flagged by (rule bit_word_eqI) (auto simp: bit_simps)
  with Suc show ?case by (simp add: varint_decode_Cons flagged_byte del: varint_decode.simps)
qed

lemma length_put_nine [simp]: "length (put_nine i v p) = i + length p"
  by (induction i arbitrary: v p) simp_all

lemma put_loop_neq_Nil [simp]: "put_loop v \<noteq> []"
  by (subst put_loop.simps) simp

lemma length_put_loop_le:
  "1 \<le> n \<Longrightarrow> length (put_loop v) \<le> n \<longleftrightarrow> drop_bit (7 * n) v = 0"
proof (induction v arbitrary: n rule: put_loop.induct)
  case (1 v)
  show ?case
  proof (cases "drop_bit 7 v = 0")
    case True
    then have "drop_bit (7 * n) v = 0"
      using 1(2) by (metis drop_bit_drop_bit drop_bit_of_0 le_add_diff_inverse2 mult.commute mult_le_mono2 nat_mult_1_right)
    with True 1(2) show ?thesis by (subst put_loop.simps) simp
  next
    case False
    then have "n = 1 \<Longrightarrow> ?thesis" by (subst put_loop.simps) (auto simp: Suc_le_eq)
    moreover have ?thesis if "n \<noteq> 1"
    proof -
      have "length (put_loop (drop_bit 7 v)) \<le> n - 1 \<longleftrightarrow> drop_bit (7 * (n - 1)) (drop_bit 7 v) = 0"
        using 1 False that by simp
      moreover have "7 * (n - 1) + 7 = 7 * n" using 1(2) by simp
      ultimately show ?thesis using False 1(2) by (subst put_loop.simps) (auto simp: add.commute)
    qed
    ultimately show ?thesis by blast
  qed
qed

lemma decode_put_loop:
  "k + length (put_loop v) \<le> 8 \<Longrightarrow> varint_decode k acc (rev (put_loop v) @ p) =
     varint_decode (k + length (put_loop v)) (push_bit (7 * length (put_loop v)) acc OR v) p"
proof (induction v arbitrary: p rule: put_loop.induct)
  case (1 v)
  show ?case
  proof (cases "drop_bit 7 v = 0")
    case True
    then have "take_bit 7 v = v" using bits_ident [of 7 v] by simp
    moreover have "k < 8" using True 1(2) by (simp add: put_loop.simps)
    ultimately show ?thesis using True 1(2)
      by (subst (1 2 3) put_loop.simps) (simp add: varint_decode_Cons flagged_byte digit_flagged del: varint_decode.simps)
  next
    case False
    let ?d = "put_loop (drop_bit 7 v)"
    have eq: "put_loop v = ucast (v AND 0x7f OR 0x80) # ?d"
      using False by (subst put_loop.simps) simp
    have "digit (push_bit (7 * length ?d) acc OR drop_bit 7 v) (ucast (v AND 0x7f OR 0x80))
        = push_bit (7 * Suc (length ?d)) acc OR v"
      unfolding digit_flagged by (rule bit_word_eqI) (auto simp: bit_simps)
    with 1 False show ?thesis
      unfolding eq by (simp add: varint_decode_Cons flagged_byte del: varint_decode.simps)
  qed
qed

lemma nine_bytes: "v AND push_bit 32 0xff000000 \<noteq> 0 \<longleftrightarrow> drop_bit 56 v \<noteq> 0" for v :: u64
proof -
  have "v AND push_bit 32 0xff000000 = push_bit 56 (drop_bit 56 v)"
  proof (rule bit_word_eqI)
    fix n assume n: "n < LENGTH(64)"
    have "push_bit 32 0xff000000 = (push_bit 56 (mask 8) :: u64)" by (simp add: mask_eq_exp_minus_1)
    then have "bit (push_bit 32 0xff000000 :: u64) n \<longleftrightarrow> 56 \<le> n"
      using n by (simp only: bit_simps) auto
    then show "bit (v AND push_bit 32 0xff000000) n = bit (push_bit 56 (drop_bit 56 v)) n"
      using n by (auto simp: bit_simps)
  qed
  moreover have "drop_bit 56 (push_bit 56 (drop_bit 56 v)) = drop_bit 56 v"
    by (rule bit_word_eqI) (use bit_imp_le_length in \<open>fastforce simp: bit_simps\<close>)
  ultimately show ?thesis by (metis (no_types) drop_bit_of_0 push_bit_of_0)
qed

lemma PutVarint_nine:
  "drop_bit 56 v \<noteq> 0 \<Longrightarrow> sqlite3PutVarint v = put_nine 8 (drop_bit 8 v) [ucast v]"
  by (simp only: sqlite3PutVarint_def nine_bytes if_True not_False_eq_True)

lemma PutVarint_short:
  "drop_bit 56 v = 0 \<Longrightarrow> sqlite3PutVarint v =
     (if drop_bit 7 v \<noteq> 0 then rev (put_loop (drop_bit 7 v)) else []) @ [ucast v AND 0x7f]"
  by (simp only: sqlite3PutVarint_def nine_bytes Let_def put_loop.simps [of v] if_False not_True_eq_False)
    (simp add: ucast_flag)

lemma put_nine_append: "put_nine i v p @ r = put_nine i v (p @ r)"
  by (induction i arbitrary: v p) simp_all

lemma last_digit: "digit (drop_bit 7 v) (ucast v AND 0x7f) = v"
  unfolding varint_bits by (rule bit_word_eqI) (auto simp: bit_simps dest: bit_shift)

lemma last_byte: "push_bit 8 (take_bit 56 (drop_bit 8 v)) OR ucast (ucast v :: byte) = v" for v :: u64
  by (rule bit_word_eqI) (auto simp: bit_simps)

lemma unflagged: "\<not> bit (c AND 0x7f :: byte) 7"
  by (simp add: bit_simps)

lemma short_loop: "drop_bit 56 v = 0 \<Longrightarrow> length (put_loop (drop_bit 7 v)) \<le> 7"
  using length_put_loop_le [of 7 "drop_bit 7 v"] by simp

lemma decode_PutVarint:
  "varint_decode 0 0 (sqlite3PutVarint v @ rest) = Some (length (sqlite3PutVarint v), v)"
proof (cases "drop_bit 56 v = 0")
  case False
  then show ?thesis
    by (simp add: PutVarint_nine put_nine_append decode_put_nine varint_decode_Cons last_byte del: varint_decode.simps)
next
  case True
  show ?thesis
  proof (cases "drop_bit 7 v = 0")
    case d0: True
    with True last_digit [of v] show ?thesis
      by (simp add: PutVarint_short varint_decode_Cons unflagged del: varint_decode.simps)
  next
    case False
    then show ?thesis using short_loop [OF True] True decode_put_loop [of 0 "drop_bit 7 v" 0]
      by (simp add: PutVarint_short varint_decode_Cons unflagged last_digit del: varint_decode.simps)
  qed
qed

lemma length_PutVarint:
  "length (sqlite3PutVarint v) = (if drop_bit 56 v = 0 then length (put_loop v) else 9)"
  by (auto simp: PutVarint_nine PutVarint_short put_loop.simps [of v])

lemma len_loop_eq: "i < 9 \<Longrightarrow> len_loop i v = min 9 (i + length (put_loop v))"
proof (induction i v rule: len_loop.induct)
  case (1 i v)
  then show ?case
    by (subst len_loop.simps, subst put_loop.simps) (auto simp: Let_def less_Suc_eq)
qed

lemma sqlite3VarintLen_eq: "sqlite3VarintLen v = length (sqlite3PutVarint v)"
  using length_put_loop_le [of 8 v] by (auto simp: sqlite3VarintLen_def len_loop_eq length_PutVarint)

lemma length_PutVarint_bounds: "1 \<le> length (sqlite3PutVarint v)" "length (sqlite3PutVarint v) \<le> 9"
  using length_put_loop_le [of 8 v] by (auto simp: length_PutVarint Suc_le_eq)

section \<open>Self-delimiting encodings\<close>

text \<open>What a reader of a record header relies on: reading takes exactly the bytes that writing put there,
  so a sequence of numbers is read back without separators.\<close>

locale prefix_code =
  fixes put :: "'a \<Rightarrow> byte list" and get :: "byte list \<Rightarrow> nat \<times> 'a"
  assumes get_put: "get (put x @ rest) = (length (put x), x)"
begin

lemma put_prefix_free: "put x @ r = put y @ s \<Longrightarrow> x = y \<and> r = s"
proof -
  assume eq: "put x @ r = put y @ s"
  then have "(length (put x), x) = (length (put y), y)" by (metis get_put)
  with eq show ?thesis by simp
qed

lemma put_inject: "put x = put y \<longleftrightarrow> x = y"
  using put_prefix_free [of x "[]" y "[]"] by auto

lemma concat_put_inject:
  "length xs = length ys \<Longrightarrow> concat (map put xs) @ r = concat (map put ys) @ s \<Longrightarrow> xs = ys \<and> r = s"
proof (induction xs ys rule: list_induct2)
  case (Cons x xs y ys)
  then show ?case using put_prefix_free [of x "concat (map put xs) @ r" y "concat (map put ys) @ s"] by auto
qed simp

end

interpretation varint: prefix_code sqlite3PutVarint sqlite3GetVarint
  by unfold_locales (metis GetVarint_decode decode_PutVarint)

lemma two_bytes: "(v AND NOT 0x3fff = 0) \<longleftrightarrow> drop_bit 14 v = 0" for v :: u32
proof -
  have "v AND NOT 0x3fff = push_bit 14 (drop_bit 14 v)"
  proof (rule bit_word_eqI)
    fix n assume n: "n < LENGTH(32)"
    have "(0x3fff :: u32) = mask 14" by (simp add: mask_eq_exp_minus_1)
    then show "bit (v AND NOT 0x3fff) n = bit (push_bit 14 (drop_bit 14 v)) n"
      using n by (simp only: bit_simps) (auto dest: bit_shift)
  qed
  moreover have "drop_bit 14 (push_bit 14 (drop_bit 14 v)) = drop_bit 14 v"
    by (rule bit_word_eqI) (use bit_imp_le_length in \<open>fastforce simp: bit_simps\<close>)
  ultimately show ?thesis by (metis (no_types) drop_bit_of_0 push_bit_of_0)
qed

lemma putVarint32_eq: "putVarint32 v = sqlite3PutVarint (ucast v)"
proof -
  have short: "drop_bit 56 (ucast v :: u64) = 0"
    by (rule bit_word_eqI) (use bit_imp_le_length [of v] in \<open>fastforce simp: bit_simps\<close>)
  have drop: "drop_bit n (ucast v :: u64) = ucast (drop_bit n v)" for n
    by (rule bit_word_eqI) (use bit_imp_le_length [of v] in \<open>fastforce simp: bit_simps\<close>)
  have u0: "(ucast w :: u64) = 0 \<longleftrightarrow> w = 0" for w :: u32
    using bit_imp_le_length [of w] by (fastforce simp: bit_eq_iff bit_simps)
  have one: "v < 0x80 \<longleftrightarrow> drop_bit 7 v = 0"
  proof -
    have "unat (drop_bit 7 v) = unat v div 128"
      by (simp only: unat_drop_bit_eq) (simp add: drop_bit_eq_div)
    then have "drop_bit 7 v = 0 \<longleftrightarrow> unat v div 128 = 0" by (metis unsigned_eq_0_iff)
    then show ?thesis by (simp add: word_less_nat_alt div_eq_0_iff)
  qed
  have top: "drop_bit k v = 0 \<Longrightarrow> bit v n \<Longrightarrow> n < k" for k n
  proof (rule ccontr)
    assume 0: "drop_bit k v = 0" and n: "bit v n" "\<not> n < k"
    from n have "bit (drop_bit k v) (n - k)" by (simp add: bit_drop_bit_eq)
    with 0 show False by simp
  qed
  consider "drop_bit 7 v = 0" | "drop_bit 7 v \<noteq> 0" "drop_bit 14 v = 0" | "drop_bit 7 v \<noteq> 0" "drop_bit 14 v \<noteq> 0"
    by blast
  then show ?thesis
  proof cases
    case 1
    have "ucast v = (ucast (ucast v :: u64) AND 0x7f :: byte)"
      unfolding and_0x7f by (rule bit_word_eqI) (use top [OF 1] in \<open>auto simp: bit_simps\<close>)
    with 1 show ?thesis by (simp add: putVarint32_def one PutVarint_short [OF short] drop)
  next
    case 2
    have "(ucast (drop_bit 7 v OR 0x80) :: byte) = ucast ((ucast (drop_bit 7 v) :: u64) AND 0x7f OR 0x80)"
      unfolding and_0x7f
      by (rule bit_word_eqI) (use top [OF 2(2)] in \<open>fastforce simp: bit_simps bit_0x80\<close>)
    moreover have "(ucast (v AND 0x7f) :: byte) = ucast (ucast v :: u64) AND 0x7f"
      unfolding and_0x7f by (rule bit_word_eqI) (auto simp: bit_simps)
    moreover have "drop_bit 7 (ucast (drop_bit 7 v) :: u64) = 0"
      using drop [of 14] 2(2) by (simp flip: drop)
    ultimately show ?thesis using 2
      by (simp only: putVarint32_def sqlite3PutVarint32_def one two_bytes if_True if_False PutVarint_short [OF short]
          drop u0 put_loop.simps [of "ucast (drop_bit 7 v)"] not_False_eq_True not_True_eq_False)
        simp
  next
    case 3
    then show ?thesis
      by (simp only: putVarint32_def sqlite3PutVarint32_def one two_bytes if_False)
  qed
qed

lemma getVarint32_eq: "varint_decode 0 0 p = Some (n, v) \<Longrightarrow>
   getVarint32 p = (n, if v < 2 ^ 32 then ucast v else 0xffffffff)"
proof -
  assume d: "varint_decode 0 0 p = Some (n, v)"
  have fits: "w = ucast (x :: u32) \<Longrightarrow> w < 2 ^ 32 \<and> ucast w = x" for w :: u64 and x
    using unat_less [of x] by (simp add: word_less_nat_alt unsigned_ucast_eq take_bit_nat_eq_self take_bit_word_eq_self)
  have big: "v AND SQLITE_MAX_U32 \<noteq> v \<longleftrightarrow> \<not> v < 2 ^ 32"
  proof -
    have "v AND SQLITE_MAX_U32 = take_bit 32 v"
      by (simp add: SQLITE_MAX_U32_def take_bit_eq_mask mask_eq_exp_minus_1)
    moreover have "take_bit 32 v = v \<longleftrightarrow> unat v < 2 ^ 32"
      by (simp only: word_unat_eq_iff unsigned_take_bit_eq take_bit_nat_eq_self_iff)
    ultimately show ?thesis by (simp add: word_less_nat_alt)
  qed
  have low: "c < 0x80 \<longleftrightarrow> \<not> bit c 7" for c :: byte
  proof -
    have "bit c 7 = bit (unat c) 7" by (simp add: bit_unsigned_iff)
    also have "\<dots> = odd (unat c div 128)" by (simp add: bit_iff_odd)
    also have "unat c div 128 = (if unat c < 128 then 0 else 1)"
      using unat_less [of c] by (auto intro: div_nat_eqI)
    finally show ?thesis by (simp add: word_less_nat_alt)
  qed
  have read: "sqlite3GetVarint p = (n, v)" by (rule GetVarint_decode [OF d])
  from d show ?thesis
  proof (rule varint_decode_elim)
    fix c q
    assume "p = c # q" "\<not> bit c 7" "(n, v) = (0 + 1, digit 0 c)"
    then show ?thesis using fits [OF varint_value_1 [symmetric]]
      by (simp add: getVarint32_def low)
  next
    fix c0 q0
    assume 0: "p = c0 # q0" "bit c0 7" and d: "varint_decode (0 + 1) (digit 0 c0) q0 = Some (n, v)"
    from d show ?thesis
    proof (rule varint_decode_elim)
      fix c1 q
      assume 1: "q0 = c1 # q" "\<not> bit c1 7" "(n, v) = (0 + 1 + 1, digit (digit 0 c0) c1)"
      from 1(3) 0 1(1,2) fits [OF varint_value_2 [OF 1(2), symmetric]] show ?thesis
        by (simp only: prod.inject getVarint32_def sqlite3GetVarint32_def low read_simps) simp
    next
      fix c1 q1
      assume 1: "q0 = c1 # q1" "bit c1 7" and d: "varint_decode (0 + 1 + 1) (digit (digit 0 c0) c1) q1 = Some (n, v)"
      from d show ?thesis
      proof (rule varint_decode_elim)
        fix c2 q
        assume 2: "q1 = c2 # q" "\<not> bit c2 7" "(n, v) = (0 + 1 + 1 + 1, digit (digit (digit 0 c0) c1) c2)"
        from 2(3) 0 1 2(1,2) fits [OF varint_value_3 [OF 2(2), symmetric]] show ?thesis
          by (simp only: prod.inject getVarint32_def sqlite3GetVarint32_def low read_simps) simp
      next
        fix c2 q2
        assume 2: "q1 = c2 # q2" "bit c2 7"
        from read 0 1 2 big show ?thesis
          by (simp only: getVarint32_def sqlite3GetVarint32_def low read_simps prod.case) simp
      qed simp
    qed simp
  qed simp
qed

lemma GetVarint32_PutVarint32:
  "getVarint32 (putVarint32 v @ rest) = (length (putVarint32 v), v)"
proof -
  have "(ucast v :: u64) < 2 ^ 32"
    using unat_less [of v] by (simp add: word_less_nat_alt unsigned_ucast_eq take_bit_nat_eq_self)
  moreover have "ucast (ucast v :: u64) = v" by (rule bit_word_eqI) (simp add: bit_simps)
  ultimately show ?thesis
    using getVarint32_eq [OF decode_PutVarint [of "ucast v" rest]] by (simp add: putVarint32_eq)
qed

interpretation varint32: prefix_code putVarint32 getVarint32
  by unfold_locales (rule GetVarint32_PutVarint32)

interpretation word32: prefix_code sqlite3Put4byte "\<lambda>p. (4, sqlite3Get4byte p)"
proof
  fix v rest
  have "sqlite3Get4byte (sqlite3Put4byte v @ rest) = v"
    by (rule bit_word_eqI) (auto simp: sqlite3Get4byte_def sqlite3Put4byte_def bit_simps nth_bytes dest: bit_shift)
  then show "(4, sqlite3Get4byte (sqlite3Put4byte v @ rest)) = (length (sqlite3Put4byte v), v)"
    by (simp add: sqlite3Put4byte_def)
qed

section \<open>Properties\<close>

text \<open>C30: the unrolled reader is the reference reader, which takes one byte after the other: whenever the
  buffer holds a complete number, \<open>sqlite3GetVarint\<close> returns its length and its 64-bit value, and
  \<open>getVarint32\<close> the same length and the value, or \<open>0xffffffff\<close> when it does not fit 32 bits.\<close>

theorem varint_readers_agree:
  "varint_decode 0 0 p = Some (n, v) \<Longrightarrow>
     sqlite3GetVarint p = (n, v) \<and>
     getVarint32 p = (n, if v < 2 ^ 32 then ucast v else 0xffffffff)"
  by (simp add: GetVarint_decode getVarint32_eq)

theorem varint_readers_agree_witness:
  "sqlite3GetVarint [0x90, 0x80, 0x80, 0x80, 0x00, 7] = (5, 2 ^ 32) \<and>
   getVarint32 [0x90, 0x80, 0x80, 0x80, 0x00, 7] = (5, 0xffffffff)"
  using varint_readers_agree [of "[0x90, 0x80, 0x80, 0x80, 0x00, 7]" 5 "2 ^ 32"] by simp

text \<open>C31: what \<open>sqlite3PutVarint\<close> writes is read back, whatever follows it in the buffer: it takes one to
  nine bytes, as many as \<open>sqlite3VarintLen\<close> says, and \<open>sqlite3GetVarint\<close> returns that count and the value;
  the 32-bit macros write the same bytes and read them back.\<close>

theorem varint_round_trip:
  "sqlite3GetVarint (sqlite3PutVarint v @ rest) = (sqlite3VarintLen v, v) \<and>
   length (sqlite3PutVarint v) = sqlite3VarintLen v \<and> sqlite3VarintLen v \<in> {1..9} \<and>
   putVarint32 w = sqlite3PutVarint (ucast w) \<and>
   getVarint32 (putVarint32 w @ rest) = (length (putVarint32 w), w)"
  using length_PutVarint_bounds [of v]
  by (simp add: varint.get_put sqlite3VarintLen_eq putVarint32_eq GetVarint32_PutVarint32 [unfolded putVarint32_eq])

end
