(* ===== verification/Sqlite_Numbers.thy ===== *)
theory Sqlite_Numbers
  imports Sqlite_Chars
begin

text \<open>
  Numbers in texts, as \<open>util.c\<close> of the SQLite amalgamation reads them: \<open>sqlite3IsNumber\<close>, \<open>sqlite3Atoi64\<close>,
  \<open>sqlite3FitsIn64Bits\<close> and \<open>sqlite3GetInt32\<close>. A \<open>char *\<close> that the code advances is the suffix it points at.
  The signed 64-bit accumulator of \<open>sqlite3Atoi64\<close> is a word that wraps around, which is what the machine does;
  in C its overflow is undefined.
\<close>

section \<open>The code\<close>

text \<open>\<open>memcmp\<close> gives the difference of the first bytes that differ; the code uses its sign only.\<close>

fun memcmp :: "byte list \<Rightarrow> byte list \<Rightarrow> nat \<Rightarrow> int" where
  "memcmp a b 0 = 0"
| "memcmp a b (Suc n) = (if at a 0 \<noteq> at b 0 then uint (at a 0) - uint (at b 0) else memcmp (tl a) (tl b) n)"

definition compare2pow63 :: "byte list \<Rightarrow> int" where
  "compare2pow63 zNum =
     (let c = memcmp zNum (bytes_of ''922337203685477580'') 18 * 10
      in if c = 0 then uint (at zNum 18) - 56 else c)"

text \<open>The loop over the digits: the final \<open>i\<close>, \<open>c\<close> and \<open>v\<close>, a 64-bit register that wraps around.\<close>

fun atoi_loop :: "byte list \<Rightarrow> nat \<Rightarrow> u64 \<Rightarrow> nat \<times> byte \<times> u64" where
  "atoi_loop [] i v = (i, 0, v)"
| "atoi_loop (c # z) i v =
     (if 48 \<le> c \<and> c \<le> 57 then atoi_loop z (i + 1) (v * 10 + ucast c - 48) else (i, c, v))"

definition skip_sign :: "byte list \<Rightarrow> bool \<times> byte list" where
  "skip_sign z =
     (if at z 0 = ch CHR ''-'' then (True, tl z) else if at z 0 = ch CHR ''+'' then (False, tl z) else (False, z))"

definition sqlite3Atoi64 :: "byte list \<Rightarrow> bool \<times> u64" where
  "sqlite3Atoi64 zNum =
     (let zNum = dropWhile sqlite3Isspace zNum;
          (neg, zStart) = skip_sign zNum;
          zNum = dropWhile (\<lambda>c. c = 48) zStart;
          (i, c, v) = atoi_loop zNum 0 0;
          ok = (if c \<noteq> 0 \<or> (i = 0 \<and> zStart = zNum) \<or> 19 < i then False
                else if i < 19 then True
                else compare2pow63 zNum < of_bool neg)
      in (ok, if neg then - v else v))"

definition sqlite3FitsIn64Bits :: "byte list \<Rightarrow> bool \<Rightarrow> bool" where
  "sqlite3FitsIn64Bits zNum neg =
     (let zNum = dropWhile (\<lambda>c. c = 48) zNum;
          i = length (takeWhile (\<lambda>c. c \<noteq> 0) zNum)
      in if i < 19 then True else if 19 < i then False else compare2pow63 zNum < of_bool neg)"

text \<open>\<open>sqlite3GetInt32\<close> stops after eleven digits; \<open>None\<close> is the result 0.\<close>

fun int32_loop :: "byte list \<Rightarrow> nat \<Rightarrow> int \<Rightarrow> nat \<times> int" where
  "int32_loop [] i v = (i, v)"
| "int32_loop (c # z) i v =
     (if i < 11 \<and> 0 \<le> uint c - 48 \<and> uint c - 48 \<le> 9 then int32_loop z (i + 1) (v * 10 + (uint c - 48)) else (i, v))"

definition sqlite3GetInt32 :: "byte list \<Rightarrow> int option" where
  "sqlite3GetInt32 zNum =
     (let (neg, zNum) = skip_sign zNum;
          (i, v) = int32_loop (dropWhile (\<lambda>c. c = 48) zNum) 0 0
      in if 10 < i then None
         else if 2147483647 < v - of_bool neg then None
         else Some (if neg then - v else v))"

datatype encoding = SQLITE_UTF8 | SQLITE_UTF16LE | SQLITE_UTF16BE

function skip_digits :: "nat \<Rightarrow> byte list \<Rightarrow> byte list" where
  "skip_digits incr z = (if 0 < incr \<and> sqlite3Isdigit (at z 0) then skip_digits incr (drop incr z) else z)"
  by pat_completeness auto
termination
  by (relation "measure (\<lambda>(incr, z). length z)") (auto dest: at_nonzero simp: at_def split: if_splits)

declare skip_digits.simps [simp del]

text \<open>The second argument and result is \<open>*realnum\<close>.\<close>

definition number_exponent :: "nat \<Rightarrow> byte list \<Rightarrow> bool \<Rightarrow> bool \<times> bool" where
  "number_exponent incr z realnum =
     (if at z 0 = ch CHR ''e'' \<or> at z 0 = ch CHR ''E'' then
        let z = drop incr z;
            z = (if at z 0 = ch CHR ''+'' \<or> at z 0 = ch CHR ''-'' then drop incr z else z)
        in if \<not> sqlite3Isdigit (at z 0) then (False, realnum)
           else (at (skip_digits incr z) 0 = 0, True)
      else (at z 0 = 0, realnum))"

definition number_mantissa :: "nat \<Rightarrow> byte list \<Rightarrow> bool \<Rightarrow> bool \<times> bool" where
  "number_mantissa incr z realnum =
     (if \<not> sqlite3Isdigit (at z 0) then (False, realnum)
      else let z = skip_digits incr (drop incr z)
           in if at z 0 = ch CHR ''.'' then
                let z = drop incr z
                in if \<not> sqlite3Isdigit (at z 0) then (False, False)
                   else number_exponent incr (skip_digits incr z) True
              else number_exponent incr z False)"

definition sqlite3IsNumber :: "byte list \<Rightarrow> bool \<Rightarrow> encoding \<Rightarrow> bool \<times> bool" where
  "sqlite3IsNumber z realnum enc =
     (let incr = (if enc = SQLITE_UTF8 then 1 else 2);
          z = (if enc = SQLITE_UTF16BE then drop 1 z else z);
          z = (if at z 0 = ch CHR ''-'' \<or> at z 0 = ch CHR ''+'' then drop incr z else z)
      in number_mantissa incr z realnum)"

section \<open>The number of a text\<close>

fun decimal_from :: "int \<Rightarrow> byte list \<Rightarrow> int" where
  "decimal_from v [] = v"
| "decimal_from v (c # d) = decimal_from (v * 10 + (uint c - 48)) d"

lemma digit_uint: "sqlite3Isdigit c \<longleftrightarrow> 48 \<le> uint c \<and> uint c \<le> 57"
  by (simp add: sqlite3Isdigit_eq word_le_def)

lemma decimal_from_append: "decimal_from v (a @ b) = decimal_from (decimal_from v a) b"
  by (induction a arbitrary: v) simp_all

lemma decimal_from_eq: "decimal_from v d = v * 10 ^ length d + decimal_from 0 d"
proof (induction d arbitrary: v)
  case (Cons c d)
  show ?case using Cons [of "v * 10 + (uint c - 48)"] Cons [of "uint c - 48"] by (simp add: algebra_simps)
qed simp

lemma decimal_Cons: "decimal_from 0 (c # d) = (uint c - 48) * 10 ^ length d + decimal_from 0 d"
  using decimal_from_eq [of "uint c - 48" d] by simp

lemma decimal_bounds:
  "list_all sqlite3Isdigit d \<Longrightarrow> 0 \<le> decimal_from 0 d \<and> decimal_from 0 d < 10 ^ length d"
proof (induction d)
  case (Cons c d)
  then have c: "48 \<le> uint c" "uint c \<le> 57" and IH: "0 \<le> decimal_from 0 d" "decimal_from 0 d < 10 ^ length d"
    by (simp_all add: digit_uint)
  have "(uint c - 48) * 10 ^ length d \<le> 9 * 10 ^ length d" using c by (intro mult_right_mono) simp_all
  moreover have "0 \<le> (uint c - 48) * 10 ^ length d" using c by simp
  moreover have "(10 :: int) ^ length (c # d) = 10 * 10 ^ length d" by simp
  ultimately show ?case using IH decimal_Cons [of c d] by linarith
qed simp

lemma decimal_zeros: "decimal_from 0 (dropWhile (\<lambda>c. c = 48) d) = decimal_from 0 d"
  by (induction d) simp_all

lemma decimal_large:
  assumes "list_all sqlite3Isdigit d" and "d \<noteq> []" and "hd d \<noteq> 48"
  shows "10 ^ (length d - 1) \<le> decimal_from 0 d"
proof -
  obtain c e where d: "d = c # e" using assms(2) by (cases d) auto
  have "uint c \<noteq> 48" using assms(3) d by (metis list.sel(1) word_of_int_uint word_of_int_numeral)
  then have "1 \<le> uint c - 48" using assms(1) d by (simp add: digit_uint)
  then have "1 * 10 ^ length e \<le> (uint c - 48) * 10 ^ length e" by (intro mult_right_mono) simp_all
  moreover have "0 \<le> decimal_from 0 e" using decimal_bounds [of e] assms(1) d by simp
  moreover have "length d - 1 = length e" using d by simp
  moreover have "decimal_from 0 d = (uint c - 48) * 10 ^ length e + decimal_from 0 e" unfolding d by (rule decimal_Cons)
  ultimately show ?thesis by (simp only:)
qed

lemma memcmp_digits:
  "length a = length b \<Longrightarrow> list_all sqlite3Isdigit a \<Longrightarrow> list_all sqlite3Isdigit b \<Longrightarrow>
     sgn (memcmp (a @ x) (b @ y) (length a)) = sgn (decimal_from 0 a - decimal_from 0 b)"
proof (induction a b rule: list_induct2)
  case (Cons c a d b)
  show ?case
  proof (cases "c = d")
    case True
    with Cons show ?thesis using decimal_from_eq [of "uint d - 48" a] decimal_from_eq [of "uint d - 48" b] by simp
  next
    case False
    let ?n = "10 ^ length a :: int"
    have bounds: "0 \<le> decimal_from 0 a" "decimal_from 0 a < ?n" "0 \<le> decimal_from 0 b" "decimal_from 0 b < ?n"
      using Cons decimal_bounds [of a] decimal_bounds [of b] by simp_all
    have ne: "uint c \<noteq> uint d" using False by (metis word_of_int_uint)
    have eq: "decimal_from 0 (c # a) - decimal_from 0 (d # b) = (uint c - uint d) * ?n + (decimal_from 0 a - decimal_from 0 b)"
      using Cons.hyps by (simp only: decimal_Cons) (simp add: algebra_simps)
    have "sgn ((uint c - uint d) * ?n + (decimal_from 0 a - decimal_from 0 b)) = sgn (uint c - uint d)"
    proof (cases "uint c < uint d")
      case True
      then have "(uint c - uint d) * ?n \<le> (- 1) * ?n" by (intro mult_right_mono) simp_all
      then show ?thesis using True bounds by (simp add: sgn_if)
    next
      case False
      then have "1 * ?n \<le> (uint c - uint d) * ?n" using ne by (intro mult_right_mono) simp_all
      then have "0 < (uint c - uint d) * ?n + (decimal_from 0 a - decimal_from 0 b)" using bounds by linarith
      then show ?thesis using False ne by (simp only: sgn_pos)
    qed
    then show ?thesis using False eq by simp
  qed
qed simp

lemma compare2pow63_eq:
  assumes "list_all sqlite3Isdigit z" and "length z = 19"
  shows "compare2pow63 z < of_bool neg \<longleftrightarrow> decimal_from 0 z < 2 ^ 63 + of_bool neg"
proof -
  define a c where "a = take 18 z" and "c = z ! 18"
  let ?b = "bytes_of ''922337203685477580''"
  have "take (Suc 18) z = a @ [c]"
    unfolding a_def c_def by (rule take_Suc_conv_app_nth) (simp add: assms)
  then have z: "z = a @ [c]" using assms(2) by simp
  then have a: "list_all sqlite3Isdigit a" "length a = 18" and c: "48 \<le> uint c" "uint c \<le> 57"
    using assms by (simp_all add: digit_uint)
  have b: "list_all sqlite3Isdigit ?b" "length ?b = 18" "decimal_from 0 ?b = 922337203685477580"
    by code_simp+
  have "sgn (memcmp z ?b 18) = sgn (decimal_from 0 a - 922337203685477580)"
    using memcmp_digits [of a ?b "[c]" "[]"] a b z by simp
  moreover have "decimal_from 0 z = decimal_from 0 a * 10 + (uint c - 48)"
    using z by (simp add: decimal_from_append)
  moreover have "at z 18 = c" using z a by (simp add: at_append)
  ultimately show ?thesis using c
    by (cases "decimal_from 0 a" "922337203685477580 :: int" rule: linorder_cases)
      (auto simp: compare2pow63_def sgn_if split: if_splits)
qed

lemma dropWhile_zero_digits: "list_all sqlite3Isdigit d \<Longrightarrow> list_all sqlite3Isdigit (dropWhile (\<lambda>c. c = 48) d)"
  by (auto simp: list_all_iff dest: set_dropWhileD)

text \<open>The three ways to decide whether a number fits 64 bits.\<close>

lemma fits_64:
  assumes "list_all sqlite3Isdigit d" and "d = [] \<or> hd d \<noteq> 48"
  shows "length d \<le> 19 \<and> (length d = 19 \<longrightarrow> compare2pow63 d < of_bool neg) \<longleftrightarrow>
    decimal_from 0 d < 2 ^ 63 + of_bool neg"
proof -
  have bounds: "0 \<le> decimal_from 0 d" "decimal_from 0 d < 10 ^ length d" using decimal_bounds [OF assms(1)] by auto
  consider "length d < 19" | "length d = 19" | "19 < length d" by linarith
  then show ?thesis
  proof cases
    case 1
    then have "(10 :: int) ^ length d \<le> 10 ^ 18" by (intro power_increasing) simp_all
    then show ?thesis using 1 bounds by simp
  next
    case 2
    then show ?thesis using compare2pow63_eq [OF assms(1)] by simp
  next
    case 3
    then have "(10 :: int) ^ 19 \<le> 10 ^ (length d - 1)" by (intro power_increasing) simp_all
    moreover have "10 ^ (length d - 1) \<le> decimal_from 0 d"
      using 3 assms by (intro decimal_large) auto
    ultimately show ?thesis using 3 by (simp add: not_le)
  qed
qed

lemma hd_dropWhile_zero: "dropWhile (\<lambda>c. c = 48) d = [] \<or> hd (dropWhile (\<lambda>c. c = 48) d) \<noteq> (48 :: byte)"
  using hd_dropWhile [of "\<lambda>c. c = 48" d] by blast

lemma sqlite3FitsIn64Bits_eq:
  assumes "list_all sqlite3Isdigit d"
  shows "sqlite3FitsIn64Bits d neg \<longleftrightarrow> decimal_from 0 d < 2 ^ 63 + of_bool neg"
proof -
  let ?e = "dropWhile (\<lambda>c. c = 48) d"
  have e: "list_all sqlite3Isdigit ?e" by (rule dropWhile_zero_digits [OF assms])
  then have tw: "takeWhile (\<lambda>c. c \<noteq> 0) ?e = ?e"
    by (intro takeWhile_eq_all_conv [THEN iffD2]) (auto simp: list_all_iff)
  show ?thesis
    using fits_64 [OF e hd_dropWhile_zero, of neg]
    unfolding sqlite3FitsIn64Bits_def Let_def tw decimal_zeros
    by (cases "length ?e" "19 :: nat" rule: linorder_cases) simp_all
qed

lemma atoi_loop_eq:
  "atoi_loop z i v =
     (let d = takeWhile sqlite3Isdigit z
      in (i + length d, at z (length d), word_of_int (decimal_from (uint v) d)))"
proof (induction z i v rule: atoi_loop.induct)
  case (2 c z i v)
  have "word_of_int (decimal_from (uint (v * 10 + ucast c - 48)) d) = (word_of_int (decimal_from (uint v * 10 + (uint c - 48)) d) :: u64)" for d
    unfolding decimal_from_eq [of "uint (v * 10 + ucast c - 48)"] decimal_from_eq [of "uint v * 10 + (uint c - 48)"]
    by (simp add: diff_add_eq add_diff_eq)
  with 2 show ?case by (simp add: Let_def sqlite3Isdigit_eq)
qed simp


definition integer_text :: "byte list \<Rightarrow> int option" where
  "integer_text z =
     (let (neg, d) = skip_sign (dropWhile sqlite3Isspace z)
      in if d \<noteq> [] \<and> list_all sqlite3Isdigit d
         then Some (if neg then - decimal_from 0 d else decimal_from 0 d) else None)"

lemma takeWhile_dropWhile_zero:
  "takeWhile sqlite3Isdigit (dropWhile (\<lambda>c. c = 48) z) = dropWhile (\<lambda>c. c = 48) (takeWhile sqlite3Isdigit z)"
  by (induction z) (auto simp: sqlite3Isdigit_eq)

lemma skip_sign_set: "skip_sign z = (neg, d) \<Longrightarrow> set d \<subseteq> set z"
  by (cases z) (auto simp: skip_sign_def split: if_splits)

lemma Atoi64_digits:
  assumes "skip_sign (dropWhile sqlite3Isspace z) = (neg, d)" and "d \<noteq> []" and "list_all sqlite3Isdigit d"
  shows "sqlite3Atoi64 z =
    (decimal_from 0 d < 2 ^ 63 + of_bool neg, word_of_int (if neg then - decimal_from 0 d else decimal_from 0 d))"
proof -
  let ?e = "dropWhile (\<lambda>c. c = 48) d"
  have e: "list_all sqlite3Isdigit ?e" by (rule dropWhile_zero_digits [OF assms(3)])
  then have tw: "takeWhile sqlite3Isdigit ?e = ?e" by (simp add: list_all_iff)
  have ne: "(length ?e = 0 \<and> d = ?e) = False" using assms(2) by (metis length_0_conv)
  have loop: "atoi_loop ?e 0 0 = (length ?e, 0, word_of_int (decimal_from 0 d))"
    by (simp add: atoi_loop_eq tw decimal_zeros Let_def at_def)
  show ?thesis
    using fits_64 [OF e hd_dropWhile_zero, of neg]
    unfolding sqlite3Atoi64_def Let_def assms(1) prod.case loop ne decimal_zeros
    by (cases "length ?e" "19 :: nat" rule: linorder_cases) simp_all
qed

lemma Atoi64_other:
  assumes "0 \<notin> set z" and "skip_sign (dropWhile sqlite3Isspace z) = (neg, d)" and "d = [] \<or> \<not> list_all sqlite3Isdigit d"
  shows "\<not> fst (sqlite3Atoi64 z)"
proof (cases "d = []")
  case True
  then show ?thesis using assms(2) by (simp add: sqlite3Atoi64_def)
next
  case False
  let ?e = "dropWhile (\<lambda>c. c = 48) d"
  let ?t = "takeWhile sqlite3Isdigit ?e"
  have "\<not> list_all sqlite3Isdigit ?e"
  proof
    assume "list_all sqlite3Isdigit ?e"
    moreover have "list_all sqlite3Isdigit (takeWhile (\<lambda>c. c = 48) d)"
      by (auto simp: list_all_iff sqlite3Isdigit_eq dest: set_takeWhileD)
    ultimately have "list_all sqlite3Isdigit (takeWhile (\<lambda>c. c = 48) d @ ?e)" by (simp only: list_all_append)
    with False assms(3) show False by simp
  qed
  then have "dropWhile sqlite3Isdigit ?e \<noteq> []" by (auto simp: list_all_iff)
  moreover have "length ?e = length ?t + length (dropWhile sqlite3Isdigit ?e)"
    by (metis length_append takeWhile_dropWhile_id)
  ultimately have "length ?t < length ?e" by (metis length_greater_0_conv less_add_same_cancel1)
  then have "at ?e (length ?t) \<in> set ?e" by (simp add: at_def)
  moreover have "set ?e \<subseteq> set z"
    using skip_sign_set [OF assms(2)] by (auto dest: set_dropWhileD)
  ultimately have "at ?e (length ?t) \<noteq> 0" using assms(1) by auto
  then show ?thesis using assms(2) by (simp add: sqlite3Atoi64_def atoi_loop_eq Let_def)
qed

lemma int32_loop_eq:
  "i \<le> 11 \<Longrightarrow> int32_loop z i v =
     (let d = take (11 - i) (takeWhile sqlite3Isdigit z) in (i + length d, decimal_from v d))"
proof (induction z i v rule: int32_loop.induct)
  case (2 c z i v)
  then show ?case by (cases "i < 11") (auto simp: Let_def digit_uint Suc_diff_le take_Cons')
qed simp

lemma sqlite3GetInt32_eq:
  "sqlite3GetInt32 z =
     (let (neg, d) = skip_sign z; m = decimal_from 0 (takeWhile sqlite3Isdigit d); n = if neg then - m else m
      in if - (2 ^ 31) \<le> n \<and> n < 2 ^ 31 then Some n else None)"
proof -
  obtain neg d where s: "skip_sign z = (neg, d)" by fastforce
  define e where "e = dropWhile (\<lambda>c. c = 48) (takeWhile sqlite3Isdigit d)"
  have digits: "list_all sqlite3Isdigit e"
    unfolding e_def by (intro dropWhile_zero_digits) (auto simp: list_all_iff dest: set_takeWhileD)
  have dec: "decimal_from 0 (takeWhile sqlite3Isdigit d) = decimal_from 0 e" by (simp add: e_def decimal_zeros)
  have loop: "int32_loop (dropWhile (\<lambda>c. c = 48) d) 0 0 = (length (take 11 e), decimal_from 0 (take 11 e))"
    by (simp add: int32_loop_eq takeWhile_dropWhile_zero Let_def e_def)
  show ?thesis
  proof (cases "length e \<le> 10")
    case True
    then show ?thesis using decimal_bounds [OF digits]
      by (auto simp: sqlite3GetInt32_def s loop dec Let_def)
  next
    case False
    then have "10 ^ (length e - 1) \<le> decimal_from 0 e"
      using digits hd_dropWhile_zero [of "takeWhile sqlite3Isdigit d"] by (intro decimal_large) (auto simp flip: e_def)
    moreover have "(10 :: int) ^ 10 \<le> 10 ^ (length e - 1)" using False by (intro power_increasing) simp_all
    ultimately show ?thesis using False by (simp add: sqlite3GetInt32_def s loop dec Let_def)
  qed
qed


section \<open>sqlite3IsNumber\<close>

text \<open>The texts of the three encodings, with their terminators; only characters below 256.\<close>

definition encoded :: "encoding \<Rightarrow> byte list \<Rightarrow> byte list" where
  "encoded enc z =
     (case enc of SQLITE_UTF8 \<Rightarrow> z
      | SQLITE_UTF16LE \<Rightarrow> concat (map (\<lambda>c. [c, 0]) z) @ [0, 0]
      | SQLITE_UTF16BE \<Rightarrow> concat (map (\<lambda>c. [0, c]) z) @ [0, 0])"

definition reads_as :: "nat \<Rightarrow> byte list \<Rightarrow> byte list \<Rightarrow> bool" where
  "reads_as incr y x \<longleftrightarrow> 0 < incr \<and> (\<forall>i. at y (incr * i) = at x i)"

lemma reads_as_at: "reads_as incr y x \<Longrightarrow> at y 0 = at x 0"
  unfolding reads_as_def by (metis mult_0_right)

lemma reads_as_drop: "reads_as incr y x \<Longrightarrow> reads_as incr (drop incr y) (drop (Suc 0) x)"
  unfolding reads_as_def at_drop by (metis mult_Suc_right add_Suc add_0)

lemma reads_as_skip: "reads_as incr y x \<Longrightarrow> reads_as incr (skip_digits incr y) (skip_digits (Suc 0) x)"
proof (induction incr y arbitrary: x rule: skip_digits.induct)
  case (1 incr y)
  then show ?case
    using reads_as_at [OF 1(2)] reads_as_drop [OF 1(2)]
    by (subst (1 2) skip_digits.simps) (auto simp: reads_as_def)
qed

lemma reads_as_sign:
  "reads_as incr y x \<Longrightarrow> reads_as incr (if at y 0 = a \<or> at y 0 = b then drop incr y else y)
     (if at x 0 = a \<or> at x 0 = b then drop (Suc 0) x else x)"
  using reads_as_at [of incr y x] reads_as_drop [of incr y x] by simp

lemma reads_as_exponent: "reads_as incr y x \<Longrightarrow> number_exponent incr y r = number_exponent (Suc 0) x r"
proof -
  assume r: "reads_as incr y x"
  note s = reads_as_sign [OF reads_as_drop [OF r], of "ch CHR ''+''" "ch CHR ''-''"]
  show ?thesis
    unfolding number_exponent_def Let_def
    using reads_as_at [OF r] reads_as_at [OF s] reads_as_at [OF reads_as_skip [OF s]]
    by (simp only: if_cancel)
qed

lemma reads_as_mantissa: "reads_as incr y x \<Longrightarrow> number_mantissa incr y r = number_mantissa (Suc 0) x r"
proof -
  assume r: "reads_as incr y x"
  note s = reads_as_skip [OF reads_as_drop [OF r]]
  note t = reads_as_drop [OF s]
  show ?thesis
    unfolding number_mantissa_def Let_def
    using reads_as_at [OF r] reads_as_at [OF s] reads_as_at [OF t] reads_as_exponent [OF s]
      reads_as_exponent [OF reads_as_skip [OF t]]
    by (simp only: if_cancel)
qed

lemma at_le: "at (concat (map (\<lambda>c. [c, 0]) z) @ [0, 0]) (2 * i) = at z i"
proof (induction z arbitrary: i)
  case Nil
  show ?case by (cases i) simp_all
next
  case (Cons c z)
  then show ?case by (cases i) simp_all
qed

lemma at_be: "at (concat (map (\<lambda>c. [0, c]) z) @ [0, 0]) (Suc (2 * i)) = at z i"
proof (induction z arbitrary: i)
  case Nil
  show ?case by (cases i) simp_all
next
  case (Cons c z)
  then show ?case by (cases i) simp_all
qed

lemma IsNumber_encoded: "sqlite3IsNumber (encoded enc z) r enc = sqlite3IsNumber z r SQLITE_UTF8"
proof -
  define incr :: nat where "incr = (if enc = SQLITE_UTF8 then 1 else 2)"
  define y where "y = (if enc = SQLITE_UTF16BE then drop 1 (encoded enc z) else encoded enc z)"
  have y: "reads_as incr y z"
    unfolding reads_as_def incr_def y_def encoded_def by (cases enc) (simp_all add: at_le at_be del: drop_append)
  note s = reads_as_sign [OF y, of "ch CHR ''-''" "ch CHR ''+''"]
  show ?thesis
    unfolding sqlite3IsNumber_def Let_def incr_def [symmetric] y_def [symmetric]
    using reads_as_mantissa [OF s] by simp
qed

text \<open>The language of number literals.\<close>

definition digits :: "byte list \<Rightarrow> bool" where
  "digits d \<longleftrightarrow> d \<noteq> [] \<and> list_all sqlite3Isdigit d"

definition with_sign :: "(byte list \<Rightarrow> bool) \<Rightarrow> byte list \<Rightarrow> bool" where
  "with_sign P z \<longleftrightarrow> (\<exists>s\<in>{[], [ch CHR ''-''], [ch CHR ''+'']}. \<exists>y. z = s @ y \<and> P y)"

definition exponent_text :: "byte list \<Rightarrow> bool" where
  "exponent_text e \<longleftrightarrow> e = [] \<or> (\<exists>c d. e = c # d \<and> c \<in> {ch CHR ''e'', ch CHR ''E''} \<and> with_sign digits d)"

definition unsigned_literal :: "bool \<Rightarrow> byte list \<Rightarrow> bool" where
  "unsigned_literal real z \<longleftrightarrow>
     (\<exists>d f e. z = d @ f @ e \<and> digits d \<and> (f = [] \<or> (\<exists>d'. f = ch CHR ''.'' # d' \<and> digits d')) \<and>
        exponent_text e \<and> (real \<longleftrightarrow> f \<noteq> [] \<or> e \<noteq> []))"

lemma at_0: "0 \<notin> set z \<Longrightarrow> at z 0 = 0 \<longleftrightarrow> z = []"
  by (cases z) auto

lemma skip_digits_1: "skip_digits (Suc 0) z = dropWhile sqlite3Isdigit z"
proof (induction z)
  case (Cons c z)
  then show ?case by (subst skip_digits.simps) simp
qed (subst skip_digits.simps, simp)

lemma with_sign_eq:
  assumes "\<And>y. P y \<Longrightarrow> sqlite3Isdigit (at y 0)"
  shows "with_sign P z \<longleftrightarrow> P (if at z 0 = ch CHR ''-'' \<or> at z 0 = ch CHR ''+'' then drop 1 z else z)"
proof -
  have "P z \<Longrightarrow> at z 0 \<noteq> ch CHR ''-'' \<and> at z 0 \<noteq> ch CHR ''+''"
    using assms [of z] by (auto simp: sqlite3Isdigit_eq)
  moreover have "with_sign P z \<longleftrightarrow> P z \<or> (z \<noteq> [] \<and> (hd z = ch CHR ''-'' \<or> hd z = ch CHR ''+'') \<and> P (tl z))"
    unfolding with_sign_def by (cases z) auto
  ultimately show ?thesis by (cases z) auto
qed

lemma digits_split:
  assumes "\<And>x. R x \<Longrightarrow> \<not> sqlite3Isdigit (at x 0)"
  shows "(\<exists>d x. y = d @ x \<and> digits d \<and> R x) \<longleftrightarrow> sqlite3Isdigit (at y 0) \<and> R (dropWhile sqlite3Isdigit y)"
proof
  assume "\<exists>d x. y = d @ x \<and> digits d \<and> R x"
  then obtain d x where y: "y = d @ x" "digits d" "R x" by blast
  have "dropWhile sqlite3Isdigit x = x" using assms [OF y(3)] by (cases x) auto
  moreover have "dropWhile sqlite3Isdigit (d @ x) = dropWhile sqlite3Isdigit x"
    using y(2) by (intro dropWhile_append2) (auto simp: digits_def list_all_iff)
  ultimately show "sqlite3Isdigit (at y 0) \<and> R (dropWhile sqlite3Isdigit y)"
    using y by (cases d) (auto simp: digits_def)
next
  assume y: "sqlite3Isdigit (at y 0) \<and> R (dropWhile sqlite3Isdigit y)"
  then have "digits (takeWhile sqlite3Isdigit y)"
    by (cases y) (auto simp: digits_def list_all_iff dest: set_takeWhileD)
  with y show "\<exists>d x. y = d @ x \<and> digits d \<and> R x" by (metis takeWhile_dropWhile_id)
qed

lemma digits_eq: "0 \<notin> set y \<Longrightarrow> digits y \<longleftrightarrow> sqlite3Isdigit (at y 0) \<and> at (skip_digits (Suc 0) y) 0 = 0"
  using digits_split [of "\<lambda>x. x = []" y] at_0 [of "dropWhile sqlite3Isdigit y"]
  by (auto simp: skip_digits_1 dest: set_dropWhileD)

lemma digits_at: "digits y \<Longrightarrow> sqlite3Isdigit (at y 0)"
  by (cases y) (auto simp: digits_def)

lemma exponent_eq:
  "0 \<notin> set x \<Longrightarrow> number_exponent (Suc 0) x b = (True, real) \<longleftrightarrow> exponent_text x \<and> (real \<longleftrightarrow> b \<or> x \<noteq> [])"
proof (cases x)
  case (Cons c y)
  assume "0 \<notin> set x"
  then have "0 \<notin> set y" and "c \<noteq> 0" using Cons by auto
  let ?y = "if at y 0 = ch CHR ''-'' \<or> at y 0 = ch CHR ''+'' then drop 1 y else y"
  have "0 \<notin> set ?y" using \<open>0 \<notin> set y\<close> by (auto dest: in_set_dropD)
  from digits_eq [OF this] have "with_sign digits y \<longleftrightarrow> sqlite3Isdigit (at ?y 0) \<and> at (skip_digits (Suc 0) ?y) 0 = 0"
    using with_sign_eq [of digits y] digits_at by simp
  then show ?thesis using \<open>c \<noteq> 0\<close>
    unfolding Cons exponent_text_def number_exponent_def Let_def by auto
qed (auto simp: number_exponent_def exponent_text_def)


lemma unsigned_eq:
  assumes "0 \<notin> set y"
  shows "number_mantissa (Suc 0) y r = (True, real) \<longleftrightarrow> unsigned_literal real y"
proof -
  define E where "E b x \<longleftrightarrow> exponent_text x \<and> (real \<longleftrightarrow> b \<or> x \<noteq> [])" for b x
  define R where "R x \<longleftrightarrow> (if at x 0 = ch CHR ''.'' then \<exists>d e. drop 1 x = d @ e \<and> digits d \<and> E True e else E False x)" for x
  have no_digit: "\<not> sqlite3Isdigit (at x 0)" if "exponent_text x" for x
    using that by (cases x) (auto simp: exponent_text_def sqlite3Isdigit_eq)
  have no_dot: "at x 0 \<noteq> ch CHR ''.''" if "exponent_text x" for x
    using that by (cases x) (auto simp: exponent_text_def)
  have R_digit: "R x \<Longrightarrow> \<not> sqlite3Isdigit (at x 0)" for x
    using no_digit [of x] by (auto simp: R_def E_def sqlite3Isdigit_eq split: if_splits)
  have R_iff: "R x \<longleftrightarrow> (\<exists>f e. x = f @ e \<and> (f = [] \<or> (\<exists>d'. f = ch CHR ''.'' # d' \<and> digits d')) \<and>
      exponent_text e \<and> (real \<longleftrightarrow> f \<noteq> [] \<or> e \<noteq> []))" for x
  proof (cases "at x 0 = ch CHR ''.''")
    case True
    then obtain x' where x: "x = ch CHR ''.'' # x'" by (cases x) auto
    show ?thesis (is "_ \<longleftrightarrow> ?rhs")
    proof
      assume "R x"
      then obtain d e where "x' = d @ e" "digits d" "E True e" using x by (auto simp: R_def)
      then show ?rhs
        using x by (intro exI [of _ "ch CHR ''.'' # d"] exI [of _ e]) (auto simp: E_def)
    next
      assume ?rhs
      then obtain f e where f: "x = f @ e" "f = [] \<or> (\<exists>d'. f = ch CHR ''.'' # d' \<and> digits d')"
          "exponent_text e" "real \<longleftrightarrow> f \<noteq> [] \<or> e \<noteq> []" by blast
      then have "f \<noteq> []" using True no_dot [of x] by auto
      with f obtain d' where d': "f = ch CHR ''.'' # d'" "digits d'" by blast
      then have "drop 1 x = d' @ e" "E True e" using f by (simp_all add: E_def)
      then show "R x" unfolding R_def using True d'(2) by (simp del: at_drop) blast
    qed
  next
    case False
    then show ?thesis by (cases x) (auto simp: R_def E_def)
  qed
  have code: "number_mantissa (Suc 0) y r = (True, real) \<longleftrightarrow>
      sqlite3Isdigit (at y 0) \<and> R (dropWhile sqlite3Isdigit y)"
  proof (cases "sqlite3Isdigit (at y 0)")
    case False
    then show ?thesis by (simp add: number_mantissa_def)
  next
    case True
    then obtain c y' where y: "y = c # y'" by (cases y) auto
    define x where "x = dropWhile sqlite3Isdigit y'"
    have x: "dropWhile sqlite3Isdigit y = x" "0 \<notin> set x"
      using True assms by (auto simp: x_def y dest: set_dropWhileD)
    let ?x = "drop (Suc 0) x"
    have x': "0 \<notin> set ?x" "0 \<notin> set (dropWhile sqlite3Isdigit ?x)"
      using x(2) by (auto dest: set_dropWhileD in_set_dropD)
    have "(\<exists>d e. ?x = d @ e \<and> digits d \<and> E True e) \<longleftrightarrow> sqlite3Isdigit (at ?x 0) \<and> E True (dropWhile sqlite3Isdigit ?x)"
      by (rule digits_split) (simp add: E_def no_digit)
    then show ?thesis
      using True exponent_eq [OF x(2), of False real] exponent_eq [OF x'(2), of True real]
      by (simp add: number_mantissa_def Let_def y skip_digits_1 x_def [symmetric] x(1) [unfolded y] R_def E_def del: at_drop)
  qed
  have ex: "(\<exists>d x. y = d @ x \<and> digits d \<and> (\<exists>f e. x = f @ e \<and> F f e)) \<longleftrightarrow> (\<exists>d f e. y = d @ f @ e \<and> digits d \<and> F f e)" for F
    by auto
  have "number_mantissa (Suc 0) y r = (True, real) \<longleftrightarrow> (\<exists>d x. y = d @ x \<and> digits d \<and> R x)"
    by (simp only: code digits_split [of R y, OF R_digit])
  also have "\<dots> \<longleftrightarrow> unsigned_literal real y"
    unfolding R_iff unsigned_literal_def by (rule ex)
  finally show ?thesis .
qed

theorem sqlite3IsNumber_recognises:
  assumes "0 \<notin> set z"
  shows "sqlite3IsNumber (encoded enc z) r enc = (True, real) \<longleftrightarrow> with_sign (unsigned_literal real) z"
proof -
  have "sqlite3Isdigit (at y 0)" if "unsigned_literal real y" for y
  proof -
    obtain d x where "y = d @ x" "digits d" using \<open>unsigned_literal real y\<close> by (auto simp: unsigned_literal_def)
    then show ?thesis by (cases d) (auto simp: digits_def)
  qed
  then have *: "with_sign (unsigned_literal real) z \<longleftrightarrow>
      unsigned_literal real (if at z 0 = ch CHR ''-'' \<or> at z 0 = ch CHR ''+'' then drop 1 z else z)"
    by (rule with_sign_eq)
  have no_nul: "0 \<notin> set (if at z 0 = ch CHR ''-'' \<or> at z 0 = ch CHR ''+'' then drop 1 z else z)"
    using assms by (auto dest: in_set_dropD)
  have code: "sqlite3IsNumber z r SQLITE_UTF8 =
      number_mantissa (Suc 0) (if at z 0 = ch CHR ''-'' \<or> at z 0 = ch CHR ''+'' then drop 1 z else z) r"
    by (simp add: sqlite3IsNumber_def Let_def)
  show ?thesis unfolding * IsNumber_encoded code by (rule unsigned_eq [OF no_nul])
qed

text \<open>The part of a character above its low byte is not looked at: the letter U+0131 counts as the digit 1.\<close>

lemma IsNumber_ignores_high_byte: "sqlite3IsNumber [0x31, 0x01, 0, 0] r SQLITE_UTF16LE = (True, False)"
  by code_simp

text \<open>For a text that is not a number, \<open>*realnum\<close> may change all the same.\<close>

lemma IsNumber_changes_realnum: "sqlite3IsNumber (bytes_of ''1x'') True SQLITE_UTF8 = (False, False)"
  by code_simp

lemma sqlite3GetInt32_digits:
  "sqlite3GetInt32 z =
     (let (neg, d) = skip_sign z; ds = takeWhile sqlite3Isdigit d; m = decimal_from 0 ds; n = if neg then - m else m
      in if ds = [] then Some 0
         else if - (2 ^ 31) \<le> n \<and> n < 2 ^ 31 then Some n else None)"
  by (auto simp: sqlite3GetInt32_eq Let_def split: prod.split)

section \<open>Properties\<close>

text \<open>
  C29: \<open>sqlite3Atoi64\<close> returns true exactly for the texts made of white space, a sign and decimal digits whose
  number is in the range of 64 bits, both ends included, and then stores that number; the overflow of its
  accumulator is harmless. \<open>sqlite3GetInt32\<close> takes the digits that follow a sign at the start of the text and
  returns their number exactly when it is in the range of 32 bits; for a text without such digits, which by its comment is
  refused, it returns 0 as the number.
\<close>

theorem sqlite3_integers:
  assumes "0 \<notin> set z"
  shows "(case integer_text z of
       None \<Rightarrow> \<not> fst (sqlite3Atoi64 z)
     | Some n \<Rightarrow> if - (2 ^ 63) \<le> n \<and> n < 2 ^ 63
         then sqlite3Atoi64 z = (True, word_of_int n) \<and> sint (word_of_int n :: u64) = n
         else \<not> fst (sqlite3Atoi64 z)) \<and>
     sqlite3GetInt32 z =
       (let (neg, d) = skip_sign z; ds = takeWhile sqlite3Isdigit d; m = decimal_from 0 ds; n = if neg then - m else m
        in if ds = [] then Some 0
           else if - (2 ^ 31) \<le> n \<and> n < 2 ^ 31 then Some n else None)"
proof -
  obtain neg d where s: "skip_sign (dropWhile sqlite3Isspace z) = (neg, d)" by fastforce
  have sint: "sint (word_of_int n :: u64) = n" if "- (2 ^ 63) \<le> n" "n < 2 ^ 63" for n
    using that by (simp add: sint_sbintrunc' signed_take_bit_int_eq_self)
  show ?thesis
  proof (cases "d \<noteq> [] \<and> list_all sqlite3Isdigit d")
    case False
    then have "integer_text z = None" by (auto simp: integer_text_def s)
    with False show ?thesis using Atoi64_other [OF assms s] by (auto simp: sqlite3GetInt32_digits)
  next
    case True
    then have "0 \<le> decimal_from 0 d" using decimal_bounds by blast
    moreover note sint [of "- decimal_from 0 d"] sint [of "decimal_from 0 d"]
    ultimately show ?thesis using True Atoi64_digits [OF s]
      by (cases neg) (simp_all add: integer_text_def s sqlite3GetInt32_digits)
  qed
qed

theorem sqlite3_integers_witness:
  "0 \<notin> set (bytes_of '' -9223372036854775808'') \<and>
   sqlite3Atoi64 (bytes_of '' -9223372036854775808'') = (True, word_of_int (- (2 ^ 63)))"
proof -
  have z: "0 \<notin> set (bytes_of '' -9223372036854775808'')" by code_simp
  have "integer_text (bytes_of '' -9223372036854775808'') = Some (- 9223372036854775808)" by code_simp
  with z sqlite3_integers [OF z] show ?thesis by simp
qed

end
