(* ===== verification/Sqlite_Literals.thy ===== *)
theory Sqlite_Literals
  imports Sqlite_Tokenize
begin

text \<open>
  Quoted values of the SQLite library: \<open>quoteFunc\<close> and \<open>hexFunc\<close> of \<open>func.c\<close> write them,
  \<open>sqlite3HexToBlob\<close> of \<open>util.c\<close> reads a BLOB literal.
\<close>

section \<open>The code\<close>

definition hexToInt :: "int \<Rightarrow> byte" where
  "hexToInt h = (let h = h + 9 * (1 AND drop_bit 6 h) in word_of_int (h AND 0xf))"

fun hex_loop :: "byte list \<Rightarrow> nat \<Rightarrow> nat \<Rightarrow> byte list" where
  "hex_loop z i 0 = []"
| "hex_loop z i (Suc 0) = [push_bit 4 (hexToInt (uint (at z i))) OR hexToInt (uint (at z (i + 1)))]"
| "hex_loop z i (Suc (Suc n)) =
     (push_bit 4 (hexToInt (uint (at z i))) OR hexToInt (uint (at z (i + 1)))) # hex_loop z (i + 2) n"

text \<open>The bytes written to \<open>zBlob\<close>; the loop runs while \<open>i < n - 1\<close>.\<close>

definition sqlite3HexToBlob :: "byte list \<Rightarrow> nat \<Rightarrow> byte list" where
  "sqlite3HexToBlob z n = hex_loop z 0 (n - 1) @ [0]"

definition hexdigits :: "byte list" where
  "hexdigits = bytes_of ''0123456789ABCDEF''"

datatype 'n sqlite3_value =
    SQLITE_NUMBER 'n
  | SQLITE_BLOB "byte list"
  | SQLITE_TEXT "byte list"
  | SQLITE_NULL

fun blob_hex :: "byte list \<Rightarrow> byte list" where
  "blob_hex [] = []"
| "blob_hex (c # b) = hexdigits ! unat (drop_bit 4 c AND 0x0F) # hexdigits ! unat (c AND 0x0F) # blob_hex b"

fun quote_copy :: "byte list \<Rightarrow> byte list" where
  "quote_copy [] = []"
| "quote_copy (c # s) = c # (if c = ch CHR 0x27 then [ch CHR 0x27] else []) @ quote_copy s"

text \<open>
  \<open>contextMalloc\<close> reports an error for a size above the limit of the connection, and another one when no memory is left;
  \<open>alloc\<close> says for which sizes \<open>sqlite3Malloc\<close> finds memory.
\<close>

definition contextMalloc :: "nat \<Rightarrow> (nat \<Rightarrow> bool) \<Rightarrow> nat \<Rightarrow> (nat + 'a) \<Rightarrow> nat + 'a" where
  "contextMalloc limit alloc nByte use =
     (if limit < nByte then Inl SQLITE_TOOBIG else if \<not> alloc nByte then Inl SQLITE_NOMEM else use)"

text \<open>A text is its characters before the terminator. \<open>sqlite3_result_text\<close> stores the result.\<close>

definition quoteFunc :: "nat \<Rightarrow> (nat \<Rightarrow> bool) \<Rightarrow> 'n sqlite3_value \<Rightarrow> nat + 'n sqlite3_value" where
  "quoteFunc limit alloc v =
     (case v of
        SQLITE_NUMBER n \<Rightarrow> Inr v
      | SQLITE_BLOB zBlob \<Rightarrow>
          contextMalloc limit alloc (2 * length zBlob + 4)
            (Inr (SQLITE_TEXT (ch CHR ''X'' # ch CHR 0x27 # blob_hex zBlob @ [ch CHR 0x27])))
      | SQLITE_TEXT zArg \<Rightarrow>
          let n = length (List.filter (\<lambda>c. c = ch CHR 0x27) zArg)
          in contextMalloc limit alloc (length zArg + n + 3)
               (Inr (SQLITE_TEXT (ch CHR 0x27 # quote_copy zArg @ [ch CHR 0x27])))
      | SQLITE_NULL \<Rightarrow> Inr (SQLITE_TEXT (bytes_of ''NULL'')))"

definition hexFunc :: "nat \<Rightarrow> (nat \<Rightarrow> bool) \<Rightarrow> byte list \<Rightarrow> nat + 'n sqlite3_value" where
  "hexFunc limit alloc blob = contextMalloc limit alloc (2 * length blob + 1) (Inr (SQLITE_TEXT (blob_hex blob)))"

section \<open>Lemmas\<close>

lemma hexdigits_table:
  "k < 16 \<Longrightarrow> sqlite3Isxdigit (hexdigits ! k) \<and> hexdigits ! k \<noteq> 0 \<and> hexdigits ! k \<noteq> ch CHR 0x27 \<and>
     hexToInt (uint (hexdigits ! k)) = word_of_nat k"
proof -
  have "list_all (\<lambda>k. sqlite3Isxdigit (hexdigits ! k) \<and> hexdigits ! k \<noteq> 0 \<and> hexdigits ! k \<noteq> ch CHR 0x27 \<and>
     hexToInt (uint (hexdigits ! k)) = word_of_nat k) [0..<16]"
    by code_simp
  then show "k < 16 \<Longrightarrow> ?thesis" by (simp add: list_all_iff)
qed

lemma nibble_less: "unat (x AND 0x0F :: byte) < 16"
proof -
  have "x AND 0x0F = take_bit 4 x" by (simp add: take_bit_eq_mask mask_eq_exp_minus_1)
  then show ?thesis by (simp add: unsigned_take_bit_eq take_bit_nat_less_exp [of 4, simplified])
qed

lemma nibbles: "push_bit 4 (drop_bit 4 c AND 0x0F) OR (c AND 0x0F) = (c :: byte)"
proof -
  have m: "(0x0F :: byte) = mask 4" by (simp add: mask_eq_exp_minus_1)
  show ?thesis unfolding m
    by (rule bit_word_eqI) (auto simp: bit_simps not_less le_add_diff_inverse)
qed

lemma blob_hex_digit: "c \<in> set (blob_hex b) \<Longrightarrow> sqlite3Isxdigit c \<and> c \<noteq> 0 \<and> c \<noteq> ch CHR 0x27"
  using hexdigits_table [OF nibble_less] by (induction b) auto

lemma length_blob_hex [simp]: "length (blob_hex b) = 2 * length b"
  by (induction b) simp_all

lemma blob_loop_digits:
  "list_all (\<lambda>c. sqlite3Isxdigit c \<and> c \<noteq> 0 \<and> c \<noteq> ch CHR 0x27) h \<Longrightarrow> drop i z = h @ ch CHR 0x27 # rest \<Longrightarrow>
     blob_loop z i True = (i + length h, ch CHR 0x27, True)"
proof (induction h arbitrary: i)
  case Nil
  then have "at z i = ch CHR 0x27" using at_drop [of i z 0] by simp
  then show ?case by (subst blob_loop.simps) simp
next
  case (Cons c h)
  have "at z i = c" using at_drop [of i z 0] Cons.prems(2) by simp
  moreover have "drop (Suc i) z = h @ ch CHR 0x27 # rest"
    using Cons.prems(2) drop_drop [of 1 i z] by simp
  ultimately show ?case using Cons by (subst blob_loop.simps) simp
qed

lemma hex_loop_blob:
  "drop i z = blob_hex b @ rest \<Longrightarrow> hex_loop z i (2 * length b - 1) = b"
proof (induction b arbitrary: i)
  case (Cons c b)
  let ?h = "hexdigits ! unat (drop_bit 4 c AND 0x0F)" and ?l = "hexdigits ! unat (c AND 0x0F)"
  have "at z i = ?h" "at z (i + 1) = ?l"
    using at_drop [of i z 0] at_drop [of i z 1] Cons.prems by simp_all
  then have byte: "push_bit 4 (hexToInt (uint (at z i))) OR hexToInt (uint (at z (i + 1))) = c"
    using nibbles [of c] by (simp add: hexdigits_table nibble_less)
  have "drop (i + 2) z = blob_hex b @ rest"
    using Cons.prems drop_drop [of 2 i z] by (simp add: add.commute)
  then have IH: "hex_loop z (i + 2) (2 * length b - 1) = b" by (rule Cons.IH)
  show ?case
  proof (cases b)
    case Nil
    then show ?thesis using byte by simp
  next
    case (Cons c' b')
    then have "2 * length (c # b) - 1 = Suc (Suc (2 * length b - 1))" by simp
    then show ?thesis by (simp only: hex_loop.simps byte IH)
  qed
qed simp

lemma quote_copy_eq: "quote_copy s = escape_copy (ch CHR 0x27) s"
  by (induction s) simp_all

section \<open>Properties\<close>

text \<open>
  C28: \<open>quoteFunc\<close> quotes a BLOB and a text by a literal \<open>t\<close>, for which it reports \<open>SQLITE_TOOBIG\<close> exactly when the literal and
  its terminator exceed the limit of the connection, \<open>SQLITE_NOMEM\<close> exactly when they do not and there is no memory for
  them, and which it returns otherwise. The literal is read back: for a BLOB it is one token, and
  \<open>sqlite3HexToBlob\<close> gives its bytes; for a text it is one string token, unless another quote follows, and
  \<open>sqlite3Dequote\<close> gives its characters.
\<close>

theorem quoteFunc_round_trip:
  assumes "0 \<notin> set s" and "rest = [] \<or> hd rest \<noteq> ch CHR 0x27"
  shows "(\<exists>t. quoteFunc limit alloc (SQLITE_BLOB b :: 'n sqlite3_value) =
        (if limit < length t + 1 then Inl SQLITE_TOOBIG
         else if alloc (length t + 1) then Inr (SQLITE_TEXT t) else Inl SQLITE_NOMEM) \<and>
      sqlite3GetToken (t @ rest) = (TK ''BLOB'', length t) \<and>
      sqlite3HexToBlob (drop 2 t) (length (drop 2 t) - 1) = b @ [0] \<and> (length (drop 2 t) - 1) div 2 = length b) \<and>
   (\<exists>t. quoteFunc limit alloc (SQLITE_TEXT s :: 'n sqlite3_value) =
        (if limit < length t + 1 then Inl SQLITE_TOOBIG
         else if alloc (length t + 1) then Inr (SQLITE_TEXT t) else Inl SQLITE_NOMEM) \<and>
      sqlite3GetToken (t @ rest) = (TK ''STRING'', length t) \<and>
      (\<exists>z. sqlite3Dequote (Some (t @ [0])) = (int (length s), Some z) \<and> take (length s) z = s \<and> at z (length s) = 0))"
proof
  let ?q = "ch CHR 0x27"
  let ?t = "ch CHR ''X'' # ?q # blob_hex b @ [?q]"
  have "list_all (\<lambda>c. sqlite3Isxdigit c \<and> c \<noteq> 0 \<and> c \<noteq> ?q) (blob_hex b)"
    using blob_hex_digit by (auto simp: list_all_iff)
  then have "blob_loop (?t @ rest) 2 True = (2 + 2 * length b, ?q, True)"
    using blob_loop_digits [of "blob_hex b" 2 "?t @ rest" rest] by simp
  then have "blob_token (?t @ rest) = (TK ''BLOB'', length ?t)"
    by (simp add: blob_token_def)
  moreover have "sqlite3GetToken (?t @ rest) = blob_token (?t @ rest)"
    by (simp add: sqlite3GetToken_def sqlite3Isdigit_eq)
  moreover have "sqlite3HexToBlob (drop 2 ?t) (length (drop 2 ?t) - 1) = b @ [0]"
    using hex_loop_blob [of 0 "blob_hex b @ [?q]" b "[?q]"] by (simp add: sqlite3HexToBlob_def)
  moreover have "2 * length b + 4 = length ?t + 1"
    by simp
  then have quote: "quoteFunc limit alloc (SQLITE_BLOB b :: 'n sqlite3_value) = contextMalloc limit alloc (length ?t + 1) (Inr (SQLITE_TEXT ?t))"
    by (simp only: quoteFunc_def sqlite3_value.case)
  ultimately show "\<exists>t. quoteFunc limit alloc (SQLITE_BLOB b :: 'n sqlite3_value) =
        (if limit < length t + 1 then Inl SQLITE_TOOBIG
         else if alloc (length t + 1) then Inr (SQLITE_TEXT t) else Inl SQLITE_NOMEM) \<and>
      sqlite3GetToken (t @ rest) = (TK ''BLOB'', length t) \<and>
      sqlite3HexToBlob (drop 2 t) (length (drop 2 t) - 1) = b @ [0] \<and> (length (drop 2 t) - 1) div 2 = length b"
    using quote by (intro exI [of _ ?t]) (simp add: contextMalloc_def)
next
  let ?q = "ch CHR 0x27"
  let ?t = "?q # quote_copy s @ [?q]"
  have "length (quote_copy s) = length s + length (List.filter (\<lambda>c. c = ?q) s)"
    by (induction s) simp_all
  then have "length s + length (List.filter (\<lambda>c. c = ?q) s) + 3 = length ?t + 1"
    by simp
  then have quote: "quoteFunc limit alloc (SQLITE_TEXT s :: 'n sqlite3_value) = contextMalloc limit alloc (length ?t + 1) (Inr (SQLITE_TEXT ?t))"
    by (simp only: quoteFunc_def sqlite3_value.case Let_def)
  show "\<exists>t. quoteFunc limit alloc (SQLITE_TEXT s :: 'n sqlite3_value) =
        (if limit < length t + 1 then Inl SQLITE_TOOBIG
         else if alloc (length t + 1) then Inr (SQLITE_TEXT t) else Inl SQLITE_NOMEM) \<and>
      sqlite3GetToken (t @ rest) = (TK ''STRING'', length t) \<and>
      (\<exists>z. sqlite3Dequote (Some (t @ [0])) = (int (length s), Some z) \<and> take (length s) z = s \<and> at z (length s) = 0)"
    using quote quoted_text_reads [OF assms refl]
    by (intro exI [of _ ?t]) (simp add: contextMalloc_def quote_copy_eq)
qed

theorem quoteFunc_round_trip_witness:
  "sqlite3GetToken (bytes_of ''X'' @ [39] @ bytes_of ''AB0F'' @ [39] @ bytes_of '';'') = (TK ''BLOB'', 7) \<and>
   sqlite3HexToBlob (bytes_of ''AB0F'' @ [39]) (length (bytes_of ''AB0F'')) = [0xAB, 0x0F, 0]"
proof -
  let ?quote = "quoteFunc 100 (\<lambda>n. True) (SQLITE_BLOB [0xAB, 0x0F]) :: nat + unit sqlite3_value"
  have q: "?quote = Inr (SQLITE_TEXT (bytes_of ''X'' @ [39] @ bytes_of ''AB0F'' @ [39]))"
    by code_simp
  have "0 \<notin> set (bytes_of ''it'')" "hd (bytes_of '';'') \<noteq> ch CHR 0x27" by code_simp+
  from conjunct1 [OF quoteFunc_round_trip [OF this(1) disjI2 [OF this(2)], where limit = 100 and alloc = "\<lambda>n. True" and b = "[0xAB, 0x0F]" and ?'n = unit]]
  obtain t where t: "?quote = (if 100 < length t + 1 then Inl SQLITE_TOOBIG else if True then Inr (SQLITE_TEXT t) else Inl SQLITE_NOMEM)"
      "sqlite3GetToken (t @ bytes_of '';'') = (TK ''BLOB'', length t)"
      "sqlite3HexToBlob (drop 2 t) (length (drop 2 t) - 1) = [0xAB, 0x0F] @ [0]"
    by blast
  from t(1) have "t = bytes_of ''X'' @ [39] @ bytes_of ''AB0F'' @ [39]"
    unfolding q by (cases "100 < length t + 1") simp_all
  with t(2,3) show ?thesis
    by (simp add: bytes_of_def)
qed

end
