(* ===== verification/Sqlite_Utf.thy ===== *)
theory Sqlite_Utf
  imports Sqlite_Numbers
begin

text \<open>
  Text encodings of the SQLite library (\<open>utf.c\<close> in the amalgamation): the macros that read and write one
  character, the translation of a value between UTF-8 and the two byte orders of UTF-16, byte-order marks
  and the lengths of texts. Who owns the memory of a value (the flags of \<open>Mem\<close>) is not modelled.
\<close>

section \<open>The code\<close>

definition sqlite3Utf8Trans1 :: "byte list" where
  "sqlite3Utf8Trans1 = [
     0x00, 0x01, 0x02, 0x03, 0x04, 0x05, 0x06, 0x07,
     0x08, 0x09, 0x0a, 0x0b, 0x0c, 0x0d, 0x0e, 0x0f,
     0x10, 0x11, 0x12, 0x13, 0x14, 0x15, 0x16, 0x17,
     0x18, 0x19, 0x1a, 0x1b, 0x1c, 0x1d, 0x1e, 0x1f,
     0x00, 0x01, 0x02, 0x03, 0x04, 0x05, 0x06, 0x07,
     0x08, 0x09, 0x0a, 0x0b, 0x0c, 0x0d, 0x0e, 0x0f,
     0x00, 0x01, 0x02, 0x03, 0x04, 0x05, 0x06, 0x07,
     0x00, 0x01, 0x02, 0x03, 0x00, 0x01, 0x00, 0x00]"

definition WRITE_UTF8 :: "u32 \<Rightarrow> byte list" where
  "WRITE_UTF8 c =
     (if c < 0x80 then [ucast (c AND 0xFF)]
      else if c < 0x800 then
        [0xC0 + ucast (drop_bit 6 c AND 0x1F), 0x80 + ucast (c AND 0x3F)]
      else if c < 0x10000 then
        [0xE0 + ucast (drop_bit 12 c AND 0x0F), 0x80 + ucast (drop_bit 6 c AND 0x3F), 0x80 + ucast (c AND 0x3F)]
      else
        [0xF0 + ucast (drop_bit 18 c AND 0x07), 0x80 + ucast (drop_bit 12 c AND 0x3F),
         0x80 + ucast (drop_bit 6 c AND 0x3F), 0x80 + ucast (c AND 0x3F)])"

definition WRITE_UTF16LE :: "u32 \<Rightarrow> byte list" where
  "WRITE_UTF16LE c =
     (if c \<le> 0xFFFF then [ucast (c AND 0xFF), ucast (drop_bit 8 c AND 0xFF)]
      else
        [ucast ((drop_bit 10 c AND 0x3F) + (drop_bit 10 (c - 0x10000) AND 0xC0)),
         ucast (0xD8 + (drop_bit 18 (c - 0x10000) AND 0x03)),
         ucast (c AND 0xFF), ucast (0xDC + (drop_bit 8 c AND 0x03))])"

definition WRITE_UTF16BE :: "u32 \<Rightarrow> byte list" where
  "WRITE_UTF16BE c =
     (if c \<le> 0xFFFF then [ucast (drop_bit 8 c AND 0xFF), ucast (c AND 0xFF)]
      else
        [ucast (0xD8 + (drop_bit 18 (c - 0x10000) AND 0x03)),
         ucast ((drop_bit 10 c AND 0x3F) + (drop_bit 10 (c - 0x10000) AND 0xC0)),
         ucast (0xDC + (drop_bit 8 c AND 0x03)), ucast (c AND 0xFF)])"

text \<open>
  A reader returns the character and the rest of the text. A second unit of UTF-16 is only read when the
  condition \<open>TERM\<close> holds and the text has one.
\<close>

definition surrogates :: "u32 \<Rightarrow> u32 \<Rightarrow> u32" where
  "surrogates c c2 =
     (c2 AND 0x03FF) + push_bit 10 (c AND 0x003F) + push_bit 10 ((c AND 0x03C0) + 0x0040)"

definition le16 :: "byte list \<Rightarrow> u32" where
  "le16 z = ucast (at z 0) + push_bit 8 (ucast (at z 1))"

definition be16 :: "byte list \<Rightarrow> u32" where
  "be16 z = push_bit 8 (ucast (at z 0)) + ucast (at z 1)"

definition READ_UTF16LE :: "byte list \<Rightarrow> (byte list \<Rightarrow> bool) \<Rightarrow> u32 \<times> byte list" where
  "READ_UTF16LE z cond =
     (let c = le16 z; z = drop 2 z
      in if 0xD800 \<le> c \<and> c < 0xE000 \<and> cond z then (surrogates c (le16 z), drop 2 z) else (c, z))"

definition READ_UTF16BE :: "byte list \<Rightarrow> (byte list \<Rightarrow> bool) \<Rightarrow> u32 \<times> byte list" where
  "READ_UTF16BE z cond =
     (let c = be16 z; z = drop 2 z
      in if 0xD800 \<le> c \<and> c < 0xE000 \<and> cond z then (surrogates c (be16 z), drop 2 z) else (c, z))"

fun continuation_loop :: "u32 \<Rightarrow> byte list \<Rightarrow> u32 \<times> byte list" where
  "continuation_loop c [] = (c, [])"
| "continuation_loop c (b # z) =
     (if b AND 0xC0 = 0x80 then continuation_loop (push_bit 6 c + (0x3F AND ucast b)) z else (c, b # z))"

definition READ_UTF8 :: "byte list \<Rightarrow> u32 \<times> byte list" where
  "READ_UTF8 z =
     (let b = at z 0; z = drop 1 z
      in if 0xC0 \<le> b then
           let (c, z) = continuation_loop (ucast (sqlite3Utf8Trans1 ! unat (b - 0xC0))) z
           in (if c < 0x80 \<or> c AND 0xFFFFF800 = 0xD800 \<or> c AND 0xFFFFFFFE = 0xFFFE then 0xFFFD else c, z)
         else (ucast b, z))"

text \<open>The function has a signed \<open>c\<close>.\<close>

definition sqlite3Utf8Read :: "byte list \<Rightarrow> u32 \<times> byte list" where
  "sqlite3Utf8Read z =
     (let b = at z 0; z = drop 1 z
      in if 0xC0 \<le> b then
           let (c, z) = continuation_loop (ucast (sqlite3Utf8Trans1 ! unat (b - 0xC0))) z
           in (if sint c < 0x80 \<or> c AND 0xFFFFF800 = 0xD800 \<or> c AND 0xFFFFFFFE = 0xFFFE then 0xFFFD else c, z)
         else (ucast b, z))"

lemma continuation_loop_length: "length (snd (continuation_loop c z)) \<le> length z"
  by (induction c z rule: continuation_loop.induct) auto

lemma READ_UTF8_length: "z \<noteq> [] \<Longrightarrow> length (snd (READ_UTF8 z)) < length z"
  using continuation_loop_length [of "ucast (sqlite3Utf8Trans1 ! unat (at z 0 - 0xC0))" "drop 1 z"]
  by (cases z) (auto simp: READ_UTF8_def Let_def split: prod.splits)

text \<open>The loops of the translation, from UTF-8 and from UTF-16, with the writer and the reader they use.\<close>

function from_utf8 :: "(u32 \<Rightarrow> byte list) \<Rightarrow> byte list \<Rightarrow> byte list" where
  "from_utf8 wr z = (if z = [] then [] else let (c, z') = READ_UTF8 z in wr c @ from_utf8 wr z')"
  by pat_completeness auto
termination
proof (relation "measure (\<lambda>(wr, z). length z)")
  fix z x c z'
  assume "z \<noteq> []" "x = READ_UTF8 z" "(c, z') = x"
  then show "((wr, z'), (wr, z)) \<in> measure (\<lambda>(wr, z). length z)" for wr :: "u32 \<Rightarrow> byte list"
    using READ_UTF8_length [of z] by (auto simp: prod_eq_iff)
qed simp

definition read_utf16 :: "encoding \<Rightarrow> byte list \<Rightarrow> u32 \<times> byte list" where
  "read_utf16 enc z =
     (if enc = SQLITE_UTF16LE then READ_UTF16LE z (\<lambda>z. z \<noteq> []) else READ_UTF16BE z (\<lambda>z. z \<noteq> []))"

lemma read_utf16_length: "length (snd (read_utf16 enc z)) \<le> length z - 2"
  by (auto simp: read_utf16_def READ_UTF16LE_def READ_UTF16BE_def Let_def)

function from_utf16 :: "encoding \<Rightarrow> (u32 \<Rightarrow> byte list) \<Rightarrow> byte list \<Rightarrow> byte list" where
  "from_utf16 enc wr z = (if z = [] then [] else let (c, z') = read_utf16 enc z in wr c @ from_utf16 enc wr z')"
  by pat_completeness auto
termination
proof (relation "measure (\<lambda>(enc, wr, z). length z)")
  fix enc z x c z'
  assume "z \<noteq> []" "x = read_utf16 enc z" "(c, z') = x"
  then show "((enc, wr, z'), (enc, wr, z)) \<in> measure (\<lambda>(enc, wr, z). length z)" for wr :: "u32 \<Rightarrow> byte list"
    using read_utf16_length [of enc z] by (cases z) (auto simp: prod_eq_iff)
qed simp

declare from_utf8.simps [simp del] from_utf16.simps [simp del]

text \<open>
  The first \<open>mem_n\<close> bytes of \<open>mem_z\<close> are the text; terminators may follow. The library keeps texts within
  \<open>SQLITE_MAX_LENGTH\<close>, which is \<open>10 ^ 9\<close>, so that the size of the output buffer fits an \<open>int\<close>.
\<close>

record Mem =
  mem_z :: "byte list"
  mem_n :: nat
  mem_enc :: encoding

fun swap_bytes :: "byte list \<Rightarrow> byte list" where
  "swap_bytes (a # b # z) = b # a # swap_bytes z"
| "swap_bytes z = z"

definition translate_len :: "encoding \<Rightarrow> nat \<Rightarrow> nat" where
  "translate_len desiredEnc n = (if desiredEnc = SQLITE_UTF8 then n * 2 + 1 else n * 2 + 2)"

text \<open>
  \<open>sqlite3VdbeMemTranslate\<close>, given which allocations succeed: making the value writeable for the first case,
  the output buffer of a given size for the others.
\<close>

definition sqlite3VdbeMemTranslate :: "bool \<Rightarrow> (nat \<Rightarrow> bool) \<Rightarrow> Mem \<Rightarrow> encoding \<Rightarrow> nat \<times> Mem" where
  "sqlite3VdbeMemTranslate writeable malloc pMem desiredEnc =
     (if mem_enc pMem \<noteq> SQLITE_UTF8 \<and> desiredEnc \<noteq> SQLITE_UTF8 then
        if \<not> writeable then (SQLITE_NOMEM, pMem)
        else let k = mem_n pMem - mem_n pMem mod 2
             in (SQLITE_OK, pMem\<lparr>mem_z := swap_bytes (take k (mem_z pMem)) @ drop k (mem_z pMem), mem_enc := desiredEnc\<rparr>)
      else
        let n = (if desiredEnc = SQLITE_UTF8 then mem_n pMem - mem_n pMem mod 2 else mem_n pMem);
            pMem = pMem\<lparr>mem_n := n\<rparr>
        in if \<not> malloc (translate_len desiredEnc n) then (SQLITE_NOMEM, pMem)
           else let zIn = take n (mem_z pMem);
                    zOut = (if mem_enc pMem = SQLITE_UTF8
                            then from_utf8 (if desiredEnc = SQLITE_UTF16LE then WRITE_UTF16LE else WRITE_UTF16BE) zIn
                            else from_utf16 (mem_enc pMem) WRITE_UTF8 zIn)
                in (SQLITE_OK, pMem\<lparr>mem_z := zOut @ (if mem_enc pMem = SQLITE_UTF8 then [0, 0] else [0]),
                                    mem_n := length zOut, mem_enc := desiredEnc\<rparr>))"

definition sqlite3VdbeMemHandleBom :: "bool \<Rightarrow> Mem \<Rightarrow> nat \<times> Mem" where
  "sqlite3VdbeMemHandleBom writeable pMem =
     (let n = mem_n pMem; b1 = at (mem_z pMem) 0; b2 = at (mem_z pMem) 1;
          bom = (if 1 < n then
                   if b1 = 0xFF \<and> b2 = 0xFE then Some SQLITE_UTF16LE
                   else if b1 = 0xFE \<and> b2 = 0xFF then Some SQLITE_UTF16BE else None
                 else None)
      in case bom of
           None \<Rightarrow> (SQLITE_OK, pMem)
         | Some enc \<Rightarrow>
             if \<not> writeable then (SQLITE_NOMEM, pMem)
             else (SQLITE_OK, pMem\<lparr>mem_n := n - 2,
                     mem_z := take (n - 2) (drop 2 (mem_z pMem)) @ [0, 0] @ drop n (mem_z pMem), mem_enc := enc\<rparr>))"

text \<open>\<open>SQLITE_SKIP_UTF8\<close>, and the count of characters in the first \<open>k\<close> bytes.\<close>

definition SQLITE_SKIP_UTF8 :: "byte list \<Rightarrow> byte list" where
  "SQLITE_SKIP_UTF8 z = (if 0xC0 \<le> at z 0 then dropWhile (\<lambda>b. b AND 0xC0 = 0x80) (drop 1 z) else drop 1 z)"

lemma SKIP_UTF8_length: "at z 0 \<noteq> 0 \<Longrightarrow> length (SQLITE_SKIP_UTF8 z) < length z"
  using length_dropWhile_le [of "\<lambda>b. b AND 0xC0 = 0x80" "drop 1 z"]
  by (cases z) (auto simp: SQLITE_SKIP_UTF8_def)

function char_len_loop :: "byte list \<Rightarrow> int \<Rightarrow> nat" where
  "char_len_loop z k =
     (if at z 0 \<noteq> 0 \<and> 0 < k
      then let z' = SQLITE_SKIP_UTF8 z in Suc (char_len_loop z' (k - (int (length z) - int (length z'))))
      else 0)"
  by pat_completeness auto
termination by (relation "measure (\<lambda>(z, k). length z)") (auto dest: SKIP_UTF8_length)

declare char_len_loop.simps [simp del]

definition sqlite3Utf8CharLen :: "byte list \<Rightarrow> int \<Rightarrow> nat" where
  "sqlite3Utf8CharLen zIn nByte = char_len_loop zIn (if 0 \<le> nByte then nByte else int (length zIn) + 1)"

fun skip_utf16 :: "bool \<Rightarrow> byte list \<Rightarrow> nat \<Rightarrow> byte list" where
  "skip_utf16 big z 0 = z"
| "skip_utf16 big z (Suc n) =
     skip_utf16 big (snd (if big then READ_UTF16BE z (\<lambda>_. True) else READ_UTF16LE z (\<lambda>_. True))) n"

definition sqlite3Utf16ByteLen :: "bool \<Rightarrow> byte list \<Rightarrow> nat \<Rightarrow> nat" where
  "sqlite3Utf16ByteLen big zIn nChar = length zIn - length (skip_utf16 big zIn nChar)"

section \<open>One character\<close>

lemma disjoint_add: "(\<And>n. n < LENGTH('a) \<Longrightarrow> \<not> (bit a n \<and> bit b n)) \<Longrightarrow> a + b = a OR (b :: 'a::len word)"
  by (rule disjunctive_add_eq_or) (rule bit_word_eqI, simp add: bit_simps)

lemma high_bits: "unat c < 2 ^ k \<Longrightarrow> bit (c :: u32) n \<Longrightarrow> n < k"
proof (rule ccontr)
  assume c: "unat c < 2 ^ k" and b: "bit c n" and k: "\<not> n < k"
  have "take_bit k (unat c) = unat c" using c by (simp add: take_bit_nat_eq_self_iff)
  moreover have "bit (unat c) n" using b by (simp add: bit_unsigned_iff)
  ultimately show False using k by (metis bit_take_bit_iff)
qed

lemma masks: "(x :: 'a::len word) AND 0x3F = take_bit 6 x" "x AND 0x1F = take_bit 5 x" "x AND 0x0F = take_bit 4 x"
  "x AND 0x07 = take_bit 3 x" "x AND 0xFF = take_bit 8 x" "x AND 0x03 = take_bit 2 x" "x AND 0x3FF = take_bit 10 x"
  by (simp_all add: take_bit_eq_mask mask_eq_exp_minus_1)

lemma trans1:
  "unat y < 32 \<Longrightarrow> 0xC0 \<le> 0xC0 + y \<and> sqlite3Utf8Trans1 ! unat (0xC0 + y - 0xC0) = y"
  "unat y < 16 \<Longrightarrow> 0xC0 \<le> 0xE0 + y \<and> sqlite3Utf8Trans1 ! unat (0xE0 + y - 0xC0) = y"
  "unat y < 8 \<Longrightarrow> 0xC0 \<le> 0xF0 + y \<and> sqlite3Utf8Trans1 ! unat (0xF0 + y - 0xC0) = y"
proof -
  have all: "list_all (\<lambda>k. let y = word_of_nat k in 0xC0 \<le> 0xC0 + y \<and> sqlite3Utf8Trans1 ! unat (0xC0 + y - 0xC0) = y) [0..<32]"
    "list_all (\<lambda>k. let y = word_of_nat k in 0xC0 \<le> 0xE0 + y \<and> sqlite3Utf8Trans1 ! unat (0xE0 + y - 0xC0) = y) [0..<16]"
    "list_all (\<lambda>k. let y = word_of_nat k in 0xC0 \<le> 0xF0 + y \<and> sqlite3Utf8Trans1 ! unat (0xF0 + y - 0xC0) = y) [0..<8]"
    by code_simp+
  have *: "list_all (\<lambda>k. P (word_of_nat k)) [0..<m] \<Longrightarrow> unat y < m \<Longrightarrow> P y" for P m
  proof -
    have "word_of_nat (unat y) = y" by simp
    then show "list_all (\<lambda>k. P (word_of_nat k)) [0..<m] \<Longrightarrow> unat y < m \<Longrightarrow> P y"
      by (metis atLeastLessThan_iff list_all_iff set_upt zero_le)
  qed
  show "unat y < 32 \<Longrightarrow> 0xC0 \<le> 0xC0 + y \<and> sqlite3Utf8Trans1 ! unat (0xC0 + y - 0xC0) = y"
    using * [OF all(1) [unfolded Let_def]] .
  show "unat y < 16 \<Longrightarrow> 0xC0 \<le> 0xE0 + y \<and> sqlite3Utf8Trans1 ! unat (0xE0 + y - 0xC0) = y"
    using * [OF all(2) [unfolded Let_def]] .
  show "unat y < 8 \<Longrightarrow> 0xC0 \<le> 0xF0 + y \<and> sqlite3Utf8Trans1 ! unat (0xF0 + y - 0xC0) = y"
    using * [OF all(3) [unfolded Let_def]] .
qed

lemma take_bit_less: "unat (ucast (take_bit k (x :: u32)) :: byte) < 2 ^ k"
  by (simp add: unsigned_ucast_eq unsigned_take_bit_eq) (rule less_le_trans [OF take_bit_nat_less_exp], simp)

lemma lead_bytes:
  "0xC0 \<le> 0xC0 + (ucast (x AND 0x1F) :: byte)" "ucast (sqlite3Utf8Trans1 ! unat (0xC0 + ucast (x AND 0x1F) - 0xC0 :: byte)) = x AND 0x1F"
  "0xC0 \<le> 0xE0 + (ucast (x AND 0x0F) :: byte)" "ucast (sqlite3Utf8Trans1 ! unat (0xE0 + ucast (x AND 0x0F) - 0xC0 :: byte)) = x AND 0x0F"
  "0xC0 \<le> 0xF0 + (ucast (x AND 0x07) :: byte)" "ucast (sqlite3Utf8Trans1 ! unat (0xF0 + ucast (x AND 0x07) - 0xC0 :: byte)) = x AND 0x07"
  for x :: u32
proof -
  have u: "ucast (ucast (take_bit k x) :: byte) = take_bit k x" if "k \<le> 8" for k
    using that by (intro bit_word_eqI) (auto simp: bit_simps)
  have y: "unat (ucast (x AND 0x1F) :: byte) < 32" "unat (ucast (x AND 0x0F) :: byte) < 16" "unat (ucast (x AND 0x07) :: byte) < 8"
    using take_bit_less [of 5 x] take_bit_less [of 4 x] take_bit_less [of 3 x] by (simp_all only: masks) simp_all
  note t = trans1(1) [OF y(1)] trans1(2) [OF y(2)] trans1(3) [OF y(3)]
  show "0xC0 \<le> 0xC0 + (ucast (x AND 0x1F) :: byte)" "0xC0 \<le> 0xE0 + (ucast (x AND 0x0F) :: byte)"
    "0xC0 \<le> 0xF0 + (ucast (x AND 0x07) :: byte)" using t by blast+
  show "ucast (sqlite3Utf8Trans1 ! unat (0xC0 + ucast (x AND 0x1F) - 0xC0 :: byte)) = x AND 0x1F"
    unfolding t(1) [THEN conjunct2] unfolding masks by (rule u) simp
  show "ucast (sqlite3Utf8Trans1 ! unat (0xE0 + ucast (x AND 0x0F) - 0xC0 :: byte)) = x AND 0x0F"
    unfolding t(2) [THEN conjunct2] unfolding masks by (rule u) simp
  show "ucast (sqlite3Utf8Trans1 ! unat (0xF0 + ucast (x AND 0x07) - 0xC0 :: byte)) = x AND 0x07"
    unfolding t(3) [THEN conjunct2] unfolding masks by (rule u) simp
qed

lemma tail_byte:
  "(0x80 + ucast (x AND 0x3F)) AND 0xC0 = (0x80 :: byte)" "0x3F AND ucast (0x80 + ucast (x AND 0x3F) :: byte) = x AND 0x3F"
  for x :: u32
proof -
  have or: "(0x80 :: byte) + ucast (x AND 0x3F) = push_bit 7 1 OR ucast (take_bit 6 x)"
  proof -
    have "(0x80 :: byte) = push_bit 7 1" by simp
    then show ?thesis unfolding masks by (simp only:) (rule disjoint_add, auto simp: bit_simps bit_0x80)
  qed
  have c0: "(0xC0 :: byte) = push_bit 6 (mask 2)" by (simp add: mask_eq_exp_minus_1)
  have "(push_bit 7 1 OR ucast (take_bit 6 x)) AND push_bit 6 (mask 2) = (push_bit 7 1 :: byte)"
    by (rule bit_word_eqI) (auto simp: bit_simps bit_0x80)
  then show "(0x80 + ucast (x AND 0x3F)) AND 0xC0 = (0x80 :: byte)"
    unfolding or c0 by simp
  show "0x3F AND ucast (0x80 + ucast (x AND 0x3F) :: byte) = x AND 0x3F"
    unfolding or unfolding and.commute [of "0x3F"] masks by (rule bit_word_eqI) (auto simp: bit_simps bit_0x80)
qed

lemma tail_sum: "push_bit 6 x + (y AND 0x3F) = push_bit 6 x OR (y AND 0x3F)" for x y :: u32
  unfolding masks by (rule disjoint_add) (auto simp: bit_simps)

lemma utf8_value_2: "unat c < 2 ^ 11 \<Longrightarrow> push_bit 6 (drop_bit 6 c AND 0x1F) + (c AND 0x3F) = c" for c :: u32
  unfolding tail_sum unfolding masks
  by (rule bit_word_eqI) (use high_bits [of c 11] in \<open>auto simp: bit_simps dest: bit_shift; fastforce\<close>)

lemma utf8_value_3: "unat c < 2 ^ 16 \<Longrightarrow>
    push_bit 6 (push_bit 6 (drop_bit 12 c AND 0x0F) + (drop_bit 6 c AND 0x3F)) + (c AND 0x3F) = c" for c :: u32
  unfolding tail_sum unfolding masks
  by (rule bit_word_eqI) (use high_bits [of c 16] in \<open>auto simp: bit_simps dest: bit_shift; fastforce\<close>)

lemma utf8_value_4: "unat c < 2 ^ 21 \<Longrightarrow>
    push_bit 6 (push_bit 6 (push_bit 6 (drop_bit 18 c AND 0x07) + (drop_bit 12 c AND 0x3F))
     + (drop_bit 6 c AND 0x3F)) + (c AND 0x3F) = c" for c :: u32
  unfolding tail_sum unfolding masks
  by (rule bit_word_eqI) (use high_bits [of c 21] in \<open>auto simp: bit_simps dest: bit_shift; fastforce\<close>)

text \<open>Unicode scalar values; UTF-8 readers replace the last two of the basic plane as well.\<close>

definition scalar :: "u32 \<Rightarrow> bool" where
  "scalar c \<longleftrightarrow> c < 0x110000 \<and> \<not> (0xD800 \<le> c \<and> c < 0xE000)"

definition utf8_char :: "u32 \<Rightarrow> bool" where
  "utf8_char c \<longleftrightarrow> scalar c \<and> c \<noteq> 0xFFFE \<and> c \<noteq> 0xFFFF"

lemma masked_eq:
  fixes c m :: u32
  assumes "m = push_bit k (mask (32 - k))" and "k < 32"
  shows "c AND m = push_bit k (word_of_nat j) \<Longrightarrow> j < 2 ^ (32 - k) \<Longrightarrow> unat c div 2 ^ k = j"
proof -
  assume eq: "c AND m = push_bit k (word_of_nat j)" and j: "j < 2 ^ (32 - k)"
  have "(2 :: nat) ^ (32 - k) \<le> 2 ^ 32" by (rule power_increasing) simp_all
  with j have j32: "j < 2 ^ 32" by (rule less_le_trans)
  have "drop_bit k c = drop_bit k (c AND m)"
    unfolding assms(1) using assms(2) by (intro bit_word_eqI) (auto simp: bit_simps dest: bit_imp_le_length)
  also have "\<dots> = word_of_nat j"
  proof -
    have "unat (word_of_nat j :: u32) < 2 ^ (32 - k)" using j j32 by (simp add: unat_word_of_nat_32)
    then have "n < 32 - k" if "bit (word_of_nat j :: u32) n" for n using high_bits that by blast
    then show ?thesis unfolding eq using assms(2)
      by (intro bit_word_eqI) (fastforce simp: bit_drop_bit_eq bit_push_bit_iff)
  qed
  finally have "unat (drop_bit k c) = j"
    using j32 by (simp add: unat_word_of_nat_32)
  then show "unat c div 2 ^ k = j" by (simp only: unat_drop_bit_eq) (simp add: drop_bit_eq_div)
qed

definition utf8_start :: "byte list \<Rightarrow> bool" where
  "utf8_start z \<longleftrightarrow> z = [] \<or> hd z AND 0xC0 \<noteq> 0x80"

lemma continuation_loop_stop: "utf8_start z \<Longrightarrow> continuation_loop c z = (c, z)"
  by (cases z) (auto simp: utf8_start_def)

lemma continuation_loop_tail:
  "continuation_loop c ((0x80 + ucast (x AND 0x3F)) # z) = continuation_loop (push_bit 6 c + (x AND 0x3F)) z" for x :: u32
  by (simp only: continuation_loop.simps tail_byte if_True simp_thms)

lemma at_Cons: "at (c # z) 0 = c" "drop 1 (c # z) = z"
  by simp_all

lemma decode_multibyte:
  assumes "0x80 \<le> c" and "unat c < 0x110000" and "utf8_start z"
  obtains b y where "WRITE_UTF8 c @ z = b # y" "0xC0 \<le> b"
    "continuation_loop (ucast (sqlite3Utf8Trans1 ! unat (b - 0xC0))) y = (c, z)"
proof -
  note stop = continuation_loop_stop [OF assms(3)]
  consider "unat c < 0x800" | "0x800 \<le> unat c" "unat c < 0x10000" | "0x10000 \<le> unat c"
    by linarith
  then show thesis
  proof cases
    case 1
    then have c: "\<not> c < 0x80" "c < 0x800" using assms(1) by (simp_all add: word_less_nat_alt word_le_nat_alt)
    have "unat c < 2 ^ 11" using 1 by simp
    note v = utf8_value_2 [OF this]
    show thesis
      by (rule that [of "0xC0 + ucast (drop_bit 6 c AND 0x1F)" "(0x80 + ucast (c AND 0x3F)) # z"])
        (simp_all only: WRITE_UTF8_def c if_True if_False append_Cons append_Nil lead_bytes continuation_loop_tail v stop)
  next
    case 2
    then have c: "\<not> c < 0x80" "\<not> c < 0x800" "c < 0x10000" using assms(1) by (simp_all add: word_less_nat_alt word_le_nat_alt)
    have "unat c < 2 ^ 16" using 2 by simp
    note v = utf8_value_3 [OF this]
    show thesis
      by (rule that [of "0xE0 + ucast (drop_bit 12 c AND 0x0F)"
            "(0x80 + ucast (drop_bit 6 c AND 0x3F)) # (0x80 + ucast (c AND 0x3F)) # z"])
        (simp_all only: WRITE_UTF8_def c if_True if_False append_Cons append_Nil lead_bytes continuation_loop_tail v stop)
  next
    case 3
    then have c: "\<not> c < 0x80" "\<not> c < 0x800" "\<not> c < 0x10000" using assms(1) by (simp_all add: word_less_nat_alt word_le_nat_alt)
    have "unat c < 2 ^ 21" using assms(2) by simp
    note v = utf8_value_4 [OF this]
    show thesis
      by (rule that [of "0xF0 + ucast (drop_bit 18 c AND 0x07)"
            "(0x80 + ucast (drop_bit 12 c AND 0x3F)) # (0x80 + ucast (drop_bit 6 c AND 0x3F)) # (0x80 + ucast (c AND 0x3F)) # z"])
        (simp_all only: WRITE_UTF8_def c if_True if_False append_Cons append_Nil lead_bytes continuation_loop_tail v stop)
  qed
qed

lemma single_byte:
  fixes c :: u32
  assumes "c < 0x80"
  shows "WRITE_UTF8 c @ z = ucast c # z" "\<not> 0xC0 \<le> (ucast c :: byte)" "ucast (ucast c :: byte) = c"
proof -
  have c: "unat c < 0x80" using assms by (simp add: word_less_nat_alt)
  have "take_bit 8 c = c"
    by (rule bit_word_eqI) (use high_bits [of c 7] c in \<open>fastforce simp: bit_simps\<close>)
  then show "WRITE_UTF8 c @ z = ucast c # z" using assms by (simp add: WRITE_UTF8_def masks)
  show "ucast (ucast c :: byte) = c"
    by (rule bit_word_eqI) (use high_bits [of c 7] c in \<open>fastforce simp: bit_simps\<close>)
  have "unat (ucast c :: byte) \<le> unat c"
    by (simp add: unsigned_ucast_eq take_bit_nat_less_eq_self)
  with c show "\<not> 0xC0 \<le> (ucast c :: byte)" by (simp add: word_le_nat_alt)
qed

text \<open>What a reader makes of any code below \<open>0x110000\<close>.\<close>

definition replaced :: "u32 \<Rightarrow> bool" where
  "replaced c \<longleftrightarrow> (0xD800 \<le> c \<and> c \<le> 0xDFFF) \<or> c AND 0xFFFFFFFE = 0xFFFE"

lemma surrogate_mask: "c AND 0xFFFFF800 = 0xD800 \<longleftrightarrow> 0xD800 \<le> c \<and> c \<le> 0xDFFF" for c :: u32
proof
  assume "c AND 0xFFFFF800 = 0xD800"
  then have "unat c div 2 ^ 11 = 27" by (intro masked_eq) (simp_all add: mask_eq_exp_minus_1)
  then have "55296 \<le> unat c" "unat c < 57344" by simp_all
  then show "0xD800 \<le> c \<and> c \<le> 0xDFFF" by (simp add: word_le_nat_alt)
next
  assume "0xD800 \<le> c \<and> c \<le> 0xDFFF"
  then have "55296 \<le> unat c" "unat c < 57344" by (simp_all add: word_le_nat_alt)
  then have "unat c div 2 ^ 11 = 27" by (intro div_nat_eqI) simp_all
  then have "unat (drop_bit 11 c) = 27" by (simp only: unat_drop_bit_eq) (simp add: drop_bit_eq_div)
  then have d: "drop_bit 11 c = 27" by (simp add: word_unat_eq_iff)
  have m: "(0xFFFFF800 :: u32) = push_bit 11 (mask 21)" by (simp add: mask_eq_exp_minus_1)
  have "c AND 0xFFFFF800 = push_bit 11 (drop_bit 11 c)"
    unfolding m by (rule bit_word_eqI) (auto simp: bit_simps dest: bit_shift)
  then show "c AND 0xFFFFF800 = 0xD800" unfolding d by simp
qed

lemma READ_UTF8_any:
  assumes "unat c < 0x110000" and "utf8_start z"
  shows "READ_UTF8 (WRITE_UTF8 c @ z) = (if replaced c then 0xFFFD else c, z)"
    "sqlite3Utf8Read (WRITE_UTF8 c @ z) = (if replaced c then 0xFFFD else c, z)"
proof -
  have "READ_UTF8 (WRITE_UTF8 c @ z) = (if replaced c then 0xFFFD else c, z) \<and>
    sqlite3Utf8Read (WRITE_UTF8 c @ z) = (if replaced c then 0xFFFD else c, z)"
  proof (cases "c < 0x80")
    case True
    have "take_bit 1 (0xFFFE :: u32) = 0" by simp
    have "\<not> replaced c"
    proof
      assume "replaced c"
      then have "0xD800 \<le> unat c \<or> c AND 0xFFFFFFFE = 0xFFFE" by (auto simp: replaced_def word_le_nat_alt)
      moreover have "unat (c AND 0xFFFFFFFE) \<le> unat c" using word_and_le2 by (simp add: word_le_nat_alt [symmetric])
      ultimately show False using True by (auto simp: word_less_nat_alt)
    qed
    then show ?thesis
      unfolding single_byte(1) [OF True] READ_UTF8_def sqlite3Utf8Read_def Let_def at_Cons
      by (simp add: single_byte(2,3) [OF True])
  next
    case False
    then have "0x80 \<le> c" by simp
    then obtain b y where w: "WRITE_UTF8 c @ z = b # y" "0xC0 \<le> b"
        "continuation_loop (ucast (sqlite3Utf8Trans1 ! unat (b - 0xC0))) y = (c, z)"
      using decode_multibyte [OF _ assms] by blast
    have "sint c = uint c"
    proof -
      have "int (unat c) < int (2 ^ 31)" unfolding of_nat_less_iff using assms(1) by simp
      then have "uint c < 2 ^ 31" by simp
      moreover have "- (2 ^ 31) \<le> uint c" by (rule order_trans [of _ 0]) simp_all
      ultimately have "signed_take_bit 31 (uint c) = uint c" by (intro signed_take_bit_int_eq_self) simp_all
      then show ?thesis by (simp add: sint_uint)
    qed
    then have s: "sint c < 0x80 \<longleftrightarrow> c < 0x80" by (simp add: word_less_def)
    show ?thesis using False w(2)
      unfolding w(1) READ_UTF8_def sqlite3Utf8Read_def Let_def at_Cons
      by (simp add: w(3) s surrogate_mask replaced_def)
  qed
  then show "READ_UTF8 (WRITE_UTF8 c @ z) = (if replaced c then 0xFFFD else c, z)"
    "sqlite3Utf8Read (WRITE_UTF8 c @ z) = (if replaced c then 0xFFFD else c, z)" by blast+
qed

lemma utf8_char_not_replaced: "utf8_char c \<Longrightarrow> \<not> replaced c"
proof
  assume c: "utf8_char c" and "replaced c"
  moreover have "c AND 0xFFFFFFFE = 0xFFFE \<Longrightarrow> c = 0xFFFE \<or> c = 0xFFFF"
  proof -
    assume "c AND 0xFFFFFFFE = 0xFFFE"
    then have "unat c div 2 ^ 1 = 32767" by (intro masked_eq) (simp_all add: mask_eq_exp_minus_1)
    then have "unat c = 65534 \<or> unat c = 65535" by simp linarith
    then show ?thesis by (auto simp: word_unat_eq_iff)
  qed
  ultimately show False by (auto simp: replaced_def utf8_char_def scalar_def word_le_nat_alt word_less_nat_alt)
qed

lemma READ_UTF8_WRITE_UTF8: "utf8_char c \<Longrightarrow> utf8_start z \<Longrightarrow> READ_UTF8 (WRITE_UTF8 c @ z) = (c, z)"
  using READ_UTF8_any(1) [of c z] utf8_char_not_replaced
  by (simp add: utf8_char_def scalar_def word_less_nat_alt)

lemma le16_bytes: "le16 (b0 # b1 # z) = ucast b0 OR push_bit 8 (ucast b1)"
  unfolding le16_def by (simp only: at_simps One_nat_def, rule disjoint_add)
    (auto simp: bit_simps dest: bit_imp_le_length)

lemma be16_bytes: "be16 (b1 # b0 # z) = ucast b0 OR push_bit 8 (ucast b1)"
  using le16_bytes [of b0 b1 z] by (simp add: be16_def le16_def add.commute)

lemma bmp_unit: "unat c < 2 ^ 16 \<Longrightarrow> ucast (ucast (c AND 0xFF) :: byte) OR push_bit 8 (ucast (ucast (drop_bit 8 c AND 0xFF) :: byte)) = c"
  for c :: u32
  unfolding masks
  by (rule bit_word_eqI) (use high_bits [of c 16] in \<open>auto simp: bit_simps dest: bit_shift; fastforce\<close>)

text \<open>The two units of a character beyond the basic plane, \<open>d\<close> being its distance from it.\<close>

definition unit1 :: "u32 \<Rightarrow> u32" where "unit1 d = push_bit 11 27 OR drop_bit 10 d"
definition unit2 :: "u32 \<Rightarrow> u32" where "unit2 d = push_bit 10 55 OR take_bit 10 d"

lemma low16: "take_bit 16 (d + 0x10000) = take_bit 16 (d :: u32)"
  by (simp add: word_unat_eq_iff unsigned_take_bit_eq unat_word_ariths take_bit_eq_mod mod_mod_cancel)

lemma low_parts:
  "drop_bit 10 (d + 0x10000) AND 0x3F = drop_bit 10 d AND 0x3F" "(d + 0x10000) AND 0xFF = d AND 0xFF"
  "drop_bit 8 (d + 0x10000) AND 0x03 = drop_bit 8 d AND 0x03" for d :: u32
proof -
  have "bit (d + 0x10000) n = bit d n" if "n < 16" for n
    using low16 [of d] that by (metis bit_take_bit_iff)
  then show "drop_bit 10 (d + 0x10000) AND 0x3F = drop_bit 10 d AND 0x3F" "(d + 0x10000) AND 0xFF = d AND 0xFF"
    "drop_bit 8 (d + 0x10000) AND 0x03 = drop_bit 8 d AND 0x03"
    unfolding masks by (auto simp: bit_take_bit_iff bit_drop_bit_eq intro!: bit_word_eqI)
qed

lemma unit1_bytes:
  fixes d :: u32
  assumes "unat d < 2 ^ 20"
  shows "ucast (ucast ((drop_bit 10 d AND 0x3F) + (drop_bit 10 d AND 0xC0)) :: byte) OR
     push_bit 8 (ucast (ucast (0xD8 + (drop_bit 18 d AND 0x03)) :: byte)) = unit1 d"
proof -
  have c0: "(0xC0 :: u32) = push_bit 6 (mask 2)" by (simp add: mask_eq_exp_minus_1)
  have 1: "(drop_bit 10 d AND 0x3F) + (drop_bit 10 d AND 0xC0) = (drop_bit 10 d AND 0x3F) OR (drop_bit 10 d AND 0xC0)"
    unfolding masks c0 by (rule disjoint_add) (auto simp: bit_simps)
  have "\<not> (bit (0xD8 :: u32) n \<and> n < 2)" for n
    by (cases "n = 0 \<or> n = 1") auto
  then have 2: "0xD8 + (drop_bit 18 d AND 0x03) = 0xD8 OR (drop_bit 18 d AND 0x03)"
    unfolding masks by (intro disjoint_add) (auto simp: bit_take_bit_iff)
  have "\<not> bit d n" if "20 \<le> n" for n using high_bits [OF assms] that by fastforce
  then show ?thesis
    unfolding 1 2 unit1_def by (intro word_eq_upt) (simp add: upt_32 bit_simps bit_byte)
qed

lemma unit2_bytes:
  fixes d :: u32
  shows "ucast (ucast (d AND 0xFF) :: byte) OR push_bit 8 (ucast (ucast (0xDC + (drop_bit 8 d AND 0x03)) :: byte)) = unit2 d"
proof -
  have "\<not> (bit (0xDC :: u32) n \<and> n < 2)" for n
    by (cases "n = 0 \<or> n = 1") auto
  then have "0xDC + (drop_bit 8 d AND 0x03) = 0xDC OR (drop_bit 8 d AND 0x03)"
    unfolding masks by (intro disjoint_add) (auto simp: bit_take_bit_iff)
  then show ?thesis
    unfolding unit2_def by (simp only:) (intro word_eq_upt, simp add: upt_32 bit_simps bit_byte)
qed

lemma surrogates_units:
  assumes "unat d < 2 ^ 20"
  shows "surrogates (unit1 d) (unit2 d) = d + 0x10000"
proof -
  have high: "\<not> bit d n" if "20 \<le> n" for n using high_bits [OF assms] that by fastforce
  have "push_bit 10 ((unit1 d AND 0x3C0) + 0x40) = push_bit 10 (unit1 d AND 0x3C0) + 0x10000"
    by (simp add: push_bit_add)
  moreover have "(unit2 d AND 0x3FF) + push_bit 10 (unit1 d AND 0x3F) + push_bit 10 (unit1 d AND 0x3C0)
      = (unit2 d AND 0x3FF) OR push_bit 10 (unit1 d AND 0x3F) OR push_bit 10 (unit1 d AND 0x3C0)"
  proof -
    have c: "(0x3C0 :: u32) = push_bit 6 (mask 4)" by (simp add: mask_eq_exp_minus_1)
    have "(unit2 d AND 0x3FF) + push_bit 10 (unit1 d AND 0x3F) = (unit2 d AND 0x3FF) OR push_bit 10 (unit1 d AND 0x3F)"
      unfolding masks by (rule disjoint_add) (auto simp: bit_simps)
    moreover have "((unit2 d AND 0x3FF) OR push_bit 10 (unit1 d AND 0x3F)) + push_bit 10 (unit1 d AND 0x3C0) =
        ((unit2 d AND 0x3FF) OR push_bit 10 (unit1 d AND 0x3F)) OR push_bit 10 (unit1 d AND 0x3C0)"
      unfolding masks c by (rule disjoint_add) (auto simp: bit_simps)
    ultimately show ?thesis by (simp only: or.assoc)
  qed
  moreover have "(unit2 d AND 0x3FF) OR push_bit 10 (unit1 d AND 0x3F) OR push_bit 10 (unit1 d AND 0x3C0) = d"
    unfolding unit1_def unit2_def using high by (intro word_eq_upt) (simp add: upt_32 bit_simps)
  ultimately show ?thesis unfolding surrogates_def by (simp only: add.assoc [symmetric])
qed

lemma unit1_range: "unat d < 2 ^ 20 \<Longrightarrow> 0xD800 \<le> unit1 d \<and> unit1 d < 0xE000"
proof -
  assume d: "unat d < 2 ^ 20"
  have "unat (drop_bit 10 d) = unat d div 2 ^ 10" by (simp only: unat_drop_bit_eq) (simp add: drop_bit_eq_div)
  then have less: "unat (drop_bit 10 d) < 2 ^ 10" using d by (simp add: less_mult_imp_div_less)
  have "push_bit 11 27 + drop_bit 10 d = push_bit 11 27 OR (drop_bit 10 d :: u32)"
  proof (rule disjoint_add)
    fix n
    show "\<not> (bit (push_bit 11 27 :: u32) n \<and> bit (drop_bit 10 d) n)"
      using high_bits [OF less, of n] by (simp only: bit_push_bit_iff) auto
  qed
  then have "unit1 d = 0xD800 + drop_bit 10 d" by (simp add: unit1_def)
  moreover have "unat (0xD800 + drop_bit 10 d) = 0xD800 + unat (drop_bit 10 d)"
    using less by (subst unat_word_ariths) simp
  ultimately show ?thesis using less by (simp add: word_le_nat_alt word_less_nat_alt)
qed

lemma beyond_bmp:
  assumes "scalar c" and "\<not> c \<le> 0xFFFF"
  obtains d where "c = d + 0x10000" "unat d < 2 ^ 20"
proof
  show "c = (c - 0x10000) + 0x10000" by simp
  have "unat c < 0x110000" "0x10000 \<le> unat c"
    using assms by (simp_all add: scalar_def word_less_nat_alt word_le_nat_alt)
  then show "unat (c - 0x10000) < 2 ^ 20" by (simp add: unat_sub word_le_nat_alt)
qed

lemma not_surrogate: "scalar c \<Longrightarrow> (0xD800 \<le> c \<and> c < 0xE000 \<and> P) = False"
  by (auto simp: scalar_def)

lemma bmp_less: "c \<le> 0xFFFF \<Longrightarrow> unat (c :: u32) < 2 ^ 16"
  by (simp add: word_le_nat_alt)

lemma drop_2: "drop 2 (a # b # z) = z"
  by (simp add: numeral_2_eq_2)

lemma READ_UTF16LE_WRITE: "scalar c \<Longrightarrow> READ_UTF16LE (WRITE_UTF16LE c @ z) (\<lambda>z. z \<noteq> []) = (c, z)"
proof (cases "c \<le> 0xFFFF")
  case True
  assume c: "scalar c"
  show ?thesis
    by (simp only: READ_UTF16LE_def WRITE_UTF16LE_def True if_True if_False append_Cons append_Nil Let_def le16_bytes drop_2
        bmp_unit [OF bmp_less [OF True]] not_surrogate [OF c])
next
  case False
  assume "scalar c"
  then obtain d where d: "c = d + 0x10000" "unat d < 2 ^ 20" using beyond_bmp False by blast
  note range = unit1_range [OF d(2)]
  show ?thesis
    using False unfolding d(1)
    by (simp only: READ_UTF16LE_def WRITE_UTF16LE_def if_False append_Cons append_Nil Let_def le16_bytes drop_2
        add_diff_cancel_right' low_parts unit1_bytes [OF d(2)] unit2_bytes surrogates_units [OF d(2)] range simp_thms if_True list.distinct)
qed

lemma READ_UTF16BE_WRITE: "scalar c \<Longrightarrow> READ_UTF16BE (WRITE_UTF16BE c @ z) (\<lambda>z. z \<noteq> []) = (c, z)"
proof (cases "c \<le> 0xFFFF")
  case True
  assume c: "scalar c"
  show ?thesis
    by (simp only: READ_UTF16BE_def WRITE_UTF16BE_def True if_True if_False append_Cons append_Nil Let_def be16_bytes drop_2
        bmp_unit [OF bmp_less [OF True]] not_surrogate [OF c])
next
  case False
  assume "scalar c"
  then obtain d where d: "c = d + 0x10000" "unat d < 2 ^ 20" using beyond_bmp False by blast
  note range = unit1_range [OF d(2)]
  show ?thesis
    using False unfolding d(1)
    by (simp only: READ_UTF16BE_def WRITE_UTF16BE_def if_False append_Cons append_Nil Let_def be16_bytes drop_2
        add_diff_cancel_right' low_parts unit1_bytes [OF d(2)] unit2_bytes surrogates_units [OF d(2)] range simp_thms if_True list.distinct)
qed

section \<open>Texts\<close>

text \<open>
  What the translation asks of an encoding: a character that was written is read back when the rest of the
  text begins as a text may, and the loop reads one character after the other.
\<close>

locale char_encoding =
  fixes valid :: "u32 \<Rightarrow> bool" and starts :: "byte list \<Rightarrow> bool"
    and wr :: "u32 \<Rightarrow> byte list" and rd :: "byte list \<Rightarrow> u32 \<times> byte list"
    and loop :: "(u32 \<Rightarrow> byte list) \<Rightarrow> byte list \<Rightarrow> byte list"
  assumes read_write: "valid c \<Longrightarrow> starts z \<Longrightarrow> rd (wr c @ z) = (c, z)"
    and starts_Nil: "starts []"
    and starts_write: "valid c \<Longrightarrow> starts (wr c @ z)"
    and write_neq_Nil: "wr c \<noteq> []"
    and loop_Nil: "loop f [] = []"
    and loop_read: "z \<noteq> [] \<Longrightarrow> loop f z = (let (c, z') = rd z in f c @ loop f z')"
begin

lemma starts_text: "list_all valid cs \<Longrightarrow> starts (concat (map wr cs))"
  by (cases cs) (simp_all add: starts_Nil starts_write)

lemma loop_text: "list_all valid cs \<Longrightarrow> loop f (concat (map wr cs)) = concat (map f cs)"
proof (induction cs)
  case (Cons c cs)
  then have "rd (wr c @ concat (map wr cs)) = (c, concat (map wr cs))"
    by (intro read_write starts_text) simp_all
  then show ?case using Cons by (simp add: loop_read write_neq_Nil)
qed (simp add: loop_Nil)

lemma text_inject:
  "list_all valid cs \<Longrightarrow> list_all valid ds \<Longrightarrow> concat (map wr cs) = concat (map wr ds) \<Longrightarrow> cs = ds"
proof (induction cs arbitrary: ds)
  case Nil
  then show ?case by (cases ds) (simp_all add: write_neq_Nil)
next
  case (Cons c cs)
  have "ds \<noteq> []" using Cons.prems(3) by (auto simp: write_neq_Nil)
  then obtain d ds' where ds: "ds = d # ds'" by (cases ds) simp_all
  have "wr c @ concat (map wr cs) = wr d @ concat (map wr ds')" using Cons.prems(3) ds by simp
  then have "rd (wr c @ concat (map wr cs)) = rd (wr d @ concat (map wr ds'))" by (rule arg_cong)
  moreover have "rd (wr c @ concat (map wr cs)) = (c, concat (map wr cs))"
    by (rule read_write [OF _ starts_text]) (use Cons.prems(1) in simp_all)
  moreover have "rd (wr d @ concat (map wr ds')) = (d, concat (map wr ds'))"
    by (rule read_write [OF _ starts_text]) (use Cons.prems(2) ds in simp_all)
  ultimately have eq: "c = d" "concat (map wr cs) = concat (map wr ds')" by simp_all
  have "cs = ds'" by (rule Cons.IH [OF _ _ eq(2)]) (use Cons.prems(1,2) ds in simp_all)
  with eq(1) ds show ?case by simp
qed

end

lemma start_byte: "b AND 0xC0 = (0x80 :: byte) \<longleftrightarrow> bit b 7 \<and> \<not> bit b 6"
proof -
  have "b AND 0xC0 = (0x80 :: byte) \<longleftrightarrow> (\<forall>n\<in>set [0..<8]. bit (b AND 0xC0) n = bit (0x80 :: byte) n)"
    using word_eq_upt [of "b AND 0xC0" "0x80"] by auto
  moreover have "[0..<8] = [0 :: nat, 1, 2, 3, 4, 5, 6, 7]" by (simp add: upt_rec)
  ultimately show ?thesis by (auto simp: bit_simps)
qed

lemma lead_bits: "0xC0 \<le> b \<longleftrightarrow> bit b 7 \<and> bit b 6" for b :: byte
proof -
  have "list_all (\<lambda>k. 0xC0 \<le> (word_of_nat k :: byte) \<longleftrightarrow> bit (word_of_nat k :: byte) 7 \<and> bit (word_of_nat k :: byte) 6) [0..<256]"
    by code_simp
  moreover have "unat b \<in> set [0..<256]" using unsigned_less [of b, where ?'a = nat] by simp
  ultimately have "0xC0 \<le> (word_of_nat (unat b) :: byte) \<longleftrightarrow> bit (word_of_nat (unat b) :: byte) 7 \<and> bit (word_of_nat (unat b) :: byte) 6"
    unfolding list_all_iff by (rule bspec)
  then show ?thesis by simp
qed

lemma WRITE_UTF8_start: "utf8_start (WRITE_UTF8 c @ z)"
proof -
  have "\<not> bit (ucast (c AND 0xFF) :: byte) 7" if "c < 0x80"
    using high_bits [of c 7 7] that by (auto simp: bit_simps masks word_less_nat_alt)
  then show ?thesis
    using lead_bytes(1,3,5) unfolding lead_bits
    by (auto simp: utf8_start_def WRITE_UTF8_def start_byte simp del: bit_ucast_iff)
qed

lemma WRITE_neq_Nil: "WRITE_UTF8 c \<noteq> []" "WRITE_UTF16LE c \<noteq> []" "WRITE_UTF16BE c \<noteq> []"
  by (simp_all add: WRITE_UTF8_def WRITE_UTF16LE_def WRITE_UTF16BE_def)

lemma from_utf8_simps: "from_utf8 f [] = []" "z \<noteq> [] \<Longrightarrow> from_utf8 f z = (let (c, z') = READ_UTF8 z in f c @ from_utf8 f z')"
  by (simp_all add: from_utf8.simps [of f])

lemma from_utf16_simps: "from_utf16 enc f [] = []"
  "z \<noteq> [] \<Longrightarrow> from_utf16 enc f z = (let (c, z') = read_utf16 enc z in f c @ from_utf16 enc f z')"
  by (simp_all add: from_utf16.simps [of enc f])

interpretation utf8: char_encoding utf8_char utf8_start WRITE_UTF8 READ_UTF8 from_utf8
  by unfold_locales (simp_all add: READ_UTF8_WRITE_UTF8 WRITE_UTF8_start WRITE_neq_Nil from_utf8_simps utf8_start_def [of "[]"])

interpretation utf16le: char_encoding scalar "\<lambda>_. True" WRITE_UTF16LE "read_utf16 SQLITE_UTF16LE" "from_utf16 SQLITE_UTF16LE"
  by unfold_locales (simp_all add: read_utf16_def READ_UTF16LE_WRITE WRITE_neq_Nil from_utf16_simps)

interpretation utf16be: char_encoding scalar "\<lambda>_. True" WRITE_UTF16BE "read_utf16 SQLITE_UTF16BE" "from_utf16 SQLITE_UTF16BE"
  by unfold_locales (simp_all add: read_utf16_def READ_UTF16BE_WRITE WRITE_neq_Nil from_utf16_simps)

section \<open>Lengths\<close>

lemma continuation_loop_consumes:
  "snd (continuation_loop c z) = z \<and> fst (continuation_loop c z) = c \<or> length (snd (continuation_loop c z)) < length z"
proof (cases z)
  case (Cons b y)
  then show ?thesis using continuation_loop_length [of "push_bit 6 c + (0x3F AND ucast b)" y] by simp
qed simp

lemma trans1_small: "0xC0 \<le> b \<Longrightarrow> unat (sqlite3Utf8Trans1 ! unat (b - 0xC0)) < 0x80" for b :: byte
proof -
  assume b: "0xC0 \<le> b"
  then have "unat (b - 0xC0) = unat b - 0xC0" by (simp add: unat_sub)
  then have "unat (b - 0xC0) < length sqlite3Utf8Trans1"
    using unsigned_less [of b, where ?'a = nat] by (simp add: sqlite3Utf8Trans1_def)
  moreover have "list_all (\<lambda>t. unat t < 0x80) sqlite3Utf8Trans1" by code_simp
  ultimately show ?thesis by (simp add: list_all_length)
qed

lemma READ_UTF8_consumes:
  assumes "READ_UTF8 z = (c, z')" and "z \<noteq> []"
  shows "(if c \<le> 0xFFFF then 2 else 4) + 2 * length z' \<le> 2 * length z"
proof -
  obtain b y where z: "z = b # y" using assms(2) by (cases z) auto
  have small: "ucast b \<le> (0xFFFF :: u32)"
    using unsigned_less [of b, where ?'a = nat] by (simp add: word_le_nat_alt unsigned_ucast_eq take_bit_nat_eq_self)
  show ?thesis
  proof (cases "0xC0 \<le> b")
    case False
    then show ?thesis using assms(1) z small by (auto simp: READ_UTF8_def)
  next
    case True
    define x :: u32 where "x = ucast (sqlite3Utf8Trans1 ! unat (b - 0xC0))"
    obtain c0 where loop: "continuation_loop x y = (c0, z')"
      and c: "c = (if c0 < 0x80 \<or> c0 AND 0xFFFFF800 = 0xD800 \<or> c0 AND 0xFFFFFFFE = 0xFFFE then 0xFFFD else c0)"
      using assms(1) True by (auto simp: READ_UTF8_def z Let_def x_def split: prod.splits)
    from continuation_loop_consumes [of x y] loop consider "z' = y" "c0 = x" | "length z' < length y" by auto
    then show ?thesis
    proof cases
      case 1
      have "x < 0x80"
        using trans1_small [OF True] by (simp add: x_def word_less_nat_alt unsigned_ucast_eq take_bit_nat_eq_self)
      then have "c = 0xFFFD" using 1 c by simp
      then show ?thesis using 1 z by simp
    next
      case 2
      then show ?thesis using z by simp
    qed
  qed
qed

lemma length_WRITE_UTF16: "length (WRITE_UTF16LE c) = (if c \<le> 0xFFFF then 2 else 4)"
  "length (WRITE_UTF16BE c) = (if c \<le> 0xFFFF then 2 else 4)"
  by (simp_all add: WRITE_UTF16LE_def WRITE_UTF16BE_def)

lemma length_WRITE_UTF8: "length (WRITE_UTF8 c) \<le> 4"
  by (simp add: WRITE_UTF8_def)

lemma length_from_utf8:
  assumes "\<And>c. length (f c) = (if c \<le> 0xFFFF then 2 else 4)"
  shows "length (from_utf8 f z) \<le> 2 * length z"
proof (induction z rule: length_induct)
  case (1 z)
  show ?case
  proof (cases "z = []")
    case False
    obtain c z' where r: "READ_UTF8 z = (c, z')" by fastforce
    have "length (from_utf8 f z') \<le> 2 * length z'" using 1 READ_UTF8_length [OF False] r by simp
    then show ?thesis using READ_UTF8_consumes [OF r False] False r assms [of c] by (simp add: from_utf8_simps)
  qed (simp add: from_utf8_simps)
qed

lemma read_utf16_even: "even (length z) \<Longrightarrow> even (length (snd (read_utf16 enc z)))"
  by (cases z rule: swap_bytes.cases) (auto simp: read_utf16_def READ_UTF16LE_def READ_UTF16BE_def Let_def)

lemma length_from_utf16: "even (length z) \<Longrightarrow> length (from_utf16 enc WRITE_UTF8 z) \<le> 2 * length z"
proof (induction z rule: length_induct)
  case (1 z)
  show ?case
  proof (cases "z = []")
    case False
    obtain c z' where r: "read_utf16 enc z = (c, z')" by fastforce
    have "2 \<le> length z" using 1(2) False by (cases z rule: swap_bytes.cases) auto
    moreover have "length z' \<le> length z - 2" using read_utf16_length [of enc z] r by simp
    moreover have "even (length z')" using read_utf16_even [OF 1(2), of enc] r by simp
    moreover have "length (WRITE_UTF8 c) \<le> 4" by (rule length_WRITE_UTF8)
    ultimately have "length (from_utf16 enc WRITE_UTF8 z') \<le> 2 * length z'" using 1(1) by simp
    then show ?thesis
      using \<open>2 \<le> length z\<close> \<open>length z' \<le> length z - 2\<close> \<open>length (WRITE_UTF8 c) \<le> 4\<close> False r
      by (simp add: from_utf16_simps)
  qed (simp add: from_utf16_simps)
qed

section \<open>Translation of texts\<close>

definition text_in :: "encoding \<Rightarrow> u32 list \<Rightarrow> byte list" where
  "text_in enc cs =
     concat (map (case enc of SQLITE_UTF8 \<Rightarrow> WRITE_UTF8 | SQLITE_UTF16LE \<Rightarrow> WRITE_UTF16LE
                  | SQLITE_UTF16BE \<Rightarrow> WRITE_UTF16BE) cs)"

lemma list_all_scalar: "list_all utf8_char cs \<Longrightarrow> list_all scalar cs"
  by (auto simp: list_all_iff utf8_char_def)

lemma swap_text:
  "swap_bytes (text_in SQLITE_UTF16LE cs) = text_in SQLITE_UTF16BE cs"
  "swap_bytes (text_in SQLITE_UTF16BE cs) = text_in SQLITE_UTF16LE cs"
  by (induction cs) (simp_all add: text_in_def WRITE_UTF16LE_def WRITE_UTF16BE_def)

lemma even_text: "enc \<noteq> SQLITE_UTF8 \<Longrightarrow> even (length (text_in enc cs))"
  by (cases enc; induction cs) (simp_all add: text_in_def length_WRITE_UTF16)

lemma length_swap_bytes [simp]: "length (swap_bytes z) = length z"
  by (induction z rule: swap_bytes.induct) simp_all

text \<open>
  C39: The translation between UTF-8 and the two byte orders of UTF-16 keeps the characters of every text, and
  what it writes, the terminator included, fits the buffer whose size it computes, whatever bytes the value has.
\<close>

theorem sqlite3VdbeMemTranslate_correct:
  assumes "mem_n m \<le> length (mem_z m)" and "mem_enc m \<noteq> enc"
    and "n = (if enc = SQLITE_UTF8 then mem_n m - mem_n m mod 2 else mem_n m)" and "malloc (translate_len enc n)"
  shows "\<exists>m'. sqlite3VdbeMemTranslate True malloc m enc = (SQLITE_OK, m') \<and>
    mem_enc m' = enc \<and> mem_n m' \<le> length (mem_z m') \<and>
    (mem_enc m = SQLITE_UTF8 \<or> enc = SQLITE_UTF8 \<longrightarrow> length (mem_z m') \<le> translate_len enc n) \<and>
    (\<forall>cs. list_all utf8_char cs \<longrightarrow> take (mem_n m) (mem_z m) = text_in (mem_enc m) cs \<longrightarrow>
       take (mem_n m') (mem_z m') = text_in enc cs)"
proof -
  let ?z = "take n (mem_z m)"
  have n: "n \<le> mem_n m" "length ?z = n" using assms(1,3) by auto
  have even: "mem_n m mod 2 = 0" if "take (mem_n m) (mem_z m) = text_in (mem_enc m) cs" "mem_enc m \<noteq> SQLITE_UTF8" for cs
  proof -
    have "length (take (mem_n m) (mem_z m)) = mem_n m" using assms(1) by simp
    then show ?thesis using even_text [OF that(2), of cs] that(1) by (metis even_iff_mod_2_eq_zero)
  qed
  consider "mem_enc m \<noteq> SQLITE_UTF8" "enc \<noteq> SQLITE_UTF8" | "mem_enc m = SQLITE_UTF8" "enc \<noteq> SQLITE_UTF8"
    | "mem_enc m \<noteq> SQLITE_UTF8" "enc = SQLITE_UTF8"
    using assms(2) by auto
  then show ?thesis
  proof cases
    case 1
    define k where "k = mem_n m - mem_n m mod 2"
    have swap: "swap_bytes (text_in (mem_enc m) cs) = text_in enc cs" for cs
      using 1 assms(2) swap_text by (cases "mem_enc m"; cases enc) auto
    have "take (mem_n m) (swap_bytes (take k (mem_z m)) @ drop k (mem_z m)) = text_in enc cs"
      if t: "take (mem_n m) (mem_z m) = text_in (mem_enc m) cs" for cs
    proof -
      have "k = mem_n m" using even [OF t 1(1)] by (simp add: k_def)
      moreover have "length (swap_bytes (take (mem_n m) (mem_z m))) = mem_n m" using assms(1) by simp
      ultimately show ?thesis using swap [of cs] t by (metis append_eq_conv_conj)
    qed
    then show ?thesis using 1 assms(1)
      by (simp add: sqlite3VdbeMemTranslate_def Let_def k_def [symmetric])
  next
    case 2
    let ?f = "if enc = SQLITE_UTF16LE then WRITE_UTF16LE else WRITE_UTF16BE"
    have "length (from_utf8 ?f ?z) \<le> 2 * n"
      using length_from_utf8 [of ?f ?z] n(2) by (simp add: length_WRITE_UTF16 split: if_splits)
    moreover have "from_utf8 ?f (text_in SQLITE_UTF8 cs) = text_in enc cs" if "list_all utf8_char cs" for cs
      using utf8.loop_text [OF that, of ?f] 2(2) by (cases enc) (simp_all add: text_in_def)
    moreover have "n = mem_n m" using 2 assms(3) by simp
    ultimately show ?thesis using 2 assms(4)
      by (auto simp: sqlite3VdbeMemTranslate_def Let_def translate_len_def)
  next
    case 3
    have "even n" using assms(3) 3 by simp
    then have "length (from_utf16 (mem_enc m) WRITE_UTF8 ?z) \<le> 2 * n"
      using length_from_utf16 [of ?z "mem_enc m"] n(2) by simp
    moreover have "from_utf16 (mem_enc m) WRITE_UTF8 (text_in (mem_enc m) cs) = text_in SQLITE_UTF8 cs"
      if "list_all utf8_char cs" for cs
      using utf16le.loop_text [OF list_all_scalar [OF that], of WRITE_UTF8]
        utf16be.loop_text [OF list_all_scalar [OF that], of WRITE_UTF8] 3(1)
      by (cases "mem_enc m") (simp_all add: text_in_def)
    moreover have "n = mem_n m" if "take (mem_n m) (mem_z m) = text_in (mem_enc m) cs" for cs
      using even [OF that 3(1)] assms(3) by simp
    ultimately show ?thesis using 3 assms(3,4)
      by (auto simp: sqlite3VdbeMemTranslate_def Let_def translate_len_def)
  qed
qed

theorem sqlite3VdbeMemTranslate_correct_witness:
  "\<exists>m'. sqlite3VdbeMemTranslate True (\<lambda>k. k \<le> 8) \<lparr>mem_z = [0x41, 0xC3, 0xA9, 0], mem_n = 3, mem_enc = SQLITE_UTF8\<rparr> SQLITE_UTF16LE
     = (SQLITE_OK, m') \<and> take (mem_n m') (mem_z m') = [0x41, 0, 0xE9, 0]"
proof -
  let ?m = "\<lparr>mem_z = [0x41, 0xC3, 0xA9, 0], mem_n = 3, mem_enc = SQLITE_UTF8\<rparr>"
  have cs: "list_all utf8_char [0x41, 0xE9]" "take (mem_n ?m) (mem_z ?m) = text_in (mem_enc ?m) [0x41, 0xE9]"
    "text_in SQLITE_UTF16LE [0x41, 0xE9] = [0x41, 0, 0xE9, 0]"
    by code_simp+
  have "\<exists>m'. sqlite3VdbeMemTranslate True (\<lambda>k. k \<le> 8) ?m SQLITE_UTF16LE = (SQLITE_OK, m') \<and>
      (\<forall>cs. list_all utf8_char cs \<longrightarrow> take (mem_n ?m) (mem_z ?m) = text_in (mem_enc ?m) cs \<longrightarrow>
         take (mem_n m') (mem_z m') = text_in SQLITE_UTF16LE cs)"
    using sqlite3VdbeMemTranslate_correct [of ?m SQLITE_UTF16LE 3 "\<lambda>k. k \<le> 8"]
    by (simp add: translate_len_def) blast
  with cs show ?thesis by metis
qed

text \<open>The self test; the buffer holds the character, a NUL and what was in it before.\<close>

definition utf8_self_test :: "byte list \<Rightarrow> u32 \<Rightarrow> bool" where
  "utf8_self_test junk i =
     (let zBuf = WRITE_UTF8 i; n = length zBuf;
          (c, z) = sqlite3Utf8Read (zBuf @ 0 # junk);
          t = (if 0xD800 \<le> i \<and> i \<le> 0xDFFF then 0xFFFD else i);
          t = (if i AND 0xFFFFFFFE = 0xFFFE then 0xFFFD else t)
      in 0 < n \<and> n \<le> 4 \<and> c = t \<and> length (zBuf @ 0 # junk) - length z = n)"

definition utf16_self_test :: "byte list \<Rightarrow> u32 \<Rightarrow> bool" where
  "utf16_self_test junk i =
     (if 0xD800 \<le> i \<and> i < 0xE000 then True
      else
        let le = WRITE_UTF16LE i; be = WRITE_UTF16BE i;
            (c, z) = READ_UTF16LE (le @ 0 # junk) (\<lambda>_. True);
            (c', z') = READ_UTF16BE (be @ 0 # junk) (\<lambda>_. True)
        in 0 < length le \<and> length le \<le> 4 \<and> c = i \<and> length (le @ 0 # junk) - length z = length le \<and>
           0 < length be \<and> length be \<le> 4 \<and> c' = i \<and> length (be @ 0 # junk) - length z' = length be)"

definition sqlite3UtfSelfTest :: "byte list \<Rightarrow> bool" where
  "sqlite3UtfSelfTest junk \<longleftrightarrow>
     list_all (\<lambda>i. utf8_self_test junk (word_of_nat i)) [0..<0x110000] \<and>
     list_all (\<lambda>i. utf16_self_test junk (word_of_nat i)) [0..<0x110000]"

lemma utf16_reads: "scalar c \<Longrightarrow> z \<noteq> [] \<Longrightarrow> READ_UTF16LE (WRITE_UTF16LE c @ z) (\<lambda>_. True) = (c, z)"
  "scalar c \<Longrightarrow> z \<noteq> [] \<Longrightarrow> READ_UTF16BE (WRITE_UTF16BE c @ z) (\<lambda>_. True) = (c, z)"
proof -
  have le: "READ_UTF16LE y (\<lambda>_. True) = READ_UTF16LE y (\<lambda>z. z \<noteq> [])" if "drop 2 y \<noteq> []" for y
    using that by (simp add: READ_UTF16LE_def Let_def)
  have be: "READ_UTF16BE y (\<lambda>_. True) = READ_UTF16BE y (\<lambda>z. z \<noteq> [])" if "drop 2 y \<noteq> []" for y
    using that by (simp add: READ_UTF16BE_def Let_def)
  assume c: "scalar c" and z: "z \<noteq> []"
  then have "0 < length z" by simp
  then have d: "drop 2 (WRITE_UTF16LE c @ z) \<noteq> []" "drop 2 (WRITE_UTF16BE c @ z) \<noteq> []"
    by (auto simp: length_WRITE_UTF16 simp flip: length_greater_0_conv)
  show "READ_UTF16LE (WRITE_UTF16LE c @ z) (\<lambda>_. True) = (c, z)" "READ_UTF16BE (WRITE_UTF16BE c @ z) (\<lambda>_. True) = (c, z)"
    by (simp_all only: le [OF d(1)] be [OF d(2)] READ_UTF16LE_WRITE [OF c] READ_UTF16BE_WRITE [OF c])
qed

lemma WRITE_UTF8_pos: "0 < length (WRITE_UTF8 c)"
  by (simp add: WRITE_UTF8_def)

text \<open>
  C40: The self test of the library, which writes and reads back every code point in the three encodings, finds
  no mistake: surrogates and the two noncharacters of the basic plane are read from UTF-8 as U+FFFD, every other
  code point as itself, and each reader stops where the character ends.
\<close>

theorem sqlite3UtfSelfTest_passes: "sqlite3UtfSelfTest junk"
proof -
  have code: "unat (word_of_nat i :: u32) = i" if "i < 0x110000" for i
    using that by (simp add: unat_word_of_nat_32)
  have start: "utf8_start (0 # junk)" by (simp add: utf8_start_def)
  have "utf8_self_test junk c" if "unat c < 0x110000" for c
    using READ_UTF8_any(2) [OF that start] WRITE_UTF8_pos [of c] length_WRITE_UTF8 [of c]
    by (simp add: utf8_self_test_def Let_def replaced_def)
  moreover have "utf16_self_test junk c" if "unat c < 0x110000" for c
  proof (cases "0xD800 \<le> c \<and> c < 0xE000")
    case False
    then have "scalar c" using that by (simp add: scalar_def word_less_nat_alt)
    then show ?thesis using utf16_reads [of c "0 # junk"] WRITE_neq_Nil [of c]
      by (simp add: utf16_self_test_def Let_def length_WRITE_UTF16)
  qed (simp add: utf16_self_test_def)
  ultimately show ?thesis using code by (simp add: sqlite3UtfSelfTest_def list_all_iff)
qed

section \<open>Lengths of texts\<close>

lemma SKIP_UTF8_eq: "z \<noteq> [] \<Longrightarrow> SQLITE_SKIP_UTF8 z = snd (READ_UTF8 z)"
proof -
  have "snd (continuation_loop c y) = dropWhile (\<lambda>b. b AND 0xC0 = 0x80) y" for c y
    by (induction c y rule: continuation_loop.induct) auto
  then show ?thesis
    by (auto simp: SQLITE_SKIP_UTF8_def READ_UTF8_def Let_def split: prod.split) (metis snd_conv)
qed

lemma WRITE_UTF8_nonzero: "utf8_char c \<Longrightarrow> c \<noteq> 0 \<Longrightarrow> at (WRITE_UTF8 c @ z) 0 \<noteq> 0"
proof (cases "c < 0x80")
  case True
  assume "c \<noteq> 0"
  then show ?thesis using single_byte(1,3) [OF True] by auto
next
  case False
  assume "utf8_char c"
  then have "unat c < 0x110000" by (simp add: utf8_char_def scalar_def word_less_nat_alt)
  moreover have "0x80 \<le> c" "utf8_start []" using False by (simp_all add: utf8_start_def)
  ultimately obtain b y where "WRITE_UTF8 c @ [] = b # y" "0xC0 \<le> b"
    using decode_multibyte [of c "[]"] by blast
  then show ?thesis by auto
qed

theorem sqlite3Utf8CharLen_counts:
  "list_all utf8_char cs \<Longrightarrow> 0 \<notin> set cs \<Longrightarrow> int (length (text_in SQLITE_UTF8 cs)) \<le> k \<Longrightarrow>
     char_len_loop (text_in SQLITE_UTF8 cs) k = length cs"
proof (induction cs arbitrary: k)
  case Nil
  show ?case by (simp add: text_in_def char_len_loop.simps)
next
  case (Cons c cs)
  let ?t = "text_in SQLITE_UTF8 cs"
  have t: "text_in SQLITE_UTF8 (c # cs) = WRITE_UTF8 c @ ?t" by (simp add: text_in_def)
  have "utf8_start ?t" using utf8.starts_text Cons.prems(1) by (simp add: text_in_def)
  then have skip: "SQLITE_SKIP_UTF8 (WRITE_UTF8 c @ ?t) = ?t"
    using Cons.prems(1) by (simp add: SKIP_UTF8_eq WRITE_neq_Nil READ_UTF8_WRITE_UTF8)
  have "at (WRITE_UTF8 c @ ?t) 0 \<noteq> 0" using Cons.prems by (intro WRITE_UTF8_nonzero) auto
  moreover have "0 < k" using Cons.prems(3) WRITE_UTF8_pos [of c] by (simp only: t length_append)
  ultimately have "char_len_loop (WRITE_UTF8 c @ ?t) k = Suc (char_len_loop ?t (k - int (length (WRITE_UTF8 c))))"
    by (subst char_len_loop.simps) (simp add: skip)
  moreover have "char_len_loop ?t (k - int (length (WRITE_UTF8 c))) = length cs"
    using Cons t by simp
  ultimately show ?case by (simp add: t)
qed

lemma skip_utf16_text:
  "list_all scalar cs \<Longrightarrow> skip_utf16 True (concat (map WRITE_UTF16BE cs) @ 0 # z) (length cs) = 0 # z"
  "list_all scalar cs \<Longrightarrow> skip_utf16 False (concat (map WRITE_UTF16LE cs) @ 0 # z) (length cs) = 0 # z"
  by (induction cs) (simp_all add: utf16_reads)

text \<open>A byte-order mark is removed and sets the encoding.\<close>

lemma sqlite3VdbeMemHandleBom_removes:
  assumes "mem_z m = WRITE_UTF16BE 0xFEFF @ z" and "mem_n m = 2 + length z"
  shows "sqlite3VdbeMemHandleBom True m = (SQLITE_OK, m\<lparr>mem_z := z @ [0, 0], mem_n := length z, mem_enc := SQLITE_UTF16BE\<rparr>)"
proof -
  have "WRITE_UTF16BE 0xFEFF = [0xFE, 0xFF]" by code_simp
  with assms show ?thesis by (simp add: sqlite3VdbeMemHandleBom_def Let_def)
qed

section \<open>Translation in place\<close>

text \<open>
  \<open>sqlite3Utf8To8\<close> reads and writes one buffer; \<open>None\<close> is an access beyond its end.
\<close>

definition store_at :: "byte list \<Rightarrow> nat \<Rightarrow> byte list \<Rightarrow> byte list option" where
  "store_at buf i bs =
     (if i + length bs \<le> length buf then Some (take i buf @ bs @ drop (i + length bs) buf) else None)"

lemma length_store_at: "store_at buf i bs = Some buf' \<Longrightarrow> length buf' = length buf"
  by (auto simp: store_at_def split: if_splits)

lemma sqlite3Utf8Read_length: "z \<noteq> [] \<Longrightarrow> length (snd (sqlite3Utf8Read z)) < length z"
  using continuation_loop_length [of "ucast (sqlite3Utf8Trans1 ! unat (at z 0 - 0xC0))" "drop 1 z"]
  by (cases z) (auto simp: sqlite3Utf8Read_def Let_def split: prod.splits)

function utf8to8_loop :: "byte list \<Rightarrow> nat \<Rightarrow> nat \<Rightarrow> (nat \<times> byte list) option" where
  "utf8to8_loop buf zIn zOut =
     (if length buf \<le> zIn then None
      else if buf ! zIn = 0 then map_option (\<lambda>buf. (zOut, buf)) (store_at buf zOut [0])
      else
        let (c, z) = sqlite3Utf8Read (drop zIn buf);
            zIn' = length buf - length z
        in if c \<noteq> 0xFFFD then
             case store_at buf zOut (WRITE_UTF8 c) of
               None \<Rightarrow> None
             | Some buf' \<Rightarrow> utf8to8_loop buf' zIn' (zOut + length (WRITE_UTF8 c))
           else utf8to8_loop buf zIn' zOut)"
  by pat_completeness auto
termination
proof (relation "measure (\<lambda>(buf, zIn, zOut). length buf - zIn)")
  fix buf zIn x c z zIn'
  assume a: "\<not> length buf \<le> zIn" "x = sqlite3Utf8Read (drop zIn buf)" "(c, z) = x" "zIn' = length buf - length z"
  then have less: "length buf - zIn' < length buf - zIn"
    using sqlite3Utf8Read_length [of "drop zIn buf"] by (auto simp: prod_eq_iff)
  then show "((buf, zIn', zOut), (buf, zIn, zOut)) \<in> measure (\<lambda>(buf, zIn, zOut). length buf - zIn)" for zOut :: nat
    by simp
  show "((buf', zIn', zOut'), (buf, zIn, zOut)) \<in> measure (\<lambda>(buf, zIn, zOut). length buf - zIn)"
    if "store_at buf zOut (WRITE_UTF8 c) = Some buf'" for buf' and zOut zOut' :: nat
    using less length_store_at [OF that] by simp
qed simp

definition sqlite3Utf8To8 :: "byte list \<Rightarrow> (nat \<times> byte list) option" where
  "sqlite3Utf8To8 buf = utf8to8_loop buf 0 0"

declare utf8to8_loop.simps [simp del]

text \<open>
  A byte that cannot start a character is read as itself but written as two bytes: the output overtakes the
  input, overwrites the terminator and runs out of the buffer.
\<close>

lemma sqlite3Utf8To8_overruns: "sqlite3Utf8To8 [0x80, 0] = None"
  by code_simp

text \<open>A text without such bytes stays what it is.\<close>

lemma sqlite3Utf8Read_WRITE_UTF8: "utf8_char c \<Longrightarrow> utf8_start z \<Longrightarrow> sqlite3Utf8Read (WRITE_UTF8 c @ z) = (c, z)"
  using READ_UTF8_any(2) [of c z] utf8_char_not_replaced [of c]
  by (simp add: utf8_char_def scalar_def word_less_nat_alt)

lemma utf8_start_NUL: "utf8_start z \<Longrightarrow> utf8_start (z @ [0])"
  by (cases z) (auto simp: utf8_start_def)

lemma utf8to8_loop_keeps:
  "list_all utf8_char cs \<Longrightarrow> 0 \<notin> set cs \<Longrightarrow> 0xFFFD \<notin> set cs \<Longrightarrow>
   utf8to8_loop (pre @ text_in SQLITE_UTF8 cs @ [0]) (length pre) (length pre) =
     Some (length (pre @ text_in SQLITE_UTF8 cs), pre @ text_in SQLITE_UTF8 cs @ [0])"
proof (induction cs arbitrary: pre)
  case Nil
  show ?case
    by (simp add: text_in_def utf8to8_loop.simps store_at_def)
next
  case (Cons c cs)
  let ?w = "WRITE_UTF8 c" and ?t = "text_in SQLITE_UTF8 cs @ [0]"
  have t: "text_in SQLITE_UTF8 (c # cs) @ [0] = ?w @ ?t"
    by (simp add: text_in_def)
  have "at (?w @ ?t) 0 \<noteq> 0"
    using Cons.prems by (intro WRITE_UTF8_nonzero) auto
  then have "(pre @ ?w @ ?t) ! length pre \<noteq> 0"
    by (simp add: nth_append at_def WRITE_UTF8_pos)
  moreover have "utf8_start ?t"
    using utf8.starts_text [of cs] Cons.prems(1)
    by (auto simp: text_in_def intro: utf8_start_NUL)
  then have "sqlite3Utf8Read (?w @ ?t) = (c, ?t)"
    using Cons.prems(1) by (intro sqlite3Utf8Read_WRITE_UTF8) auto
  moreover have "store_at (pre @ ?w @ ?t) (length pre) ?w = Some (pre @ ?w @ ?t)"
    by (simp add: store_at_def)
  ultimately have "utf8to8_loop (pre @ ?w @ ?t) (length pre) (length pre) =
      utf8to8_loop ((pre @ ?w) @ ?t) (length (pre @ ?w)) (length (pre @ ?w))"
    using Cons.prems(3) by (subst utf8to8_loop.simps) simp
  also have "\<dots> = Some (length (pre @ ?w @ text_in SQLITE_UTF8 cs), pre @ ?w @ ?t)"
    using Cons.IH [of "pre @ ?w"] Cons.prems by simp
  finally show ?case
    by (simp add: text_in_def)
qed

lemma sqlite3Utf8To8_keeps:
  "list_all utf8_char cs \<Longrightarrow> 0 \<notin> set cs \<Longrightarrow> 0xFFFD \<notin> set cs \<Longrightarrow>
   sqlite3Utf8To8 (text_in SQLITE_UTF8 cs @ [0]) = Some (length (text_in SQLITE_UTF8 cs), text_in SQLITE_UTF8 cs @ [0])"
  using utf8to8_loop_keeps [of cs "[]"] by (simp add: sqlite3Utf8To8_def)

end
