(* ===== verification/Sqlite_Pattern.thy ===== *)
theory Sqlite_Pattern
  imports Sqlite_Utf
begin

text \<open>
  The operators LIKE and GLOB of the SQLite library: \<open>patternCompare\<close> and \<open>likeFunc\<close> of \<open>func.c\<close>, against a
  reference that first parses the pattern and then matches it by its definition. Texts are bytes of UTF-8; a
  position is what is left of a text, whose end reads as a NUL.
\<close>

section \<open>The code\<close>

record compareInfo =
  matchAll :: byte
  matchOne :: byte
  matchSet :: byte
  noCase :: bool

definition globInfo :: compareInfo where
  "globInfo = \<lparr>matchAll = 0x2A, matchOne = 0x3F, matchSet = 0x5B, noCase = False\<rparr>"

definition likeInfoNorm :: compareInfo where
  "likeInfoNorm = \<lparr>matchAll = 0x25, matchOne = 0x5F, matchSet = 0, noCase = True\<rparr>"

definition likeInfoAlt :: compareInfo where
  "likeInfoAlt = \<lparr>matchAll = 0x25, matchOne = 0x5F, matchSet = 0, noCase = False\<rparr>"

text \<open>The readers never return a negative number, so the comparisons of the signed \<open>c\<close> are written on words.\<close>

definition GlogUpperToLower :: "u32 \<Rightarrow> u32" where
  "GlogUpperToLower a = (if a < 0x80 then ucast (sqlite3UpperToLower ! unat a) else a)"

definition fold_case :: "compareInfo \<Rightarrow> u32 \<Rightarrow> u32" where
  "fold_case pInfo c = (if noCase pInfo then GlogUpperToLower c else c)"

lemma sqlite3Utf8Read_shorter: "z \<noteq> [] \<Longrightarrow> sqlite3Utf8Read z = (c, z') \<Longrightarrow> length z' < length z"
  using sqlite3Utf8Read_length [of z] by simp

lemma sqlite3Utf8Read_twice:
  "z \<noteq> [] \<Longrightarrow> snd (sqlite3Utf8Read z) \<noteq> [] \<Longrightarrow> length (snd (sqlite3Utf8Read (snd (sqlite3Utf8Read z)))) < length z"
  by (meson less_trans sqlite3Utf8Read_length)

text \<open>
  The characters that follow a \<open>matchAll\<close>: the next one to match, the position before and after it, and the string
  without what the \<open>matchOne\<close> among them have taken. \<open>None\<close> is the return with 0.
\<close>

function wild_loop :: "compareInfo \<Rightarrow> byte list \<Rightarrow> byte list \<Rightarrow> (u32 \<times> byte list \<times> byte list \<times> byte list) option" where
  "wild_loop pInfo zPattern zString =
     (if zPattern = [] then Some (0, zPattern, zPattern, zString)
      else
        let (c, zPattern') = sqlite3Utf8Read zPattern
        in if c = ucast (matchAll pInfo) \<or> c = ucast (matchOne pInfo) then
             if c = ucast (matchOne pInfo) then
               let (c2, zString') = sqlite3Utf8Read zString
               in if c2 = 0 then None else wild_loop pInfo zPattern' zString'
             else wild_loop pInfo zPattern' zString
           else Some (c, zPattern, zPattern', zString))"
  by pat_completeness auto
termination
  by (relation "measure (\<lambda>(pInfo, zPattern, zString). length zPattern)")
    (auto dest: sqlite3Utf8Read_shorter [OF _ sym])

text \<open>The search for a character after which the rest of the pattern, \<open>rest\<close>, matches.\<close>

function literal_loop :: "compareInfo \<Rightarrow> u32 \<Rightarrow> (byte list \<Rightarrow> bool) \<Rightarrow> byte list \<Rightarrow> bool" where
  "literal_loop pInfo c rest zString =
     (if zString = [] then False
      else
        let (c2, zString') = sqlite3Utf8Read zString
        in if fold_case pInfo c2 = 0 then False
           else if fold_case pInfo c2 = fold_case pInfo c then rest zString' \<or> literal_loop pInfo c rest zString'
           else literal_loop pInfo c rest zString')"
  by pat_completeness auto
termination
  by (relation "measure (\<lambda>(pInfo, c, rest, zString). length zString)")
    (auto dest: sqlite3Utf8Read_shorter [OF _ sym])

function set_search :: "(byte list \<Rightarrow> bool) \<Rightarrow> byte list \<Rightarrow> bool" where
  "set_search compare zString =
     (if at zString 0 = 0 then False
      else if compare zString then True
      else set_search compare (SQLITE_SKIP_UTF8 zString))"
  by pat_completeness auto
termination
  by (relation "measure (\<lambda>(compare, zString). length zString)") (auto dest: SKIP_UTF8_length)

text \<open>
  The characters of a set, from \<open>c2\<close> on: whether \<open>c\<close> is one of them, and the position after the closing bracket.
\<close>

function set_loop :: "u32 \<Rightarrow> u32 \<Rightarrow> u32 \<Rightarrow> bool \<Rightarrow> byte list \<Rightarrow> (bool \<times> byte list) option" where
  "set_loop c c2 prior_c seen zPattern =
     (if c2 = 0 then None
      else if c2 = 0x5D then Some (seen, zPattern)
      else if zPattern = [] then None
      else if c2 = 0x2D \<and> at zPattern 0 \<noteq> 0x5D \<and> at zPattern 0 \<noteq> 0 \<and> 0 < prior_c then
        let (c2, zPattern) = sqlite3Utf8Read zPattern;
            seen = (if prior_c \<le> c \<and> c \<le> c2 then True else seen);
            (c2, zPattern') = sqlite3Utf8Read zPattern
        in if zPattern = [] then None else set_loop c c2 0 seen zPattern'
      else
        let seen = (if c = c2 then True else seen);
            (c2', zPattern') = sqlite3Utf8Read zPattern
        in set_loop c c2' c2 seen zPattern')"
  by pat_completeness auto
termination
  by (relation "measure (\<lambda>(c, c2, prior_c, seen, zPattern). length zPattern)")
    (auto simp: prod_eq_iff sqlite3Utf8Read_length sqlite3Utf8Read_twice)

definition match_set :: "u32 \<Rightarrow> byte list \<Rightarrow> (bool \<times> byte list) option" where
  "match_set c zPattern =
     (let (c2, zPattern) = sqlite3Utf8Read zPattern;
          invert = (c2 = 0x5E);
          (c2, zPattern) = (if c2 = 0x5E then sqlite3Utf8Read zPattern else (c2, zPattern));
          seen = (c2 = 0x5D \<and> c = 0x5D);
          (c2, zPattern) = (if c2 = 0x5D then sqlite3Utf8Read zPattern else (c2, zPattern))
      in map_option (\<lambda>(seen, zPattern). (seen \<noteq> invert, zPattern)) (set_loop c c2 0 seen zPattern))"

declare wild_loop.simps [simp del] literal_loop.simps [simp del] set_search.simps [simp del] set_loop.simps [simp del]

lemma sqlite3Utf8Read_le: "length (snd (sqlite3Utf8Read z)) \<le> length z"
  using sqlite3Utf8Read_length [of z] by (cases "z = []") (simp_all add: sqlite3Utf8Read_def Let_def)

lemma wild_loop_shorter:
  "wild_loop pInfo zPattern zString = Some (c, before, after, zString') \<Longrightarrow>
   length before \<le> length zPattern \<and> (c \<noteq> 0 \<longrightarrow> length after < length before)"
proof (induction pInfo zPattern zString rule: wild_loop.induct)
  case (1 pInfo zPattern zString)
  then show ?case
    using sqlite3Utf8Read_length [of zPattern]
    by (subst (asm) (3) wild_loop.simps) (fastforce simp: Let_def split: if_splits prod.splits)
qed

lemma set_loop_shorter: "set_loop c c2 prior_c seen z = Some (s, z') \<Longrightarrow> length z' \<le> length z"
proof (induction c c2 prior_c seen z rule: set_loop.induct)
  case (1 c c2 prior_c seen z)
  then show ?case
    using sqlite3Utf8Read_le [of z] sqlite3Utf8Read_le [of "snd (sqlite3Utf8Read z)"]
    by (subst (asm) (3) set_loop.simps) (fastforce simp: Let_def split: if_splits prod.splits)
qed

lemma match_set_shorter: "match_set c z = Some (s, z') \<Longrightarrow> length z' \<le> length z"
proof -
  assume m: "match_set c z = Some (s, z')"
  define r1 where "r1 = sqlite3Utf8Read z"
  define r2 where "r2 = (if fst r1 = 0x5E then sqlite3Utf8Read (snd r1) else r1)"
  define r3 where "r3 = (if fst r2 = 0x5D then sqlite3Utf8Read (snd r2) else r2)"
  have "length (snd r1) \<le> length z" "length (snd r2) \<le> length (snd r1)" "length (snd r3) \<le> length (snd r2)"
    by (simp_all add: r1_def r2_def r3_def sqlite3Utf8Read_le)
  moreover have "length z' \<le> length (snd r3)"
    using m unfolding match_set_def Let_def case_prod_beta prod.collapse
      r1_def [symmetric] r2_def [symmetric] r3_def [symmetric]
    by (auto dest: set_loop_shorter)
  ultimately show ?thesis
    by simp
qed

lemma after_star_shorter:
  "z \<noteq> [] \<Longrightarrow> wild_loop pInfo (snd (sqlite3Utf8Read z)) s = Some (c, before, after, s') \<Longrightarrow>
   length before < length z \<and> (c \<noteq> 0 \<longrightarrow> length after < length z \<and> length (snd (sqlite3Utf8Read after)) < length z)"
  using wild_loop_shorter [of pInfo "snd (sqlite3Utf8Read z)" s c before after s'] sqlite3Utf8Read_length [of z]
    sqlite3Utf8Read_le [of after] by auto

lemma after_set_shorter:
  "z \<noteq> [] \<Longrightarrow> match_set c (snd (sqlite3Utf8Read z)) = Some (r, after) \<Longrightarrow> length after < length z"
  using match_set_shorter [of c "snd (sqlite3Utf8Read z)" r after] sqlite3Utf8Read_length [of z] by auto

function pattern_loop :: "compareInfo \<Rightarrow> u32 \<Rightarrow> bool \<Rightarrow> byte list \<Rightarrow> byte list \<Rightarrow> bool" where
  "pattern_loop pInfo esc prevEscape zPattern zString =
     (if zPattern = [] then at zString 0 = 0
      else
        let (c, zPattern') = sqlite3Utf8Read zPattern
        in if c = 0 then at zString 0 = 0
           else if \<not> prevEscape \<and> c = ucast (matchAll pInfo) then
             (case wild_loop pInfo zPattern' zString of
                None \<Rightarrow> False
              | Some (c, before, after, zString) \<Rightarrow>
                  if c = 0 then True
                  else if c = esc then
                    let (c, after') = sqlite3Utf8Read after
                    in if c = 0 then False
                       else literal_loop pInfo c (\<lambda>z. pattern_loop pInfo esc False after' z) zString
                  else if c = ucast (matchSet pInfo) then
                    set_search (\<lambda>z. pattern_loop pInfo esc False before z) zString
                  else literal_loop pInfo c (\<lambda>z. pattern_loop pInfo esc False after z) zString)
           else if \<not> prevEscape \<and> c = ucast (matchOne pInfo) then
             let (c2, zString') = sqlite3Utf8Read zString
             in c2 \<noteq> 0 \<and> pattern_loop pInfo esc prevEscape zPattern' zString'
           else if c = ucast (matchSet pInfo) then
             let (c2, zString') = sqlite3Utf8Read zString
             in if c2 = 0 then False
                else
                  (case match_set c2 zPattern' of
                     Some (True, after) \<Rightarrow> pattern_loop pInfo esc prevEscape after zString'
                   | _ \<Rightarrow> False)
           else if c = esc \<and> \<not> prevEscape then pattern_loop pInfo esc True zPattern' zString
           else
             let (c2, zString') = sqlite3Utf8Read zString
             in fold_case pInfo c = fold_case pInfo c2 \<and> pattern_loop pInfo esc False zPattern' zString')"
  by pat_completeness auto
termination
  by (relation "measure (\<lambda>(pInfo, esc, prevEscape, zPattern, zString). length zPattern)")
    (auto simp: prod_eq_iff dest: after_star_shorter after_set_shorter sqlite3Utf8Read_length)

definition patternCompare :: "byte list \<Rightarrow> byte list \<Rightarrow> compareInfo \<Rightarrow> u32 \<Rightarrow> bool" where
  "patternCompare zPattern zString pInfo esc = pattern_loop pInfo esc False zPattern zString"

declare pattern_loop.simps [simp del]

text \<open>
  \<open>likeFunc\<close>, given the limit on the length of patterns; the arguments are the pattern, the string and, when there
  are three, the escape character. \<open>None\<close> is the SQL value NULL.
\<close>

datatype like_result = Like_null | Like_error string | Like_int bool

definition likeFunc ::
  "nat \<Rightarrow> compareInfo \<Rightarrow> byte list option \<Rightarrow> byte list option \<Rightarrow> byte list option option \<Rightarrow> like_result" where
  "likeFunc limit pInfo zB zA third =
     (let compare = (\<lambda>escape. case (zA, zB) of
                       (Some zA, Some zB) \<Rightarrow> Like_int (patternCompare zB zA pInfo escape)
                     | _ \<Rightarrow> Like_null)
      in if limit < (case zB of None \<Rightarrow> 0 | Some zB \<Rightarrow> length zB) then
           Like_error ''LIKE or GLOB pattern too complex''
         else
           case third of
             None \<Rightarrow> compare 0
           | Some None \<Rightarrow> Like_null
           | Some (Some zEsc) \<Rightarrow>
               if sqlite3Utf8CharLen zEsc (-1) \<noteq> 1 then Like_error ''ESCAPE expression must be a single character''
               else compare (fst (sqlite3Utf8Read zEsc)))"

section \<open>The reference\<close>

text \<open>The characters of a text.\<close>

function chars :: "byte list \<Rightarrow> u32 list" where
  "chars z = (if z = [] then [] else let (c, z') = sqlite3Utf8Read z in c # chars z')"
  by pat_completeness auto
termination
  by (relation "measure length") (auto dest: sqlite3Utf8Read_shorter [OF _ sym])

declare chars.simps [simp del]

text \<open>
  A pattern is a list of elements: any characters, one character, one from a list of ranges or one outside it, a
  given character, and what nothing matches.
\<close>

datatype glob = Any_many | Any_one | One_of bool "(u32 \<times> u32) list" | Char u32 | Nothing

definition in_ranges :: "u32 \<Rightarrow> (u32 \<times> u32) list \<Rightarrow> bool" where
  "in_ranges c items \<longleftrightarrow> list_ex (\<lambda>(lo, hi). lo \<le> c \<and> c \<le> hi) items"

fun element_matches :: "compareInfo \<Rightarrow> glob \<Rightarrow> u32 \<Rightarrow> bool" where
  "element_matches pInfo Any_many c = False"
| "element_matches pInfo Any_one c = True"
| "element_matches pInfo (One_of invert items) c = (in_ranges c items \<noteq> invert)"
| "element_matches pInfo (Char d) c = (fold_case pInfo d = fold_case pInfo c)"
| "element_matches pInfo Nothing c = False"

fun matches :: "compareInfo \<Rightarrow> glob list \<Rightarrow> u32 list \<Rightarrow> bool" where
  "matches pInfo [] s = (s = [])"
| "matches pInfo (g # p) s =
     (if g = Any_many then list_ex (\<lambda>k. matches pInfo p (drop k s)) [0..<Suc (length s)]
      else s \<noteq> [] \<and> element_matches pInfo g (hd s) \<and> matches pInfo p (tl s))"

text \<open>The ranges of a set up to the closing bracket; a single character is a range, \<open>prior\<close> may begin one.\<close>

fun parse_ranges :: "u32 \<Rightarrow> u32 list \<Rightarrow> ((u32 \<times> u32) list \<times> u32 list) option" where
  "parse_ranges prior [] = None"
| "parse_ranges prior [c] = (if c = 0x5D then Some ([], []) else None)"
| "parse_ranges prior (c # d # p) =
     (if c = 0x5D then Some ([], d # p)
      else if c = 0x2D \<and> d \<noteq> 0x5D \<and> 0 < prior then
        map_option (\<lambda>(items, p). ((prior, d) # items, p)) (parse_ranges 0 p)
      else map_option (\<lambda>(items, p). ((c, c) # items, p)) (parse_ranges c (d # p)))"

definition parse_set :: "u32 list \<Rightarrow> (glob \<times> u32 list) option" where
  "parse_set p =
     (let invert = (p \<noteq> [] \<and> hd p = 0x5E);
          p = (if invert then tl p else p);
          bracket = (p \<noteq> [] \<and> hd p = 0x5D);
          p = (if bracket then tl p else p)
      in map_option (\<lambda>(items, p). (One_of invert ((if bracket then [(0x5D, 0x5D)] else []) @ items), p))
           (parse_ranges 0 p))"

lemma parse_ranges_length: "parse_ranges prior p = Some (items, p') \<Longrightarrow> length p' \<le> length p"
  by (induction prior p arbitrary: items p' rule: parse_ranges.induct)
    (fastforce split: if_splits)+

lemma parse_set_length [termination_simp]: "Some (g, p') = parse_set p \<Longrightarrow> length p' \<le> length p"
  by (auto simp: parse_set_def Let_def split: if_splits dest!: parse_ranges_length sym [of "Some _"])

text \<open>
  \<open>m\<close> tells that the last elements were any characters and single ones after them. An escape character at the end
  of the pattern is ignored, except there.
\<close>

fun parse_pattern :: "compareInfo \<Rightarrow> u32 \<Rightarrow> bool \<Rightarrow> u32 list \<Rightarrow> glob list" where
  "parse_pattern pInfo esc m [] = []"
| "parse_pattern pInfo esc m (c # p) =
     (if c = ucast (matchAll pInfo) then Any_many # parse_pattern pInfo esc True p
      else if c = ucast (matchOne pInfo) then Any_one # parse_pattern pInfo esc m p
      else if c = ucast (matchSet pInfo) then
        (case parse_set p of None \<Rightarrow> [Nothing] | Some (g, p') \<Rightarrow> g # parse_pattern pInfo esc False p')
      else if c = esc then
        (case p of [] \<Rightarrow> if m then [Nothing] else [] | d # p' \<Rightarrow> Char d # parse_pattern pInfo esc False p')
      else Char c # parse_pattern pInfo esc False p)"

section \<open>Characters of a text\<close>

text \<open>Texts have no NUL inside.\<close>

abbreviation nul_free :: "byte list \<Rightarrow> bool" where
  "nul_free z \<equiv> 0 \<notin> set z"

lemma continuation_loop_set: "set (snd (continuation_loop c z)) \<subseteq> set z"
  by (induction c z rule: continuation_loop.induct) auto

lemma nul_free_read: "nul_free z \<Longrightarrow> nul_free (snd (sqlite3Utf8Read z))"
  using continuation_loop_set [of "ucast (sqlite3Utf8Trans1 ! unat (at z 0 - 0xC0))" "drop 1 z"] in_set_dropD [of 0 1 z]
  by (auto simp: sqlite3Utf8Read_def Let_def split: prod.splits)

lemma sint_byte: "sint (ucast (d::byte) :: u32) = uint d"
  by transfer (simp add: signed_take_bit_take_bit)

lemma read_character:
  assumes "nul_free (b # z)"
  shows "fst (sqlite3Utf8Read (b # z)) \<noteq> 0"
    and "d < 0x80 \<Longrightarrow> fst (sqlite3Utf8Read (b # z)) = ucast d \<longleftrightarrow> b = d"
proof -
  obtain c z' where c: "continuation_loop (ucast (sqlite3Utf8Trans1 ! unat (b - 0xC0))) z = (c, z')"
    by fastforce
  let ?r = "fst (sqlite3Utf8Read (b # z))"
  have "?r = ucast b \<and> b < 0xC0 \<or> 0xC0 \<le> b \<and> (?r = 0xFFFD \<or> 0x80 \<le> sint ?r)"
    using c by (auto simp: sqlite3Utf8Read_def at_Cons not_le not_less)
  then consider "?r = ucast b" "b < 0xC0" | "0xC0 \<le> b" "?r = 0xFFFD \<or> 0x80 \<le> sint ?r"
    by blast
  moreover have inj: "ucast x = (ucast y :: u32) \<longleftrightarrow> x = y" for x y :: byte
    using sint_byte [of x] sint_byte [of y] by (metis word_uint_eqI)
  moreover have small: "ucast d \<noteq> (0xFFFD :: u32) \<and> sint (ucast d :: u32) < 0x80" if "d < 0x80" for d :: byte
  proof -
    have "uint d < 0x80"
      using that by (simp add: word_less_def)
    then have "sint (ucast d :: u32) < 0x80"
      by (simp add: sint_byte)
    then show ?thesis
      by auto
  qed
  ultimately have "?r \<noteq> 0 \<and> (d < 0x80 \<longrightarrow> (?r = ucast d \<longleftrightarrow> b = d))"
  proof cases
    case 1
    then show ?thesis
      using assms inj [of b 0] inj [of b d] by auto
  next
    case 2
    have "d < 0xC0" if "d < 0x80"
      by (rule less_le_trans [OF that]) simp
    with 2 show ?thesis
      using small [of d] by (auto simp: not_less)
  qed
  then show "?r \<noteq> 0" "d < 0x80 \<Longrightarrow> ?r = ucast d \<longleftrightarrow> b = d"
    by simp_all
qed

text \<open>Reading a text is taking its characters one by one.\<close>

lemma chars_Nil [simp]: "chars [] = []"
  by (simp add: chars.simps)

lemma read_Nil [simp]: "sqlite3Utf8Read [] = (0, [])"
  by (simp add: sqlite3Utf8Read_def)

lemma read_cases:
  assumes "nul_free z"
  obtains "z = []" "chars z = []" "sqlite3Utf8Read z = (0, [])"
  | c z' where "z \<noteq> []" "chars z = c # chars z'" "sqlite3Utf8Read z = (c, z')" "c \<noteq> 0" "nul_free z'" "length z' < length z"
proof (cases z)
  case (Cons b y)
  obtain c z' where r: "sqlite3Utf8Read z = (c, z')"
    by fastforce
  have "chars z = c # chars z'"
    using r Cons by (subst chars.simps) simp
  moreover have "c \<noteq> 0"
    using read_character(1) [of b y] assms Cons r by simp
  moreover have "nul_free z'"
    using nul_free_read [OF assms] r by simp
  moreover have "length z' < length z"
    using sqlite3Utf8Read_shorter [OF _ r] Cons by simp
  ultimately show ?thesis
    using that(2) r Cons by blast
qed (use that in simp)

lemma at_0_chars: "nul_free z \<Longrightarrow> at z 0 = 0 \<longleftrightarrow> chars z = []"
proof -
  assume z: "nul_free z"
  then have "chars z = [] \<longleftrightarrow> z = []"
    by (cases rule: read_cases) auto
  with at_0 [OF z] show ?thesis
    by simp
qed

lemma at_0_bracket: "nul_free z \<Longrightarrow> at z 0 = 0x5D \<longleftrightarrow> chars z \<noteq> [] \<and> hd (chars z) = 0x5D"
proof (cases z)
  case (Cons b y)
  assume "nul_free z"
  then have "fst (sqlite3Utf8Read z) = ucast (0x5D :: byte) \<longleftrightarrow> b = 0x5D"
    using read_character(2) [of b y "0x5D"] Cons by simp
  with \<open>nul_free z\<close> Cons show ?thesis
    by (cases rule: read_cases) auto
qed simp

lemma chars_text: "list_all utf8_char cs \<Longrightarrow> chars (text_in SQLITE_UTF8 cs) = cs"
proof (induction cs)
  case (Cons c cs)
  have "sqlite3Utf8Read (WRITE_UTF8 c @ text_in SQLITE_UTF8 cs) = (c, text_in SQLITE_UTF8 cs)"
    using Cons.prems utf8.starts_text [of cs] by (simp add: sqlite3Utf8Read_WRITE_UTF8 text_in_def)
  with Cons show ?case
    by (subst chars.simps) (simp add: text_in_def WRITE_neq_Nil)
qed (simp add: text_in_def)

lemma GlogUpperToLower_nonzero: "GlogUpperToLower c = 0 \<longleftrightarrow> c = 0"
proof (cases "c < 0x80")
  case True
  have all: "list_all (\<lambda>k. (ucast (sqlite3UpperToLower ! k) = (0 :: u32)) = (k = 0)) [0..<128]"
    by code_simp
  have "unat c < 128"
    using True by (simp add: word_less_nat_alt)
  with all have "(ucast (sqlite3UpperToLower ! unat c) = (0 :: u32)) = (unat c = 0)"
    by (simp add: list_all_iff)
  then show ?thesis
    using True by (simp add: GlogUpperToLower_def unat_eq_0)
qed (auto simp: GlogUpperToLower_def)

lemma fold_case_nonzero [simp]: "fold_case pInfo c = 0 \<longleftrightarrow> c = 0"
  by (simp add: fold_case_def GlogUpperToLower_nonzero)

lemma fold_case_0 [simp]: "fold_case pInfo 0 = 0"
  by simp

section \<open>The loops\<close>

lemma matches_many: "matches pInfo (Any_many # p) s \<longleftrightarrow> (\<exists>k\<le>length s. matches pInfo p (drop k s))"
  by (auto simp: list_ex_iff less_Suc_eq_le simp del: upt_Suc)

lemma matches_element:
  "g \<noteq> Any_many \<Longrightarrow> matches pInfo (g # p) s \<longleftrightarrow> (\<exists>c s'. s = c # s' \<and> element_matches pInfo g c \<and> matches pInfo p s')"
  by (cases s) auto

declare matches.simps(2) [simp del]

lemma matches_many_Cons:
  "matches pInfo (Any_many # p) (c # s) \<longleftrightarrow> matches pInfo p (c # s) \<or> matches pInfo (Any_many # p) s"
proof -
  have "(\<exists>k\<le>length (c # s). matches pInfo p (drop k (c # s))) \<longleftrightarrow>
    matches pInfo p (drop 0 (c # s)) \<or> (\<exists>k\<le>length s. matches pInfo p (drop (Suc k) (c # s)))"
    by (metis Suc_le_mono le0 length_Cons not0_implies_Suc)
  then show ?thesis
    by (simp add: matches_many)
qed

lemma matches_many_Nil: "matches pInfo (Any_many # p) [] \<longleftrightarrow> matches pInfo p []"
  by (simp add: matches_many)

lemma matches_many_many: "matches pInfo (Any_many # Any_many # p) s \<longleftrightarrow> matches pInfo (Any_many # p) s"
  by (induction s) (auto simp: matches_many_Nil matches_many_Cons)

lemma matches_many_one:
  "matches pInfo (Any_many # Any_one # p) s \<longleftrightarrow> (\<exists>c s'. s = c # s' \<and> matches pInfo (Any_many # p) s')"
proof (induction s)
  case (Cons c s)
  then show ?case
    by (cases s) (auto simp: matches_many_Cons matches_many_Nil matches_element)
qed (simp add: matches_many_Nil matches_element)

lemma matches_many_end: "matches pInfo [Any_many] s"
  by (auto simp: matches_many intro: exI [of _ "length s"])

lemma matches_many_Nothing: "\<not> matches pInfo (Any_many # Nothing # p) s"
  by (simp add: matches_many matches_element)

lemma literal_loop_matches:
  assumes "\<And>z. nul_free z \<Longrightarrow> rest z \<longleftrightarrow> matches pInfo p (chars z)"
  shows "nul_free zString \<Longrightarrow>
    literal_loop pInfo c rest zString \<longleftrightarrow> matches pInfo (Any_many # Char c # p) (chars zString)"
proof (induction "length zString" arbitrary: zString rule: less_induct)
  case less
  show ?case
    using less.prems
  proof (cases rule: read_cases)
    case 1
    then show ?thesis
      by (simp add: literal_loop.simps matches_many_Nil matches_element)
  next
    case (2 d z')
    then have "literal_loop pInfo c rest z' \<longleftrightarrow> matches pInfo (Any_many # Char c # p) (chars z')"
      using less.hyps by simp
    with 2 assms [of z'] show ?thesis
      by (auto simp: literal_loop.simps [of pInfo c rest zString] matches_many_Cons matches_element)
  qed
qed

lemma SKIP_UTF8_read: "SQLITE_SKIP_UTF8 z = snd (sqlite3Utf8Read z)"
proof -
  have "snd (continuation_loop c y) = dropWhile (\<lambda>b. b AND 0xC0 = 0x80) y" for c y
    by (induction c y rule: continuation_loop.induct) auto
  then show ?thesis
    by (auto simp: SQLITE_SKIP_UTF8_def sqlite3Utf8Read_def Let_def split: prod.split) (metis snd_conv)
qed

lemma set_search_matches:
  assumes "\<And>z. nul_free z \<Longrightarrow> compare z \<longleftrightarrow> matches pInfo p (chars z)" "\<not> matches pInfo p []"
  shows "nul_free zString \<Longrightarrow> set_search compare zString \<longleftrightarrow> matches pInfo (Any_many # p) (chars zString)"
proof (induction "length zString" arbitrary: zString rule: less_induct)
  case less
  show ?case
    using less.prems
  proof (cases rule: read_cases)
    case 1
    then show ?thesis
      using assms(2) by (simp add: set_search.simps matches_many_Nil)
  next
    case (2 d z')
    then have "set_search compare z' \<longleftrightarrow> matches pInfo (Any_many # p) (chars z')"
      using less.hyps by simp
    moreover have "at zString 0 \<noteq> 0"
      using at_0_chars [OF less.prems] 2 by simp
    ultimately show ?thesis
      using 2 assms(1) [OF less.prems] by (simp add: set_search.simps [of compare zString] SKIP_UTF8_read matches_many_Cons)
  qed
qed

text \<open>What follows a \<open>matchAll\<close>: the elements for any characters and single ones are taken from the pattern.\<close>

lemma wild_loop_matches:
  fixes pInfo esc
  defines "M z s \<equiv> matches pInfo (Any_many # parse_pattern pInfo esc True (chars z)) (chars s)"
  assumes distinct: "matchAll pInfo \<noteq> matchOne pInfo"
  shows "nul_free zPattern \<Longrightarrow> nul_free zString \<Longrightarrow>
    (case wild_loop pInfo zPattern zString of
       None \<Rightarrow> \<not> M zPattern zString
     | Some (c, before, after, zString') \<Rightarrow>
         nul_free before \<and> nul_free zString' \<and> M zPattern zString = M before zString' \<and>
         sqlite3Utf8Read before = (c, after) \<and>
         (before = [] \<or> c \<noteq> ucast (matchAll pInfo) \<and> c \<noteq> ucast (matchOne pInfo)))"
proof (induction "length zPattern" arbitrary: zPattern zString rule: less_induct)
  case less
  show ?case
    using less.prems(1)
  proof (cases rule: read_cases)
    case 1
    then show ?thesis
      using less.prems by (simp add: wild_loop.simps)
  next
    case (2 c z')
    have one_neq_all: "ucast (matchOne pInfo) \<noteq> (ucast (matchAll pInfo) :: u32)"
      using distinct sint_byte by (metis word_uint_eqI)
    consider "c = ucast (matchAll pInfo)" | "c = ucast (matchOne pInfo)"
      | "c \<noteq> ucast (matchAll pInfo)" "c \<noteq> ucast (matchOne pInfo)"
      by blast
    then show ?thesis
    proof cases
      case 1
      then have "M zPattern zString = M z' zString" "wild_loop pInfo zPattern zString = wild_loop pInfo z' zString"
        using 2 one_neq_all by (simp_all add: M_def matches_many_many wild_loop.simps [of pInfo zPattern])
      with less.hyps [of z' zString] 2 less.prems(2) show ?thesis
        by (auto split: option.splits)
    next
      case one: 2
      have M: "M zPattern zString \<longleftrightarrow>
          (\<exists>d s. chars zString = d # s \<and> matches pInfo (Any_many # parse_pattern pInfo esc True (chars z')) s)"
        using 2 one one_neq_all by (simp add: M_def matches_many_one)
      from less.prems(2) show ?thesis
      proof (cases rule: read_cases)
        case 1
        with 2 one M show ?thesis
          by (simp add: wild_loop.simps [of pInfo zPattern])
      next
        case s: (2 d s')
        then have "M zPattern zString = M z' s'" "wild_loop pInfo zPattern zString = wild_loop pInfo z' s'"
          using 2 one M by (simp_all add: M_def wild_loop.simps [of pInfo zPattern])
        with less.hyps [of z' s'] 2 s(5) show ?thesis
          by (auto split: option.splits)
      qed
    next
      case 3
      then show ?thesis
        using 2 less.prems by (simp add: wild_loop.simps [of pInfo zPattern])
    qed
  qed
qed

lemma set_loop_ranges:
  "nul_free z \<Longrightarrow> c2 \<noteq> 0 \<Longrightarrow>
   (case parse_ranges prior (c2 # chars z) of
      None \<Rightarrow> set_loop c c2 prior seen z = None
    | Some (items, p) \<Rightarrow> \<exists>z'. set_loop c c2 prior seen z = Some (seen \<or> in_ranges c items, z') \<and> chars z' = p \<and> nul_free z')"
proof (induction "length z" arbitrary: z c2 prior seen rule: less_induct)
  case less
  show ?case
  proof (cases "c2 = 0x5D")
    case True
    then show ?thesis
      using less.prems by (cases "chars z") (auto simp: set_loop.simps [of c "0x5D"] in_ranges_def)
  next
    case c2: False
    show ?thesis
      using less.prems(1)
    proof (cases rule: read_cases)
      case 1
      then show ?thesis
        using c2 less.prems by (simp add: set_loop.simps [of c c2])
    next
      case (2 d z')
      have at: "at z 0 \<noteq> 0" "at z 0 = 0x5D \<longleftrightarrow> d = 0x5D"
        using at_0_chars [OF less.prems(1)] at_0_bracket [OF less.prems(1)] 2 by auto
      show ?thesis
      proof (cases "c2 = 0x2D \<and> d \<noteq> 0x5D \<and> 0 < prior")
        case range: True
        let ?seen = "if prior \<le> c \<and> c \<le> d then True else seen"
        from 2(5) show ?thesis
        proof (cases rule: read_cases)
          case 1
          then have "set_loop c c2 prior seen z = None"
            using 2 range at less.prems by (subst set_loop.simps) simp
          with 1 2 range show ?thesis
            by simp
        next
          case e: (2 e z'')
          have "set_loop c c2 prior seen z = set_loop c e 0 ?seen z''"
            using 2 e range at less.prems c2 by (subst set_loop.simps) simp
          with less.hyps [of z'' e 0 ?seen] 2 e range show ?thesis
            by (auto simp: in_ranges_def split: option.splits)
        qed
      next
        case False
        let ?seen = "if c = c2 then True else seen"
        have "set_loop c c2 prior seen z = set_loop c d c2 ?seen z'"
          using 2 False at less.prems c2 by (subst set_loop.simps) auto
        moreover have "parse_ranges prior (c2 # chars z) =
            map_option (\<lambda>(items, p). ((c2, c2) # items, p)) (parse_ranges c2 (d # chars z'))"
          using 2 False c2 by auto
        ultimately show ?thesis
          using less.hyps [of z' d c2 ?seen] 2 by (auto simp: in_ranges_def split: option.splits)
      qed
    qed
  qed
qed

lemma tail_if: "nul_free z \<Longrightarrow> nul_free (if b then snd (sqlite3Utf8Read z) else z)"
  by (simp add: nul_free_read)

lemma read_chars:
  "nul_free z \<Longrightarrow> fst (sqlite3Utf8Read z) = (case chars z of [] \<Rightarrow> 0 | c # _ \<Rightarrow> c) \<and>
    chars (snd (sqlite3Utf8Read z)) = tl (chars z) \<and> nul_free (snd (sqlite3Utf8Read z)) \<and> 0 \<notin> set (chars z)"
proof (induction "length z" arbitrary: z rule: less_induct)
  case less
  show ?case
    using less.prems
  proof (cases rule: read_cases)
    case (2 c z')
    with less.hyps [of z'] show ?thesis
      by simp
  qed simp
qed

text \<open>The reading of a set: \<open>match_set\<close> starts with the first character after an optional caret and bracket.\<close>

lemma match_set_parses:
  assumes "nul_free z"
  shows "case parse_set (chars z) of
      None \<Rightarrow> match_set c z = None
    | Some (g, p) \<Rightarrow> \<exists>z'. match_set c z = Some (element_matches pInfo g c, z') \<and> chars z' = p \<and> nul_free z' \<and> g \<noteq> Any_many"
proof -
  define r1 where "r1 = sqlite3Utf8Read z"
  define r2 where "r2 = (if fst r1 = 0x5E then sqlite3Utf8Read (snd r1) else r1)"
  define r3 where "r3 = (if fst r2 = 0x5D then sqlite3Utf8Read (snd r2) else r2)"
  define p1 where "p1 = (if chars z \<noteq> [] \<and> hd (chars z) = 0x5E then tl (chars z) else chars z)"
  define p2 where "p2 = (if p1 \<noteq> [] \<and> hd p1 = 0x5D then tl p1 else p1)"
  have m: "match_set c z = map_option (\<lambda>(seen, z). (seen \<noteq> (fst r1 = 0x5E), z))
      (set_loop c (fst r3) 0 (fst r2 = 0x5D \<and> c = 0x5D) (snd r3))"
    unfolding match_set_def Let_def case_prod_beta prod.collapse r1_def [symmetric] r2_def [symmetric] r3_def [symmetric] ..
  have at_end: "fst (sqlite3Utf8Read y) = d \<longleftrightarrow> chars y \<noteq> [] \<and> hd (chars y) = d" if "nul_free y" "d \<noteq> 0" for y d
    using read_chars [OF that(1)] that(2) by (cases "chars y") auto
  have step: "nul_free y1 \<and> fst r = (case chars y of [] \<Rightarrow> 0 | c # _ \<Rightarrow> c) \<and> snd r = y1 \<and> chars y1 = tl (chars y)"
    if "nul_free y" "r = sqlite3Utf8Read y" "y1 = snd r" for y r y1
    using read_chars [OF that(1)] that(2,3) by simp
  define y2 where "y2 = (if fst r1 = 0x5E then snd r1 else z)"
  have y2: "nul_free y2" "r2 = sqlite3Utf8Read y2" "chars y2 = p1"
    using assms nul_free_read [OF assms] read_chars [OF assms] at_end [OF assms, of "0x5E"]
    by (simp_all add: y2_def r2_def r1_def p1_def)
  define y3 where "y3 = (if fst r2 = 0x5D then snd r2 else y2)"
  have y3: "nul_free y3" "r3 = sqlite3Utf8Read y3" "chars y3 = p2"
    using nul_free_read [OF y2(1)] read_chars [OF y2(1)] at_end [OF y2(1), of "0x5D"] y2
    by (simp_all add: y3_def r3_def p2_def)
  have parse: "parse_set (chars z) = map_option (\<lambda>(items, p). (One_of (fst r1 = 0x5E) ((if fst r2 = 0x5D then [(0x5D, 0x5D)] else []) @ items), p))
      (parse_ranges 0 p2)"
    using at_end [OF assms, of "0x5E"] at_end [OF y2(1), of "0x5D"] y2(2,3)
    by (simp add: parse_set_def Let_def p1_def [symmetric] r1_def) (simp add: p2_def)
  show ?thesis
    using y3(1)
  proof (cases rule: read_cases)
    case 1
    then show ?thesis
      using y3 parse m by (simp add: set_loop.simps)
  next
    case (2 d z')
    then show ?thesis
      using set_loop_ranges [OF 2(5,4), of c 0 "fst r2 = 0x5D \<and> c = 0x5D"] y3(2,3) parse m
        order.eq_iff [of c "0x5D"]
      by (auto simp: in_ranges_def split: option.splits; blast)
  qed
qed

section \<open>The comparison\<close>

lemma ucast_byte_inj: "ucast a = (ucast b :: u32) \<longleftrightarrow> a = b" for a b :: byte
  using sint_byte by (metis word_uint_eqI)

text \<open>What is left of a pattern after an escape character.\<close>

definition parse_escaped :: "compareInfo \<Rightarrow> u32 \<Rightarrow> u32 list \<Rightarrow> glob list" where
  "parse_escaped pInfo esc p =
     (case p of [] \<Rightarrow> [] | d # p' \<Rightarrow> Char d # parse_pattern pInfo esc False p')"

lemma pattern_loop_escaped:
  assumes "nul_free zPattern" "nul_free zString" "matchSet pInfo = 0"
    and IH: "\<And>p s. length p < length zPattern \<Longrightarrow> nul_free p \<Longrightarrow> nul_free s \<Longrightarrow>
      pattern_loop pInfo esc False p s \<longleftrightarrow> matches pInfo (parse_pattern pInfo esc False (chars p)) (chars s)"
  shows "pattern_loop pInfo esc True zPattern zString \<longleftrightarrow>
    matches pInfo (parse_escaped pInfo esc (chars zPattern)) (chars zString)"
  using assms(1)
proof (cases rule: read_cases)
  case 1
  then show ?thesis
    using at_0_chars [OF assms(2)] by (simp add: pattern_loop.simps parse_escaped_def)
next
  case p: (2 c z')
  have unfold: "pattern_loop pInfo esc True zPattern zString \<longleftrightarrow>
      fold_case pInfo c = fold_case pInfo (fst (sqlite3Utf8Read zString)) \<and>
      pattern_loop pInfo esc False z' (snd (sqlite3Utf8Read zString))"
    using p assms(3) by (subst pattern_loop.simps) (simp add: case_prod_beta)
  from assms(2) show ?thesis
  proof (cases rule: read_cases)
    case 1
    with p unfold show ?thesis
      by (simp add: parse_escaped_def matches_element)
  next
    case (2 d s')
    with p unfold IH [of z' s'] show ?thesis
      by (auto simp: parse_escaped_def matches_element)
  qed
qed

lemma after_star_matches:
  assumes IH: "\<And>p s. length p \<le> length before \<Longrightarrow> nul_free p \<Longrightarrow> nul_free s \<Longrightarrow>
      pattern_loop pInfo esc False p s \<longleftrightarrow> matches pInfo (parse_pattern pInfo esc False (chars p)) (chars s)"
    and nf: "nul_free before" "nul_free zString"
    and read: "sqlite3Utf8Read before = (c, after)" "c \<noteq> 0"
    and c: "c \<noteq> ucast (matchAll pInfo)" "c \<noteq> ucast (matchOne pInfo)"
    and esc: "matchSet pInfo = 0 \<or> esc = 0"
  shows "(if c = esc then
            let (c, after') = sqlite3Utf8Read after
            in if c = 0 then False
               else literal_loop pInfo c (\<lambda>z. pattern_loop pInfo esc False after' z) zString
          else if c = ucast (matchSet pInfo) then
            set_search (\<lambda>z. pattern_loop pInfo esc False before z) zString
          else literal_loop pInfo c (\<lambda>z. pattern_loop pInfo esc False after z) zString) \<longleftrightarrow>
    matches pInfo (Any_many # parse_pattern pInfo esc True (chars before)) (chars zString)"
  using nf(1)
proof (cases rule: read_cases)
  case b: (2 c' z')
  then have before: "chars before = c # chars after" "nul_free after" "length after < length before"
    using read by auto
  have set_0: "c = ucast (matchSet pInfo) \<Longrightarrow> c \<noteq> esc" "c = esc \<Longrightarrow> c \<noteq> ucast (matchSet pInfo)"
    using esc read(2) by auto
  consider (escape) "c = esc" | (set) "c = ucast (matchSet pInfo)" "c \<noteq> esc" | (literal) "c \<noteq> ucast (matchSet pInfo)" "c \<noteq> esc"
    by blast
  then show ?thesis
  proof cases
    case escape
    from before(2) show ?thesis
    proof (cases rule: read_cases)
      case 1
      with escape before c set_0 show ?thesis
        by (simp add: matches_many_Nothing)
    next
      case (2 d z'')
      have "literal_loop pInfo d (pattern_loop pInfo esc False z'') zString \<longleftrightarrow>
          matches pInfo (Any_many # Char d # parse_pattern pInfo esc False (chars z'')) (chars zString)"
        using 2 before nf(2) by (intro literal_loop_matches IH) auto
      with 2 escape before c set_0 show ?thesis
        by simp
    qed
  next
    case set
    have parse: "parse_pattern pInfo esc True (chars before) = parse_pattern pInfo esc False (chars before)"
      "\<not> matches pInfo (parse_pattern pInfo esc False (chars before)) []"
      using set before c match_set_parses [OF before(2), of 0 pInfo]
      by (auto simp: matches_element split: option.split)
    have "set_search (pattern_loop pInfo esc False before) zString \<longleftrightarrow>
        matches pInfo (Any_many # parse_pattern pInfo esc False (chars before)) (chars zString)"
      using nf parse(2) by (intro set_search_matches IH) auto
    with set parse(1) show ?thesis
      by simp
  next
    case literal
    have "literal_loop pInfo c (pattern_loop pInfo esc False after) zString \<longleftrightarrow>
        matches pInfo (Any_many # Char c # parse_pattern pInfo esc False (chars after)) (chars zString)"
      using before nf(2) by (intro literal_loop_matches IH) auto
    with literal before c show ?thesis
      by simp
  qed
qed (use read in simp)

lemma pattern_loop_matches:
  assumes esc: "matchSet pInfo = 0 \<or> esc = 0" and distinct: "matchAll pInfo \<noteq> matchOne pInfo"
  shows "nul_free zPattern \<Longrightarrow> nul_free zString \<Longrightarrow>
    pattern_loop pInfo esc False zPattern zString \<longleftrightarrow>
      matches pInfo (parse_pattern pInfo esc False (chars zPattern)) (chars zString)"
proof (induction "length zPattern" arbitrary: zPattern zString rule: less_induct)
  case less
  note unfold = pattern_loop.simps [of pInfo esc False zPattern zString]
  show ?case
    using less.prems(1)
  proof (cases rule: read_cases)
    case 1
    then show ?thesis
      using at_0_chars [OF less.prems(2)] by (simp add: pattern_loop.simps)
  next
    case p: (2 c p')
    consider (all) "c = ucast (matchAll pInfo)"
      | (one) "c = ucast (matchOne pInfo)" "c \<noteq> ucast (matchAll pInfo)"
      | (set) "c = ucast (matchSet pInfo)" "c \<noteq> ucast (matchAll pInfo)" "c \<noteq> ucast (matchOne pInfo)"
      | (escape) "c = esc" "c \<noteq> ucast (matchAll pInfo)" "c \<noteq> ucast (matchOne pInfo)" "c \<noteq> ucast (matchSet pInfo)"
      | (literal) "c \<noteq> esc" "c \<noteq> ucast (matchAll pInfo)" "c \<noteq> ucast (matchOne pInfo)" "c \<noteq> ucast (matchSet pInfo)"
      by blast
    then show ?thesis
    proof cases
      case all
      note star = wild_loop_matches [OF distinct p(5) less.prems(2), of esc]
      have parse: "parse_pattern pInfo esc False (chars zPattern) = Any_many # parse_pattern pInfo esc True (chars p')"
        using p all by simp
      show ?thesis
      proof (cases "wild_loop pInfo p' zString")
        case None
        with star parse p all show ?thesis
          by (simp add: unfold)
      next
        case (Some r)
        obtain c1 before after s1 where r: "r = (c1, before, after, s1)"
          by (cases r)
        have nf: "nul_free before" "nul_free s1" and read: "sqlite3Utf8Read before = (c1, after)"
          and M: "matches pInfo (Any_many # parse_pattern pInfo esc True (chars p')) (chars zString) =
            matches pInfo (Any_many # parse_pattern pInfo esc True (chars before)) (chars s1)"
          and c1: "before = [] \<or> c1 \<noteq> ucast (matchAll pInfo) \<and> c1 \<noteq> ucast (matchOne pInfo)"
          using star Some r by auto
        from nf(1) show ?thesis
        proof (cases rule: read_cases)
          case 1
          with read p all Some r parse M matches_many_end [of pInfo "chars s1"] show ?thesis
            by (simp add: unfold)
        next
          case b: (2 c' z')
          then have "c1 \<noteq> 0" "c1 \<noteq> ucast (matchAll pInfo)" "c1 \<noteq> ucast (matchOne pInfo)"
            using read c1 by auto
          moreover have "length before < length zPattern"
            using wild_loop_shorter [of pInfo p' zString] Some r p(6) by fastforce
          then have IH: "pattern_loop pInfo esc False q s \<longleftrightarrow> matches pInfo (parse_pattern pInfo esc False (chars q)) (chars s)"
            if "length q \<le> length before" "nul_free q" "nul_free s" for q s
            using that less.hyps [of q s] by simp
          ultimately show ?thesis
            using after_star_matches [OF IH nf read _ _ _ esc] p all Some r parse M by (simp add: unfold)
        qed
      qed
    next
      case one
      show ?thesis
        using less.prems(2)
      proof (cases rule: read_cases)
        case 1
        then have "\<not> pattern_loop pInfo esc False zPattern zString"
          using one p by (subst pattern_loop.simps) simp
        with 1 one p show ?thesis
          by (simp add: matches_element)
      next
        case (2 d s')
        with one p less.hyps [of p' s'] show ?thesis
          by (auto simp: unfold matches_element)
      qed
    next
      case set
      note parsed = match_set_parses [OF p(5), where pInfo = pInfo]
      show ?thesis
        using less.prems(2)
      proof (cases rule: read_cases)
        case 1
        then have "\<not> pattern_loop pInfo esc False zPattern zString"
          using set p by (subst pattern_loop.simps) simp
        with 1 set p parsed [of 0] show ?thesis
          by (auto simp: matches_element split: option.splits)
      next
        case (2 d s')
        have loop: "pattern_loop pInfo esc False zPattern zString \<longleftrightarrow>
            (case match_set d p' of Some (True, after) \<Rightarrow> pattern_loop pInfo esc False after s' | _ \<Rightarrow> False)"
          using set p 2 by (simp add: unfold)
        show ?thesis
        proof (cases "parse_set (chars p')")
          case None
          with loop set p parsed [of d] show ?thesis
            by (simp add: matches_element)
        next
          case (Some r)
          then obtain g q where g: "parse_set (chars p') = Some (g, q)"
            by (cases r) simp
          with parsed [of d] obtain z' where z': "match_set d p' = Some (element_matches pInfo g d, z')" "chars z' = q"
            "nul_free z'" "g \<noteq> Any_many"
            by auto
          have "length z' < length zPattern"
            using match_set_shorter [OF z'(1)] p(6) by simp
          then have "pattern_loop pInfo esc False z' s' \<longleftrightarrow> matches pInfo (parse_pattern pInfo esc False q) (chars s')"
            using less.hyps [of z' s'] z'(2,3) 2(5) by simp
          with loop z' g set p 2 show ?thesis
            by (cases "element_matches pInfo g d") (simp_all add: matches_element)
        qed
      qed
    next
      case escape
      then have "matchSet pInfo = 0"
        using esc p(4) by auto
      then have "pattern_loop pInfo esc True p' zString \<longleftrightarrow> matches pInfo (parse_escaped pInfo esc (chars p')) (chars zString)"
        using p less.prems(2) less.hyps by (intro pattern_loop_escaped) auto
      then show ?thesis
        using p escape by (simp add: unfold parse_escaped_def split: list.split)
    next
      case literal
      show ?thesis
        using less.prems(2)
      proof (cases rule: read_cases)
        case 1
        then have "\<not> pattern_loop pInfo esc False zPattern zString"
          using literal p by (subst pattern_loop.simps) simp
        with 1 literal p show ?thesis
          by (simp add: matches_element)
      next
        case (2 d s')
        with literal p less.hyps [of p' s'] show ?thesis
          by (auto simp: unfold matches_element)
      qed
    qed
  qed
qed

text \<open>
  An escape character at the end of a pattern is ignored, but after a \<open>%\<close> nothing matches; and one that is also a
  wildcard escapes nothing.
\<close>

lemma escape_at_end:
  "patternCompare (map ch ''a!'') (map ch ''a'') likeInfoNorm 0x21"
  "\<not> patternCompare (map ch ''%!'') (map ch ''a'') likeInfoNorm 0x21"
  "\<not> patternCompare (map ch ''%!'') (map ch ''a!'') likeInfoNorm 0x21"
  by code_simp+

lemma escape_is_wildcard: "patternCompare (map ch ''a%%'') (map ch ''abc'') likeInfoNorm 0x25"
  by code_simp

section \<open>Properties\<close>

text \<open>
  C36: \<open>patternCompare\<close> decides the operators LIKE and GLOB: it accepts exactly the texts that the elements of the
  pattern match one after the other, where \<open>%\<close> or \<open>*\<close> stands for any number of characters, although it never
  builds the elements, skips ahead to the next literal and returns as soon as it can.
\<close>

theorem patternCompare_matches:
  assumes "nul_free zPattern" "nul_free zString" "pInfo \<in> {globInfo, likeInfoNorm, likeInfoAlt}"
    and "pInfo = globInfo \<Longrightarrow> esc = 0"
  shows "patternCompare zPattern zString pInfo esc \<longleftrightarrow>
    matches pInfo (parse_pattern pInfo esc False (chars zPattern)) (chars zString)"
  unfolding patternCompare_def
  using assms by (intro pattern_loop_matches) (auto simp: globInfo_def likeInfoNorm_def likeInfoAlt_def)

lemma patternCompare_matches_witness:
  "patternCompare (map ch ''a%_[c'') (map ch ''Axx[b[C'') likeInfoNorm 0 \<and>
   \<not> patternCompare (map ch ''*[b-d]x'') (map ch ''bexdX'') globInfo 0"
proof -
  have "nul_free (map ch ''a%_[c'')" "nul_free (map ch ''Axx[b[C'')" "nul_free (map ch ''*[b-d]x'')" "nul_free (map ch ''bexdX'')"
    "matches likeInfoNorm (parse_pattern likeInfoNorm 0 False (chars (map ch ''a%_[c''))) (chars (map ch ''Axx[b[C''))"
    "\<not> matches globInfo (parse_pattern globInfo 0 False (chars (map ch ''*[b-d]x''))) (chars (map ch ''bexdX''))"
    by code_simp+
  then show ?thesis
    using patternCompare_matches [of "map ch ''a%_[c''" "map ch ''Axx[b[C''" likeInfoNorm 0]
      patternCompare_matches [of "map ch ''*[b-d]x''" "map ch ''bexdX''" globInfo 0] by simp
qed

end
