(* ===== verification/Sqlite_Rowset.thy ===== *)
theory Sqlite_Rowset
  imports Prelude "HOL-Library.Tree"
begin

text \<open>
  The RowSet of the SQLite library (\<open>rowset.c\<close> in the amalgamation): a collection of row numbers that is filled
  in any order, tested batch by batch and read out in ascending order. A list of entries connected by \<open>pRight\<close>
  is a list, a tree of entries a tree; no entry is ever in two of them. What the code frees at the end (the
  chunks that hold the entries) is not modelled.
\<close>

section \<open>The code\<close>

text \<open>\<open>pLast\<close> is the value of the last entry of the list \<open>pEntry\<close>, when the code keeps a pointer to it.\<close>

record RowSet =
  pEntry :: "int list"
  pLast :: "int option"
  pTree :: "int tree"
  nFresh :: nat
  isSorted :: bool
  iBatch :: byte

text \<open>The surplus of the memory given to \<open>sqlite3RowSetInit\<close> has room for \<open>n\<close> entries; \<open>nFresh\<close> has 16 bits.\<close>

definition sqlite3RowSetInit :: "nat \<Rightarrow> RowSet" where
  "sqlite3RowSetInit n =
     \<lparr>pEntry = [], pLast = None, pTree = Leaf, nFresh = n mod 2 ^ 16, isSorted = True, iBatch = 0\<rparr>"

definition sqlite3RowSetClear :: "RowSet \<Rightarrow> RowSet" where
  "sqlite3RowSetClear p = p\<lparr>nFresh := 0, pEntry := [], pLast := None, pTree := Leaf, isSorted := True\<rparr>"

text \<open>
  \<open>sqlite3RowSetInsert\<close>, given whether memory for a chunk is there and how many entries a chunk has. It must not
  be called once the extraction has begun.
\<close>

definition sqlite3RowSetInsert :: "bool \<Rightarrow> nat \<Rightarrow> RowSet \<Rightarrow> int \<Rightarrow> RowSet" where
  "sqlite3RowSetInsert malloc per_chunk p rowid =
     (if nFresh p = 0 \<and> \<not> malloc then p
      else
        let p = (if nFresh p = 0 then p\<lparr>nFresh := per_chunk\<rparr> else p);
            p = p\<lparr>nFresh := nFresh p - 1\<rparr>;
            p = (case pLast p of
                   Some v \<Rightarrow> p\<lparr>isSorted := isSorted p \<and> \<not> rowid \<le> v, pEntry := pEntry p @ [rowid]\<rparr>
                 | None \<Rightarrow> p\<lparr>pEntry := [rowid]\<rparr>)
        in p\<lparr>pLast := Some rowid\<rparr>)"

fun rowSetMerge :: "int list \<Rightarrow> int list \<Rightarrow> int list" where
  "rowSetMerge (a # pA) (b # pB) =
     (if a < b then a # rowSetMerge pA (b # pB)
      else if b < a then b # rowSetMerge (a # pA) pB
      else rowSetMerge pA (b # pB))"
| "rowSetMerge [] pB = pB"
| "rowSetMerge pA [] = pA"

text \<open>
  One entry is put into the buckets: \<open>for(i=0; aBucket[i]; i++)\<close>. An empty list is a null pointer; \<open>None\<close> stands
  for an index beyond the array.
\<close>

fun bucket_loop :: "int list \<Rightarrow> int list list \<Rightarrow> int list list option" where
  "bucket_loop entry [] = None"
| "bucket_loop entry (b # bs) =
     (if b \<noteq> [] then map_option (\<lambda>bs. [] # bs) (bucket_loop (rowSetMerge b entry) bs) else Some (entry # bs))"

fun sort_loop :: "int list \<Rightarrow> int list list \<Rightarrow> int list list option" where
  "sort_loop [] aBucket = Some aBucket"
| "sort_loop (v # entries) aBucket = Option.bind (bucket_loop [v] aBucket) (sort_loop entries)"

definition rowSetSort :: "RowSet \<Rightarrow> RowSet option" where
  "rowSetSort p =
     map_option
       (\<lambda>aBucket. p\<lparr>pEntry := foldl rowSetMerge [] aBucket, pLast := None, isSorted := True\<rparr>)
       (sort_loop (pEntry p) (replicate 40 []))"

fun rowSetTreeToList :: "int tree \<Rightarrow> int list" where
  "rowSetTreeToList Leaf = []"
| "rowSetTreeToList (Node l v r) =
     (if l \<noteq> Leaf then rowSetTreeToList l @ [v] else [v]) @ (if r \<noteq> Leaf then rowSetTreeToList r else [])"

text \<open>The tree, and what is left of the list. The code calls it for a positive depth only.\<close>

fun rowSetNDeepTree :: "int list \<Rightarrow> nat \<Rightarrow> int tree \<times> int list" where
  "rowSetNDeepTree [] iDepth = (Leaf, [])"
| "rowSetNDeepTree (v # pList) 0 = (Leaf, v # pList)"
| "rowSetNDeepTree (v # pList) (Suc iDepth) =
     (if iDepth = 0 then (Node Leaf v Leaf, pList)
      else
        let (left, rest) = rowSetNDeepTree (v # pList) iDepth
        in case rest of
             [] \<Rightarrow> (left, [])
           | p # rest \<Rightarrow> let (right, rest) = rowSetNDeepTree rest iDepth in (Node left p right, rest))"

text \<open>The three ways to build a tree: from one entry, from a list that ends early, and from two subtrees.\<close>

lemma rowSetNDeepTree_cases:
  assumes "rowSetNDeepTree (v # xs) (Suc d) = (t, rest)"
  obtains "d = 0" "t = Node Leaf v Leaf" "rest = xs"
  | "0 < d" "rowSetNDeepTree (v # xs) d = (t, [])" "rest = []"
  | left w r2 right where "0 < d" "rowSetNDeepTree (v # xs) d = (left, w # r2)"
    "rowSetNDeepTree r2 d = (right, rest)" "t = Node left w right"
  using assms by (auto simp: Let_def split: if_splits prod.splits list.splits)

lemma rowSetNDeepTree_inorder: "rowSetNDeepTree xs d = (t, rest) \<Longrightarrow> inorder t @ rest = xs"
proof (induction d arbitrary: xs t rest)
  case 0
  then show ?case
    by (cases xs) auto
next
  case (Suc d)
  show ?case
  proof (cases xs)
    case (Cons v ys)
    from Suc.prems [unfolded Cons] show ?thesis
      unfolding Cons
      by (cases rule: rowSetNDeepTree_cases) (auto dest!: Suc.IH)
  qed (use Suc in auto)
qed

function tree_loop :: "nat \<Rightarrow> int tree \<Rightarrow> int list \<Rightarrow> int tree" where
  "tree_loop iDepth p [] = p"
| "tree_loop iDepth p (v # pList) =
     (let (right, rest) = rowSetNDeepTree pList iDepth in tree_loop (iDepth + 1) (Node p v right) rest)"
  by pat_completeness auto
termination
proof (relation "measure (\<lambda>(d, p, xs). length xs)")
  fix d xs x right rest v
  fix p :: "int tree"
  assume "x = rowSetNDeepTree xs d" "(right, rest) = x"
  then show "((d + 1, Node p v right, rest), (d, p, v # xs)) \<in> measure (\<lambda>(d, p, xs). length xs)"
    using rowSetNDeepTree_inorder [of xs d right rest] by (auto simp flip: length_inorder)
qed simp

fun rowSetListToTree :: "int list \<Rightarrow> int tree" where
  "rowSetListToTree [] = Leaf"
| "rowSetListToTree (v # pList) = tree_loop 1 (Node Leaf v Leaf) pList"

definition rowSetToList :: "RowSet \<Rightarrow> RowSet option" where
  "rowSetToList p =
     Option.bind (if \<not> isSorted p then rowSetSort p else Some p)
       (\<lambda>p. Some (if pTree p \<noteq> Leaf
                  then p\<lparr>pEntry := rowSetMerge (pEntry p) (rowSetTreeToList (pTree p)), pTree := Leaf\<rparr> else p))"

text \<open>The row number extracted, if the set is not empty.\<close>

definition sqlite3RowSetNext :: "RowSet \<Rightarrow> (int option \<times> RowSet) option" where
  "sqlite3RowSetNext p =
     map_option
       (\<lambda>p. case pEntry p of
              [] \<Rightarrow> (None, p)
            | v # pList \<Rightarrow> (Some v, if pList = [] then sqlite3RowSetClear p else p\<lparr>pEntry := pList\<rparr>))
       (rowSetToList p)"

fun tree_search :: "int \<Rightarrow> int tree \<Rightarrow> bool" where
  "tree_search iRowid Leaf = False"
| "tree_search iRowid (Node l v r) =
     (if v < iRowid then tree_search iRowid r else if iRowid < v then tree_search iRowid l else True)"

definition sqlite3RowSetTest :: "RowSet \<Rightarrow> byte \<Rightarrow> int \<Rightarrow> (bool \<times> RowSet) option" where
  "sqlite3RowSetTest p batch iRowid =
     Option.bind
       (if batch \<noteq> iBatch p then
          map_option (\<lambda>p. p\<lparr>iBatch := batch\<rparr>)
            (if pEntry p \<noteq> [] then
               map_option (\<lambda>p. p\<lparr>pTree := rowSetListToTree (pEntry p), pEntry := [], pLast := None\<rparr>) (rowSetToList p)
             else Some p)
        else Some p)
       (\<lambda>p. Some (tree_search iRowid (pTree p), p))"

section \<open>Merging and sorting\<close>

named_theorems rowset

abbreviation ascending :: "int list \<Rightarrow> bool" where
  "ascending \<equiv> sorted_wrt (<)"

lemma set_rowSetMerge [rowset]: "set (rowSetMerge a b) = set a \<union> set b"
  by (induction a b rule: rowSetMerge.induct) auto

lemma ascending_rowSetMerge [rowset]: "ascending a \<Longrightarrow> ascending b \<Longrightarrow> ascending (rowSetMerge a b)"
  by (induction a b rule: rowSetMerge.induct) (auto simp: set_rowSetMerge not_less dest: order.strict_trans)

lemma rowSetMerge_Nil [simp]: "rowSetMerge a [] = a"
  by (cases a) auto

lemma rowSetMerge_eq_Nil [simp]: "rowSetMerge a b = [] \<longleftrightarrow> a = [] \<and> b = []"
  using set_rowSetMerge [of a b] by (metis Un_empty set_empty)

text \<open>An ascending list is determined by its elements.\<close>

lemma ascending_eq: "ascending xs \<Longrightarrow> xs = sorted_list_of_set (set xs)"
  by (simp add: strict_sorted_equal strict_sorted_iff sorted_list_of_set.distinct_sorted_key_list_of_set
      flip: sorted_list_of_set_sort_remdups)

text \<open>
  The buckets count the entries in binary: bucket \<open>i\<close> is in use when bit \<open>i\<close> of the number of entries is set.
  So \<open>n\<close> buckets hold fewer than \<open>2 ^ n\<close> entries, and the index stays inside the array for that many.
\<close>

fun entries_in :: "int list list \<Rightarrow> nat" where
  "entries_in [] = 0"
| "entries_in (b # bs) = (if b = [] then 0 else 1) + 2 * entries_in bs"

lemma bucket_loop_counts:
  "entry \<noteq> [] \<Longrightarrow> entries_in bs + 1 < 2 ^ length bs \<Longrightarrow> list_all ascending (entry # bs) \<Longrightarrow>
   \<exists>bs'. bucket_loop entry bs = Some bs' \<and> length bs' = length bs \<and> entries_in bs' = entries_in bs + 1 \<and>
         list_all ascending bs' \<and> set (concat bs') = set entry \<union> set (concat bs)"
proof (induction entry bs rule: bucket_loop.induct)
  case (2 entry b bs)
  show ?case
  proof (cases "b = []")
    case False
    then obtain bs' where "bucket_loop (rowSetMerge b entry) bs = Some bs'" "length bs' = length bs"
      "entries_in bs' = entries_in bs + 1" "list_all ascending bs'"
      "set (concat bs') = set b \<union> set entry \<union> set (concat bs)"
      using 2 by (auto simp: rowset)
    then show ?thesis
      using False by auto
  qed (use 2 in auto)
qed simp

lemma sort_loop_collects:
  "entries_in bs + length xs < 2 ^ length bs \<Longrightarrow> list_all ascending bs \<Longrightarrow>
   \<exists>bs'. sort_loop xs bs = Some bs' \<and> list_all ascending bs' \<and> set (concat bs') = set xs \<union> set (concat bs)"
proof (induction xs arbitrary: bs)
  case (Cons x xs)
  obtain b1 where b1: "bucket_loop [x] bs = Some b1" "length b1 = length bs" "entries_in b1 = entries_in bs + 1"
    "list_all ascending b1" "set (concat b1) = insert x (set (concat bs))"
    using bucket_loop_counts [of "[x]" bs] Cons.prems by auto
  then obtain b2 where "sort_loop xs b1 = Some b2" "list_all ascending b2"
    "set (concat b2) = set xs \<union> set (concat b1)"
    using Cons.IH [of b1] Cons.prems by auto
  with b1 show ?case
    by auto
qed auto

lemma foldl_rowSetMerge:
  "ascending a \<Longrightarrow> list_all ascending bs \<Longrightarrow>
   ascending (foldl rowSetMerge a bs) \<and> set (foldl rowSetMerge a bs) = set a \<union> set (concat bs)"
  by (induction bs arbitrary: a) (auto simp: rowset)

lemma entries_in_empty [simp]: "entries_in (replicate n []) = 0"
  by (induction n) auto

lemma rowSetSort_sorts:
  assumes "length (pEntry p) < 2 ^ 40"
  shows "rowSetSort p =
    Some (p\<lparr>pEntry := sorted_list_of_set (set (pEntry p)), pLast := None, isSorted := True\<rparr>)"
proof -
  obtain bs where bs: "sort_loop (pEntry p) (replicate 40 []) = Some bs" "list_all ascending bs"
    "set (concat bs) = set (pEntry p)"
    using sort_loop_collects [of "replicate 40 []" "pEntry p"] assms by (auto simp: list_all_length)
  with foldl_rowSetMerge [of "[]" bs] show ?thesis
    by (auto simp: rowSetSort_def dest: ascending_eq)
qed

section \<open>Lists and trees\<close>

lemma rowSetTreeToList_inorder [rowset]: "rowSetTreeToList t = inorder t"
  by (induction t) auto

lemma tree_loop_inorder: "inorder (tree_loop d p xs) = inorder p @ xs"
  by (induction d p xs rule: tree_loop.induct)
    (auto split: prod.splits dest: rowSetNDeepTree_inorder)

lemma rowSetListToTree_inorder [rowset]: "inorder (rowSetListToTree xs) = xs"
  by (cases xs) (auto simp: tree_loop_inorder)

text \<open>
  The trees are as low as they can be: a subtree built for depth \<open>d\<close> is full unless it takes the rest of the list.
\<close>

lemma rowSetNDeepTree_full:
  "rowSetNDeepTree xs d = (t, rest) \<Longrightarrow> height t \<le> d \<and> (rest \<noteq> [] \<longrightarrow> size t + 1 = 2 ^ d)"
proof (induction d arbitrary: xs t rest)
  case 0
  then show ?case
    by (cases xs) auto
next
  case (Suc d)
  show ?case
  proof (cases xs)
    case (Cons v ys)
    from Suc.prems [unfolded Cons] show ?thesis
      by (cases rule: rowSetNDeepTree_cases) (fastforce dest!: Suc.IH)+
  qed (use Suc in auto)
qed

lemma tree_loop_height:
  "height p \<le> d \<Longrightarrow> size p + 1 = 2 ^ d \<Longrightarrow> 0 < d \<Longrightarrow> 2 ^ height (tree_loop d p xs) \<le> 2 * size (tree_loop d p xs)"
proof (induction d p xs rule: tree_loop.induct)
  case (1 d p)
  have "(2::nat) ^ height p \<le> 2 ^ d" "(2::nat) ^ 1 \<le> 2 ^ d"
    using 1 by (intro power_increasing; simp)+
  then have "2 ^ height p \<le> size p + 1" "1 \<le> size p"
    using 1 by simp_all
  then show ?case
    by simp
next
  case (2 d p v xs)
  obtain right rest where r: "rowSetNDeepTree xs d = (right, rest)"
    by fastforce
  note full = rowSetNDeepTree_full [OF r]
  show ?case
  proof (cases rest)
    case Nil
    have "(2::nat) ^ height (Node p v right) \<le> 2 ^ (d + 1)"
      using full 2 by (intro power_increasing) auto
    moreover have "(2::nat) ^ (d + 1) \<le> 2 * size (Node p v right)"
      using 2 by simp
    ultimately show ?thesis
      using r Nil by (simp only: tree_loop.simps Let_def split_def fst_conv snd_conv)
  next
    case (Cons y ys)
    then show ?thesis
      using r full 2 by simp
  qed
qed

lemma rowSetListToTree_height: "xs \<noteq> [] \<Longrightarrow> 2 ^ height (rowSetListToTree xs) \<le> 2 * length xs"
proof (cases xs)
  case (Cons v ys)
  have "size (rowSetListToTree xs) = length xs"
    by (metis length_inorder rowSetListToTree_inorder)
  with Cons show ?thesis
    using tree_loop_height [of "Node Leaf v Leaf" 1 ys] by simp
qed simp

lemma tree_search_member: "ascending (inorder t) \<Longrightarrow> tree_search v t \<longleftrightarrow> v \<in> set_tree t"
proof (induction t)
  case (Node l w r)
  then have "\<forall>x \<in> set_tree l. x < w" "\<forall>x \<in> set_tree r. w < x"
    by (simp_all add: sorted_wrt_append)
  with Node show ?case
    by (force simp: sorted_wrt_append)
qed simp

section \<open>The contract of a set that is tested in batches\<close>

text \<open>
  What the client of a RowSet calls between the creation and the extraction: a row is inserted, or a batch number
  and a row are tested.
\<close>

datatype rowset_op = Op_insert int | Op_test byte int

fun run_ops :: "('s \<Rightarrow> int \<Rightarrow> 's) \<Rightarrow> ('s \<Rightarrow> byte \<Rightarrow> int \<Rightarrow> (bool \<times> 's) option) \<Rightarrow> rowset_op list \<Rightarrow> 's \<Rightarrow> (bool list \<times> 's) option" where
  "run_ops ins tst [] s = Some ([], s)"
| "run_ops ins tst (Op_insert v # ops) s = run_ops ins tst ops (ins s v)"
| "run_ops ins tst (Op_test b v # ops) s =
     Option.bind (tst s b v) (\<lambda>(r, s). map_option (\<lambda>(rs, s). (r # rs, s)) (run_ops ins tst ops s))"

text \<open>
  The specification: the rows that tests see, the rows inserted since the batch number last changed, and that number.
\<close>

fun spec_answers :: "rowset_op list \<Rightarrow> int set \<Rightarrow> int set \<Rightarrow> byte \<Rightarrow> bool list" where
  "spec_answers [] seen pending batch = []"
| "spec_answers (Op_insert v # ops) seen pending batch = spec_answers ops seen (insert v pending) batch"
| "spec_answers (Op_test b v # ops) seen pending batch =
     (if b = batch then (v \<in> seen) # spec_answers ops seen pending batch
      else (v \<in> seen \<union> pending) # spec_answers ops (seen \<union> pending) {} b)"

definition inserted_rows :: "rowset_op list \<Rightarrow> int set" where
  "inserted_rows ops = {v. Op_insert v \<in> set ops}"

lemma inserted_rows_simps [simp]:
  "inserted_rows [] = {}"
  "inserted_rows (Op_insert v # ops) = insert v (inserted_rows ops)"
  "inserted_rows (Op_test b v # ops) = inserted_rows ops"
  by (auto simp: inserted_rows_def)

text \<open>\<open>ok n s\<close> says that \<open>s\<close> is a state in which \<open>n\<close> more rows may be inserted.\<close>

locale batched_set =
  fixes ok :: "nat \<Rightarrow> 's \<Rightarrow> bool"
    and seen pending :: "'s \<Rightarrow> int set"
    and batch_of :: "'s \<Rightarrow> byte"
    and ins :: "'s \<Rightarrow> int \<Rightarrow> 's"
    and tst :: "'s \<Rightarrow> byte \<Rightarrow> int \<Rightarrow> (bool \<times> 's) option"
  assumes ins_ok: "ok (Suc n) s \<Longrightarrow> ok n (ins s v)"
    and ins_abs: "ok (Suc n) s \<Longrightarrow>
      seen (ins s v) = seen s \<and> pending (ins s v) = insert v (pending s) \<and> batch_of (ins s v) = batch_of s"
    and tst_same: "ok n s \<Longrightarrow> tst s (batch_of s) v = Some (v \<in> seen s, s)"
    and tst_new: "ok n s \<Longrightarrow> b \<noteq> batch_of s \<Longrightarrow>
      \<exists>s'. tst s b v = Some (v \<in> seen s \<union> pending s, s') \<and> ok n s' \<and> batch_of s' = b \<and>
        seen s' = seen s \<union> pending s \<and> pending s' = {}"
    and ok_less: "ok (Suc n) s \<Longrightarrow> ok n s"
begin

lemma run_refines:
  "ok (length ops) s \<Longrightarrow>
   \<exists>s'. run_ops ins tst ops s = Some (spec_answers ops (seen s) (pending s) (batch_of s), s') \<and> ok 0 s' \<and>
     seen s' \<union> pending s' = seen s \<union> pending s \<union> inserted_rows ops"
proof (induction ops arbitrary: s)
  case (Cons a ops)
  show ?case
  proof (cases a)
    case (Op_insert v)
    with Cons.prems have "ok (Suc (length ops)) s"
      by simp
    from ins_ok [OF this, of v] ins_abs [OF this, of v] Cons.IH [of "ins s v"] Op_insert show ?thesis
      by auto
  next
    case (Op_test b v)
    have ok: "ok (length ops) s"
      using Cons.prems by (auto dest: ok_less)
    show ?thesis
    proof (cases "b = batch_of s")
      case True
      then show ?thesis
        using Cons.IH [OF ok] tst_same [OF ok] Op_test by auto
    next
      case False
      with tst_new [OF ok False, of v] obtain s1 where s1: "tst s b v = Some (v \<in> seen s \<union> pending s, s1)"
        "ok (length ops) s1" "batch_of s1 = b" "seen s1 = seen s \<union> pending s" "pending s1 = {}"
        by blast
      with Cons.IH [OF s1(2)] False Op_test show ?thesis
        by auto
    qed
  qed
qed auto

end

section \<open>The invariant\<close>

text \<open>
  Between the creation and the extraction the tree is a search tree, the flag is honest and \<open>pLast\<close> is the last
  entry of the list. \<open>n\<close> more entries keep the list short enough for the buckets of the sort.
\<close>

definition rowset_ok :: "nat \<Rightarrow> RowSet \<Rightarrow> bool" where
  "rowset_ok n p \<longleftrightarrow>
     ascending (inorder (pTree p)) \<and> (isSorted p \<longrightarrow> ascending (pEntry p)) \<and>
     pLast p = (if pEntry p = [] then None else Some (last (pEntry p))) \<and> length (pEntry p) + n < 2 ^ 40"

lemma rowset_ok_init: "n < 2 ^ 40 \<Longrightarrow> rowset_ok n (sqlite3RowSetInit m)"
  by (simp add: rowset_ok_def sqlite3RowSetInit_def)

lemma ascending_snoc: "ascending (xs @ [v]) \<longleftrightarrow> ascending xs \<and> (xs = [] \<or> last xs < v)"
  by (induction xs rule: rev_induct) (auto simp: sorted_wrt_append)

lemma rowset_ok_insert: "rowset_ok (Suc n) p \<Longrightarrow> rowset_ok n (sqlite3RowSetInsert malloc per_chunk p v)"
  by (auto simp: rowset_ok_def sqlite3RowSetInsert_def Let_def ascending_snoc split: option.splits if_splits)

lemma sqlite3RowSetInsert_adds:
  "rowset_ok n p \<Longrightarrow> malloc \<or> nFresh p \<noteq> 0 \<Longrightarrow>
   pTree (sqlite3RowSetInsert malloc per_chunk p v) = pTree p \<and>
   pEntry (sqlite3RowSetInsert malloc per_chunk p v) = pEntry p @ [v] \<and>
   iBatch (sqlite3RowSetInsert malloc per_chunk p v) = iBatch p"
  by (auto simp: rowset_ok_def sqlite3RowSetInsert_def Let_def split: option.splits if_splits)

text \<open>The list holds every row afterwards, in order.\<close>

lemma rowSetToList_sorts:
  assumes "rowset_ok n p"
  obtains q where "rowSetToList p = Some q"
    "pEntry q = sorted_list_of_set (set (pEntry p) \<union> set_tree (pTree p))"
    "pTree q = Leaf" "isSorted q" "iBatch q = iBatch p"
proof -
  obtain p1 where p1: "(if \<not> isSorted p then rowSetSort p else Some p) = Some p1" "ascending (pEntry p1)"
    "set (pEntry p1) = set (pEntry p)" "pTree p1 = pTree p" "isSorted p1" "iBatch p1 = iBatch p"
    using assms by (cases "isSorted p") (simp_all add: rowSetSort_sorts rowset_ok_def)
  define l where "l = rowSetMerge (pEntry p1) (inorder (pTree p1))"
  have "ascending l" "set l = set (pEntry p) \<union> set_tree (pTree p)"
    using assms p1 by (simp_all add: l_def rowset rowset_ok_def)
  then have "l = sorted_list_of_set (set (pEntry p) \<union> set_tree (pTree p))"
    using ascending_eq by metis
  with p1 that show ?thesis
    by (cases "pTree p = Leaf") (auto simp: rowSetToList_def rowSetTreeToList_inorder l_def)
qed

lemma rowset_test_new:
  assumes "rowset_ok n p" "b \<noteq> iBatch p"
  obtains q where "sqlite3RowSetTest p b v = Some (v \<in> set (pEntry p) \<union> set_tree (pTree p), q)"
    "rowset_ok n q" "iBatch q = b" "set_tree (pTree q) = set (pEntry p) \<union> set_tree (pTree p)" "pEntry q = []"
proof (cases "pEntry p = []")
  case True
  with assms that [of "p\<lparr>iBatch := b\<rparr>"] show ?thesis
    by (simp add: sqlite3RowSetTest_def rowset_ok_def tree_search_member)
next
  case False
  obtain q where q: "rowSetToList p = Some q"
    "pEntry q = sorted_list_of_set (set (pEntry p) \<union> set_tree (pTree p))" "isSorted q"
    using rowSetToList_sorts [OF assms(1)] by metis
  define t where "t = rowSetListToTree (pEntry q)"
  have t: "inorder t = sorted_list_of_set (set (pEntry p) \<union> set_tree (pTree p))"
    by (simp add: t_def rowset q)
  have "set_tree t = set (pEntry p) \<union> set_tree (pTree p)"
    using t by (metis finite_Un finite_set finite_set_tree set_inorder set_sorted_list_of_set)
  moreover have "ascending (inorder t)"
    by (simp add: t)
  ultimately show ?thesis
    using that [of "q\<lparr>pTree := t, pEntry := [], pLast := None, iBatch := b\<rparr>"] assms q False
    by (simp add: sqlite3RowSetTest_def rowset_ok_def tree_search_member t_def)
qed

lemma rowset_test_same:
  "rowset_ok n p \<Longrightarrow> sqlite3RowSetTest p (iBatch p) v = Some (v \<in> set_tree (pTree p), p)"
  by (simp add: sqlite3RowSetTest_def rowset_ok_def tree_search_member)

interpretation rs: batched_set rowset_ok "\<lambda>p. set_tree (pTree p)" "\<lambda>p. set (pEntry p)" iBatch
  "sqlite3RowSetInsert True per_chunk" sqlite3RowSetTest for per_chunk
proof
  fix n p v b
  show "rowset_ok n (sqlite3RowSetInsert True per_chunk p v)" if "rowset_ok (Suc n) p"
    using that by (rule rowset_ok_insert)
  show "set_tree (pTree (sqlite3RowSetInsert True per_chunk p v)) = set_tree (pTree p) \<and>
    set (pEntry (sqlite3RowSetInsert True per_chunk p v)) = insert v (set (pEntry p)) \<and>
    iBatch (sqlite3RowSetInsert True per_chunk p v) = iBatch p" if "rowset_ok (Suc n) p"
    using sqlite3RowSetInsert_adds [OF that] by auto
  show "\<exists>p'. sqlite3RowSetTest p b v = Some (v \<in> set_tree (pTree p) \<union> set (pEntry p), p') \<and> rowset_ok n p' \<and>
    iBatch p' = b \<and> set_tree (pTree p') = set_tree (pTree p) \<union> set (pEntry p) \<and> set (pEntry p') = {}"
    if "rowset_ok n p" "b \<noteq> iBatch p"
    using rowset_test_new [OF that, of v] by (metis Un_commute set_empty)
qed (simp_all add: rowset_test_same, simp add: rowset_ok_def)

section \<open>The extraction\<close>

text \<open>The client reads rows until there is none left.\<close>

partial_function (option) drain :: "RowSet \<Rightarrow> int list option" where
  "drain p =
     Option.bind (sqlite3RowSetNext p)
       (\<lambda>(r, p). case r of None \<Rightarrow> Some [] | Some v \<Rightarrow> Option.bind (drain p) (\<lambda>vs. Some (v # vs)))"

lemma drain_list:
  "isSorted p \<Longrightarrow> pTree p = Leaf \<Longrightarrow> drain p = Some (pEntry p)"
proof (induction "pEntry p" arbitrary: p)
  case Nil
  then show ?case
    by (subst drain.simps) (simp add: sqlite3RowSetNext_def rowSetToList_def flip: Nil.hyps)
next
  case (Cons v xs)
  define p1 where "p1 = (if xs = [] then sqlite3RowSetClear p else p\<lparr>pEntry := xs\<rparr>)"
  have "drain p1 = Some xs"
    using Cons.hyps(1) [of p1] Cons.prems by (auto simp: p1_def sqlite3RowSetClear_def)
  moreover have "sqlite3RowSetNext p = Some (Some v, p1)"
    using Cons.prems by (simp add: sqlite3RowSetNext_def rowSetToList_def p1_def flip: Cons.hyps(2))
  ultimately show ?case
    by (subst drain.simps) (simp flip: Cons.hyps(2))
qed

lemma drain_sorts:
  assumes "rowset_ok n p"
  shows "drain p = Some (sorted_list_of_set (set_tree (pTree p) \<union> set (pEntry p)))"
proof -
  obtain q where q: "rowSetToList p = Some q"
    "pEntry q = sorted_list_of_set (set (pEntry p) \<union> set_tree (pTree p))" "pTree q = Leaf" "isSorted q"
    using rowSetToList_sorts [OF assms] by metis
  have "rowSetToList q = Some q"
    using q by (simp add: rowSetToList_def)
  then have "drain p = drain q"
    using q by (subst (1 2) drain.simps) (simp add: sqlite3RowSetNext_def)
  then show ?thesis
    using drain_list [of q] q by (simp add: Un_commute)
qed

section \<open>Every reachable state\<close>

text \<open>
  The states of a RowSet before the extraction, after so many calls of \<open>sqlite3RowSetInsert\<close>, of which any may
  fail for lack of memory. \<open>m\<close> entries have room in the memory it was made from, \<open>c\<close> in a chunk.
\<close>

inductive rowset_reach :: "nat \<Rightarrow> nat \<Rightarrow> nat \<Rightarrow> RowSet \<Rightarrow> bool" for m c where
  made: "rowset_reach m c 0 (sqlite3RowSetInit m)"
| inserted: "rowset_reach m c k p \<Longrightarrow> rowset_reach m c (Suc k) (sqlite3RowSetInsert malloc c p v)"
| tested: "rowset_reach m c k p \<Longrightarrow> sqlite3RowSetTest p b v = Some (r, q) \<Longrightarrow> rowset_reach m c k q"

definition low_tree :: "int tree \<Rightarrow> bool" where
  "low_tree t \<longleftrightarrow> t = Leaf \<or> 2 ^ height t \<le> 2 * size t"

lemma low_tree_listToTree: "low_tree (rowSetListToTree xs)"
  using rowSetListToTree_height [of xs] rowSetListToTree_inorder [of xs]
  by (cases "xs = []") (auto simp: low_tree_def simp flip: length_inorder)

lemma rowset_ok_test:
  assumes "rowset_ok n p" "sqlite3RowSetTest p b v = Some (r, q)"
  shows "rowset_ok n q"
proof (cases "b = iBatch p")
  case False
  from rowset_test_new [OF assms(1) this, of v] assms(2) show ?thesis
    by auto
qed (use assms in \<open>auto simp: rowset_test_same\<close>)

lemma rowSetSort_frame:
  "rowSetSort p = Some q \<Longrightarrow> pTree q = pTree p \<and> nFresh q = nFresh p"
  by (auto simp: rowSetSort_def)

lemma rowset_test_frame:
  "sqlite3RowSetTest p b v = Some (r, q) \<Longrightarrow> nFresh q = nFresh p \<and> (low_tree (pTree p) \<longrightarrow> low_tree (pTree q))"
  by (auto simp: sqlite3RowSetTest_def rowSetToList_def low_tree_listToTree bind_eq_Some_conv
      dest!: rowSetSort_frame split: if_splits)

lemma rowset_insert_frame:
  "0 < c \<Longrightarrow> c < 2 ^ 16 \<Longrightarrow> nFresh p < 2 ^ 16 \<Longrightarrow> nFresh (sqlite3RowSetInsert malloc c p v) < 2 ^ 16 \<and>
   pTree (sqlite3RowSetInsert malloc c p v) = pTree p"
  by (auto simp: sqlite3RowSetInsert_def Let_def split: option.splits)

lemma rowset_reach_invariant:
  assumes "rowset_reach m c k p" "0 < c" "c < 2 ^ 16"
  shows "k + n < 2 ^ 40 \<longrightarrow> rowset_ok n p" and "nFresh p < 2 ^ 16" and "low_tree (pTree p)"
proof -
  have "(\<forall>n. k + n < 2 ^ 40 \<longrightarrow> rowset_ok n p) \<and> nFresh p < 2 ^ 16 \<and> low_tree (pTree p)"
    using assms
  proof (induction rule: rowset_reach.induct)
    case made
    then show ?case
      by (simp add: rowset_ok_init) (simp add: sqlite3RowSetInit_def low_tree_def)
  next
    case (inserted k p malloc v)
    then show ?case
      using rowset_insert_frame [of c p malloc v] by (auto intro!: rowset_ok_insert)
  next
    case (tested k p b v r q)
    then show ?case
      using rowset_test_frame [of p b v r q] by (auto dest: rowset_ok_test)
  qed
  then show "k + n < 2 ^ 40 \<longrightarrow> rowset_ok n p" "nFresh p < 2 ^ 16" "low_tree (pTree p)"
    by blast+
qed

section \<open>Properties\<close>

text \<open>
  C33: A RowSet answers every sequence of insertions and tests the way its description says: a test sees the rows
  inserted before the batch number last changed and no others, whatever order the rows came in.
\<close>

theorem sqlite3RowSet_refines:
  assumes "length ops < 2 ^ 40"
  shows "map_option fst (run_ops (sqlite3RowSetInsert True c) sqlite3RowSetTest ops (sqlite3RowSetInit m)) =
    Some (spec_answers ops {} {} 0)"
  using rs.run_refines [OF rowset_ok_init [OF assms], of c m] by (auto simp: sqlite3RowSetInit_def)

lemma sqlite3RowSet_refines_witness:
  "map_option fst (run_ops (sqlite3RowSetInsert True 42) sqlite3RowSetTest
     [Op_insert 7, Op_insert 3, Op_test 0 7, Op_test 1 7, Op_insert 9, Op_test 1 9, Op_test 2 9]
     (sqlite3RowSetInit 1)) = Some [False, True, False, True]"
  by (subst sqlite3RowSet_refines) simp_all

text \<open>
  C34: After any such sequence the extraction returns every row that was inserted exactly once and in ascending
  order, and then reports that the set is empty: reading until there is no more comes to an end.
\<close>

theorem sqlite3RowSetNext_extracts:
  assumes "length ops < 2 ^ 40"
  shows "\<exists>answers p.
    run_ops (sqlite3RowSetInsert True c) sqlite3RowSetTest ops (sqlite3RowSetInit m) = Some (answers, p) \<and>
    drain p = Some (sorted_list_of_set (inserted_rows ops))"
proof -
  obtain p where "run_ops (sqlite3RowSetInsert True c) sqlite3RowSetTest ops (sqlite3RowSetInit m) =
      Some (spec_answers ops {} {} 0, p)" "rowset_ok 0 p"
    "set_tree (pTree p) \<union> set (pEntry p) = inserted_rows ops"
    using rs.run_refines [OF rowset_ok_init [OF assms], of c m] by (auto simp: sqlite3RowSetInit_def)
  with drain_sorts [of 0 p] show ?thesis
    by simp
qed

lemma sqlite3RowSetNext_extracts_witness:
  "\<exists>answers p.
    run_ops (sqlite3RowSetInsert True 42) sqlite3RowSetTest
      [Op_insert 7, Op_insert 3, Op_test 1 7, Op_insert 3, Op_insert 5] (sqlite3RowSetInit 0) = Some (answers, p) \<and>
    drain p = Some [3, 5, 7]"
proof -
  have "length [Op_insert 7, Op_insert 3, Op_test 1 7, Op_insert 3, Op_insert 5] < 2 ^ 40"
    by simp
  from sqlite3RowSetNext_extracts [OF this, of 42 0] show ?thesis
    by simp
qed

text \<open>
  C35: In every state that insertions and tests can reach from a new object, failed ones included, the tree of a RowSet is a search
  tree and as low as the number of its rows allows, the list is in order when the flag says so, \<open>pLast\<close> is its
  last entry, the count of free entries fits its 16 bits, and a test returns.
\<close>

theorem sqlite3RowSet_invariant:
  assumes "rowset_reach m c k p" "0 < c" "c < 2 ^ 16" "k < 2 ^ 40"
  shows "ascending (inorder (pTree p)) \<and> (pTree p = Leaf \<or> 2 ^ height (pTree p) \<le> 2 * size (pTree p)) \<and>
    (isSorted p \<longrightarrow> ascending (pEntry p)) \<and> pLast p = (if pEntry p = [] then None else Some (last (pEntry p))) \<and>
    nFresh p < 2 ^ 16 \<and> sqlite3RowSetTest p b v \<noteq> None"
proof -
  have ok: "rowset_ok 0 p"
    using rowset_reach_invariant(1) [OF assms(1-3), of 0] assms(4) by simp
  moreover have "sqlite3RowSetTest p b v \<noteq> None"
  proof (cases "b = iBatch p")
    case False
    show ?thesis
      by (rule rowset_test_new [OF ok False, of v]) simp
  qed (simp add: rowset_test_same [OF ok])
  ultimately show ?thesis
    using rowset_reach_invariant(2,3) [OF assms(1-3)] by (simp add: rowset_ok_def low_tree_def)
qed

lemma sqlite3RowSet_invariant_witness:
  "sqlite3RowSetTest (sqlite3RowSetInsert True 42 (sqlite3RowSetInit 0) 7) 1 7 \<noteq> None"
proof -
  have "rowset_reach 0 42 (Suc 0) (sqlite3RowSetInsert True 42 (sqlite3RowSetInit 0) 7)"
    by (intro rowset_reach.intros)
  from sqlite3RowSet_invariant [OF this, of 1 7] show ?thesis
    by simp
qed

end
