(* ===== verification/Sqlite_Bitvec.thy ===== *)
theory Sqlite_Bitvec
  imports Sqlite_Chars
begin

text \<open>
  The Bitvec of the SQLite library (\<open>bitvec.c\<close> in the amalgamation): a set of numbers from 1 to \<open>iSize\<close>, kept as
  a bitmap, as a hash table with linear probing or as an array of smaller Bitvecs. The size \<open>w\<close> of a pointer
  decides how large these are and is an argument. The numbers of 32 bits are natural numbers; where the code can
  exceed their range the reduction is written out.
\<close>

section \<open>The code\<close>

definition BITVEC_SZ :: "nat \<Rightarrow> nat" where "BITVEC_SZ w = w * 128"
definition BITVEC_USIZE :: "nat \<Rightarrow> nat" where "BITVEC_USIZE w = (BITVEC_SZ w - 3 * 4) div w * w"
definition BITVEC_SZELEM :: nat where "BITVEC_SZELEM = 8"
definition BITVEC_NELEM :: "nat \<Rightarrow> nat" where "BITVEC_NELEM w = BITVEC_USIZE w div 1"
definition BITVEC_NBIT :: "nat \<Rightarrow> nat" where "BITVEC_NBIT w = BITVEC_NELEM w * BITVEC_SZELEM"
definition BITVEC_NINT :: "nat \<Rightarrow> nat" where "BITVEC_NINT w = BITVEC_USIZE w div 4"
definition BITVEC_MXHASH :: "nat \<Rightarrow> nat" where "BITVEC_MXHASH w = BITVEC_NINT w div 2"
definition BITVEC_HASH :: "nat \<Rightarrow> nat \<Rightarrow> nat" where "BITVEC_HASH w X = (X * 1) mod BITVEC_NINT w"
definition BITVEC_NPTR :: "nat \<Rightarrow> nat" where "BITVEC_NPTR w = BITVEC_USIZE w div w"

text \<open>The union has a constructor for each of its members.\<close>

datatype 'p bitvec_union = aBitmap "byte list" | aHash "nat list" | apSub "'p option list"

datatype bitvec = Bitvec (iSize: nat) (nSet: nat) (iDivisor: nat) (u: "bitvec bitvec_union")

text \<open>Memory filled with zeros, as the object reads it. The first argument tells whether there is memory.\<close>

definition sqlite3BitvecCreate :: "nat \<Rightarrow> bool \<Rightarrow> nat \<Rightarrow> bitvec option" where
  "sqlite3BitvecCreate w malloc sz =
     (if malloc then
        Some (Bitvec sz 0 0 (if sz \<le> BITVEC_NBIT w then aBitmap (replicate (BITVEC_NELEM w) 0)
                             else aHash (replicate (BITVEC_NINT w) 0)))
      else None)"

text \<open>
  The search of \<open>sqlite3BitvecTest\<close> and \<open>sqlite3BitvecSet\<close> from the slot \<open>h\<close>: whether \<open>v\<close> was found, and the slot.
  A search that has seen as many slots as the table has does not end (\<open>None\<close>).
\<close>

fun hash_find :: "nat \<Rightarrow> nat list \<Rightarrow> nat \<Rightarrow> nat \<Rightarrow> (bool \<times> nat) option" where
  "hash_find 0 t v h = None"
| "hash_find (Suc n) t v h =
     (if t ! h = 0 then Some (False, h)
      else if t ! h = v then Some (True, h)
      else hash_find n t v ((h + 1) mod length t))"

text \<open>The search of \<open>sqlite3BitvecClear\<close> for a free slot.\<close>

fun free_slot :: "nat \<Rightarrow> nat list \<Rightarrow> nat \<Rightarrow> nat option" where
  "free_slot 0 t h = None"
| "free_slot (Suc n) t h =
     (if t ! h = 0 then Some h else free_slot n t (if length t \<le> h + 1 then 0 else h + 1))"

text \<open>
  \<open>None\<close> is an index beyond an array, a member of the union that was not written, or a search that does not end.
  \<open>i\<close> counts from zero.
\<close>

lemma size_apSub [termination_simp]:
  "subs ! b = Some q \<Longrightarrow> b < length subs \<Longrightarrow> size q < Suc (size_list (size_option size) subs)"
  using size_list_estimation [of "Some q" subs "size q" "size_option size"] by (force dest: nth_mem)

fun bitvec_test :: "nat \<Rightarrow> bitvec \<Rightarrow> nat \<Rightarrow> bool option" where
  "bitvec_test w (Bitvec sz ns dv (aBitmap bs)) i =
     (if dv = 0 \<and> sz \<le> BITVEC_NBIT w \<and> i div BITVEC_SZELEM < length bs
      then Some (bs ! (i div BITVEC_SZELEM) AND push_bit (i AND (BITVEC_SZELEM - 1)) 1 \<noteq> 0) else None)"
| "bitvec_test w (Bitvec sz ns dv (aHash t)) i =
     (if dv = 0 \<and> \<not> sz \<le> BITVEC_NBIT w then map_option fst (hash_find (BITVEC_NINT w) t (i + 1) (BITVEC_HASH w i))
      else None)"
| "bitvec_test w (Bitvec sz ns dv (apSub subs)) i =
     (if dv \<noteq> 0 \<and> i div dv < length subs then
        case subs ! (i div dv) of None \<Rightarrow> Some False | Some q \<Rightarrow> bitvec_test w q (i mod dv)
      else None)"

definition sqlite3BitvecTest :: "nat \<Rightarrow> bitvec option \<Rightarrow> nat \<Rightarrow> bool option" where
  "sqlite3BitvecTest w p i =
     (case p of
        None \<Rightarrow> Some False
      | Some p \<Rightarrow> if iSize p < i \<or> i = 0 then Some False else bitvec_test w p (i - 1))"

text \<open>
  \<open>malloc k\<close> tells whether the \<open>k\<close>-th allocation succeeds. The loop at the end of the re-hashing sets the values of
  the old table and joins the return codes.
\<close>

fun set_values ::
  "(nat \<Rightarrow> bitvec \<Rightarrow> nat \<Rightarrow> (nat \<times> nat \<times> bitvec) option) \<Rightarrow> nat list \<Rightarrow> nat \<times> nat \<times> bitvec \<Rightarrow>
   (nat \<times> nat \<times> bitvec) option" where
  "set_values f [] s = Some s"
| "set_values f (v # aiValues) (rc, k, p) =
     (if v \<noteq> 0 then Option.bind (f k p (v - 1)) (\<lambda>(rc', k, p). set_values f aiValues (rc OR rc', k, p))
      else set_values f aiValues (rc, k, p))"

definition rehash_divisor :: "nat \<Rightarrow> nat \<Rightarrow> nat" where
  "rehash_divisor w sz = (sz + BITVEC_NPTR w - 1) mod 2 ^ (8 * w) div BITVEC_NPTR w mod 2 ^ 32"

fun bitvec_set ::
  "nat \<Rightarrow> nat \<Rightarrow> (nat \<Rightarrow> bool) \<Rightarrow> nat \<Rightarrow> bitvec \<Rightarrow> nat \<Rightarrow> (nat \<times> nat \<times> bitvec) option" where
  "bitvec_set 0 w malloc k p i = None"
| "bitvec_set (Suc n) w malloc k (Bitvec sz ns dv (apSub subs)) i =
     (if BITVEC_NBIT w < sz \<and> dv \<noteq> 0 \<and> i div dv < length subs then
        let bin = i div dv;
            (q, k) = (case subs ! bin of
                        None \<Rightarrow> (sqlite3BitvecCreate w (malloc k) dv, k + 1)
                      | Some q \<Rightarrow> (Some q, k))
        in case q of
             None \<Rightarrow> Some (SQLITE_NOMEM, k, Bitvec sz ns dv (apSub subs))
           | Some q \<Rightarrow> map_option (\<lambda>(rc, k, q). (rc, k, Bitvec sz ns dv (apSub (subs[bin := Some q]))))
                         (bitvec_set n w malloc k q (i mod dv))
      else None)"
| "bitvec_set (Suc n) w malloc k (Bitvec sz ns dv (aBitmap bs)) i =
     (if sz \<le> BITVEC_NBIT w \<and> i div BITVEC_SZELEM < length bs then
        Some (SQLITE_OK, k, Bitvec sz ns dv (aBitmap
          (bs[i div BITVEC_SZELEM := bs ! (i div BITVEC_SZELEM) OR push_bit (i AND (BITVEC_SZELEM - 1)) 1])))
      else None)"
| "bitvec_set (Suc n) w malloc k (Bitvec sz ns dv (aHash t)) i =
     (if sz \<le> BITVEC_NBIT w \<or> dv \<noteq> 0 then None
      else
        case hash_find (BITVEC_NINT w) t (i + 1) (BITVEC_HASH w i) of
          None \<Rightarrow> None
        | Some (True, h) \<Rightarrow> Some (SQLITE_OK, k, Bitvec sz ns dv (aHash t))
        | Some (False, h) \<Rightarrow>
            if (t ! BITVEC_HASH w i = 0 \<and> ns < BITVEC_NINT w - 1) \<or> \<not> BITVEC_MXHASH w \<le> ns then
              Some (SQLITE_OK, k, Bitvec sz (ns + 1) dv (aHash (t[h := i + 1])))
            else if \<not> malloc k then Some (SQLITE_NOMEM, k + 1, Bitvec sz ns dv (aHash t))
            else
              let dv' = rehash_divisor w sz;
                  p = Bitvec sz ns dv' (if dv' = 0 then aHash (replicate (BITVEC_NINT w) 0)
                                        else apSub (replicate (BITVEC_NPTR w) None))
              in Option.bind (bitvec_set n w malloc (k + 1) p i) (set_values (bitvec_set n w malloc) t))"

text \<open>
  The first argument bounds the depth of the recursion; each level of Bitvecs takes at most two.
\<close>

definition sqlite3BitvecSet ::
  "nat \<Rightarrow> (nat \<Rightarrow> bool) \<Rightarrow> nat \<Rightarrow> bitvec option \<Rightarrow> nat \<Rightarrow> (nat \<times> nat \<times> bitvec option) option" where
  "sqlite3BitvecSet w malloc k p i =
     (case p of
        None \<Rightarrow> Some (SQLITE_OK, k, None)
      | Some p \<Rightarrow> map_option (\<lambda>(rc, k, p). (rc, k, Some p)) (bitvec_set (2 * iSize p + 1) w malloc k p (i - 1)))"

fun clear_values :: "nat \<Rightarrow> nat \<Rightarrow> nat list \<Rightarrow> nat \<times> nat list \<Rightarrow> (nat \<times> nat list) option" where
  "clear_values w i [] s = Some s"
| "clear_values w i (v # aiValues) (ns, t) =
     (if v \<noteq> 0 \<and> v \<noteq> i + 1 then
        case free_slot (BITVEC_NINT w) t (BITVEC_HASH w (v - 1)) of
          None \<Rightarrow> None
        | Some h \<Rightarrow> clear_values w i aiValues (ns + 1, t[h := v])
      else clear_values w i aiValues (ns, t))"

fun bitvec_clear :: "nat \<Rightarrow> bitvec \<Rightarrow> nat \<Rightarrow> bitvec option" where
  "bitvec_clear w (Bitvec sz ns dv (apSub subs)) i =
     (if dv \<noteq> 0 \<and> i div dv < length subs then
        case subs ! (i div dv) of
          None \<Rightarrow> Some (Bitvec sz ns dv (apSub subs))
        | Some q \<Rightarrow> map_option (\<lambda>q. Bitvec sz ns dv (apSub (subs[i div dv := Some q]))) (bitvec_clear w q (i mod dv))
      else None)"
| "bitvec_clear w (Bitvec sz ns dv (aBitmap bs)) i =
     (if dv = 0 \<and> sz \<le> BITVEC_NBIT w \<and> i div BITVEC_SZELEM < length bs then
        Some (Bitvec sz ns dv (aBitmap
          (bs[i div BITVEC_SZELEM := bs ! (i div BITVEC_SZELEM) AND NOT (push_bit (i AND (BITVEC_SZELEM - 1)) 1)])))
      else None)"
| "bitvec_clear w (Bitvec sz ns dv (aHash t)) i =
     (if dv = 0 \<and> \<not> sz \<le> BITVEC_NBIT w then
        map_option (\<lambda>(ns, t). Bitvec sz ns dv (aHash t))
          (clear_values w i t (0, replicate (BITVEC_NINT w) 0))
      else None)"

definition sqlite3BitvecClear :: "nat \<Rightarrow> bitvec option \<Rightarrow> nat \<Rightarrow> bitvec option option" where
  "sqlite3BitvecClear w p i =
     (case p of None \<Rightarrow> Some None | Some p \<Rightarrow> map_option Some (bitvec_clear w p (i - 1)))"

text \<open>The number of objects that \<open>sqlite3BitvecDestroy\<close> frees.\<close>

fun bitvec_destroy :: "bitvec \<Rightarrow> nat" where
  "bitvec_destroy (Bitvec sz ns dv (apSub subs)) =
     sum_list (map (\<lambda>q. case q of None \<Rightarrow> 0 | Some q \<Rightarrow> bitvec_destroy q) subs) + 1"
| "bitvec_destroy (Bitvec sz ns dv (aBitmap bs)) = 1"
| "bitvec_destroy (Bitvec sz ns dv (aHash t)) = 1"

definition sqlite3BitvecDestroy :: "bitvec option \<Rightarrow> nat" where
  "sqlite3BitvecDestroy p = (case p of None \<Rightarrow> 0 | Some p \<Rightarrow> bitvec_destroy p)"

definition sqlite3BitvecSize :: "bitvec \<Rightarrow> nat" where
  "sqlite3BitvecSize p = iSize p"

section \<open>Hash tables with linear probing\<close>

text \<open>The slots on the way from the hash of \<open>v\<close>: neither free nor holding \<open>v\<close>.\<close>

definition passed :: "nat list \<Rightarrow> nat \<Rightarrow> nat \<Rightarrow> bool" where
  "passed t v k \<longleftrightarrow> (\<forall>j<k. t ! ((v - 1 + j) mod length t) \<notin> {0, v})"

definition nonzero :: "nat list \<Rightarrow> nat" where
  "nonzero t = length (filter (\<lambda>v. v \<noteq> 0) t)"

definition table_ok :: "nat list \<Rightarrow> bool" where
  "table_ok t \<longleftrightarrow>
     (\<forall>s<length t. t ! s \<noteq> 0 \<longrightarrow> (\<exists>k<length t. s = (t ! s - 1 + k) mod length t \<and> passed t (t ! s) k))"

lemma nonzero_less: "nonzero t < length t \<Longrightarrow> \<exists>s<length t. t ! s = 0"
proof (rule ccontr)
  assume less: "nonzero t < length t" and "\<not> (\<exists>s<length t. t ! s = 0)"
  then have "\<forall>v\<in>set t. v \<noteq> 0"
    by (auto simp: in_set_conv_nth)
  then have "filter (\<lambda>v. v \<noteq> 0) t = t"
    by (simp add: filter_id_conv)
  with less show False
    by (simp add: nonzero_def)
qed

lemma nonzero_update: "s < length t \<Longrightarrow> t ! s = 0 \<Longrightarrow> v \<noteq> 0 \<Longrightarrow> nonzero (t[s := v]) = nonzero t + 1"
proof (induction t arbitrary: s)
  case (Cons a t)
  then show ?case
    by (cases s) (auto simp: nonzero_def)
qed simp

lemma set_update_zero: "s < length t \<Longrightarrow> t ! s = 0 \<Longrightarrow> x \<noteq> 0 \<Longrightarrow> x \<in> set (t[s := v]) \<longleftrightarrow> x = v \<or> x \<in> set t"
proof (induction t arbitrary: s)
  case (Cons a t)
  then show ?case
    by (cases s) auto
qed simp

lemma walk_hits: "s < N \<Longrightarrow> \<exists>k<N. (a + k) mod N = (s::nat)"
proof -
  assume s: "s < N"
  define k where "k = (s + (N - a mod N)) mod N"
  have "(a + k) mod N = (a mod N + (s + (N - a mod N))) mod N"
    by (simp add: k_def mod_add_right_eq mod_add_left_eq)
  also have "a mod N + (s + (N - a mod N)) = s + N"
    using s mod_less_divisor [of N a] by (metis add.commute add.left_commute le_add_diff_inverse2 less_imp_le less_nat_zero_code
        neq0_conv)
  finally show ?thesis
    using s by (intro exI [of _ k]) (auto simp: k_def)
qed

lemma hash_find_walks:
  assumes "\<exists>s<length t. t ! s = 0" and "passed t v k" and "n + k = length t" and "v \<noteq> 0"
  shows "\<exists>k'<length t. passed t v k' \<and> t ! ((v - 1 + k') mod length t) \<in> {0, v} \<and>
    hash_find n t v ((v - 1 + k) mod length t) =
      Some (t ! ((v - 1 + k') mod length t) = v, (v - 1 + k') mod length t)"
  using assms(2,3)
proof (induction n arbitrary: k)
  case 0
  obtain s j where "s < length t" "t ! s = 0" "j < length t" "(v - 1 + j) mod length t = s"
    using assms(1) walk_hits by metis
  with 0 show ?case
    by (auto simp: passed_def)
next
  case (Suc n)
  let ?h = "(v - 1 + k) mod length t"
  show ?case
  proof (cases "t ! ?h \<in> {0, v}")
    case True
    with Suc.prems assms(4) show ?thesis
      by (intro exI [of _ k]) auto
  next
    case False
    with Suc.prems have "passed t v (Suc k)"
      by (auto simp: passed_def less_Suc_eq)
    with Suc.IH [of "Suc k"] Suc.prems(2) False show ?thesis
      by (simp add: mod_Suc_eq)
  qed
qed

lemma passed_update: "passed t x j \<Longrightarrow> t ! s = 0 \<Longrightarrow> passed (t[s := v]) x j"
  unfolding passed_def by (metis insertI1 length_list_update nth_list_update_neq)

lemma table_insert:
  assumes ok: "table_ok t" and s: "k < length t" "passed t v k" "s = (v - 1 + k) mod length t" "t ! s = 0"
    and v: "v \<noteq> 0"
  shows "table_ok (t[s := v])"
  unfolding table_ok_def
proof (intro allI impI)
  fix s'
  let ?t = "t[s := v]"
  assume s': "s' < length ?t" "?t ! s' \<noteq> 0"
  have sl: "s < length t"
    using s(1,3) by (metis gr_implies_not0 mod_less_divisor not_gr_zero)
  show "\<exists>j<length ?t. s' = (?t ! s' - 1 + j) mod length ?t \<and> passed ?t (?t ! s') j"
  proof (cases "s' = s")
    case True
    with s sl passed_update [OF s(2,4)] show ?thesis
      by auto
  next
    case False
    then obtain j where "j < length t" "s' = (t ! s' - 1 + j) mod length t" "passed t (t ! s') j"
      using ok s' by (auto simp: table_ok_def)
    moreover have "passed ?t (t ! s') j"
      using \<open>passed t (t ! s') j\<close> s(4) by (rule passed_update)
    ultimately show ?thesis
      using False by auto
  qed
qed

text \<open>Every number is in the table once, and the search finds it or a slot where it may be put.\<close>

lemma table_inj:
  assumes "table_ok t" "s < length t" "s' < length t" "t ! s = t ! s'" "t ! s \<noteq> 0"
  shows "s = s'"
proof -
  let ?v = "t ! s" and ?N = "length t"
  obtain k k' where k: "s = (?v - 1 + k) mod ?N" "passed t ?v k" and k': "s' = (?v - 1 + k') mod ?N" "passed t ?v k'"
    using assms unfolding table_ok_def by (metis (no_types, lifting))
  have "\<not> k < k'" "\<not> k' < k"
    using k k' assms(4) unfolding passed_def by (metis insertI1 insertI2)+
  then show ?thesis
    using k k' by simp
qed

lemma distinct_filter_nth:
  "(\<And>i j. i < j \<Longrightarrow> j < length t \<Longrightarrow> t ! i = t ! j \<Longrightarrow> \<not> P (t ! i)) \<Longrightarrow> distinct (filter P t)"
proof (induction t)
  case (Cons a t)
  have "distinct (filter P t)"
    using Cons.prems [of "Suc _" "Suc _"] by (intro Cons.IH) auto
  moreover have "a \<notin> set t" if "P a"
    using Cons.prems [of 0 "Suc _"] that by (auto simp: in_set_conv_nth)
  ultimately show ?case
    by auto
qed simp

lemma table_distinct: "table_ok t \<Longrightarrow> distinct (filter (\<lambda>v. v \<noteq> 0 \<and> P v) t)"
  by (rule distinct_filter_nth) (metis less_trans nat_neq_iff table_inj)

lemma hash_find_table:
  assumes ok: "table_ok t" and less: "nonzero t < length t" and v: "v \<noteq> 0"
  obtains s where "hash_find (length t) t v ((v - 1) mod length t) = Some (v \<in> set t, s)" "s < length t"
    "v \<notin> set t \<Longrightarrow> t ! s = 0 \<and> table_ok (t[s := v])"
proof -
  obtain k where k: "k < length t" "passed t v k" "t ! ((v - 1 + k) mod length t) \<in> {0, v}"
    "hash_find (length t) t v ((v - 1) mod length t) =
      Some (t ! ((v - 1 + k) mod length t) = v, (v - 1 + k) mod length t)"
    using hash_find_walks [OF nonzero_less [OF less], of v 0 "length t"] v by (auto simp: passed_def)
  let ?s = "(v - 1 + k) mod length t"
  have s: "?s < length t"
    using k(1) by (intro mod_less_divisor) linarith
  have "t ! ?s = v" if "v \<in> set t"
  proof -
    obtain s' where s': "s' < length t" "t ! s' = v"
      using \<open>v \<in> set t\<close> by (auto simp: in_set_conv_nth)
    then obtain k' where k': "s' = (v - 1 + k') mod length t" "passed t v k'"
      using ok v unfolding table_ok_def by blast
    have "\<not> k < k'"
      using k(3) k'(2) unfolding passed_def by blast
    moreover have "\<not> k' < k"
      using k(2) k'(1) s'(2) unfolding passed_def by blast
    ultimately show ?thesis
      using k'(1) s'(2) by (metis nat_neq_iff)
  qed
  then have "t ! ?s = v \<longleftrightarrow> v \<in> set t"
    using nth_mem [OF s] by metis
  then have "hash_find (length t) t v ((v - 1) mod length t) = Some (v \<in> set t, ?s)"
    using k(4) by (simp only:)
  moreover have "t ! ?s = 0 \<and> table_ok (t[?s := v])" if "v \<notin> set t"
  proof -
    have "t ! ?s = 0"
      using that k(3) nth_mem [OF s] by auto
    then show ?thesis
      using table_insert [OF ok k(1,2) refl _ v] by blast
  qed
  ultimately show ?thesis
    using that s by blast
qed

text \<open>Without the number in the table, the search for a free slot is the same search.\<close>

lemma free_slot_hash_find:
  "h < length t \<Longrightarrow> v \<notin> set t \<Longrightarrow> free_slot n t h = map_option snd (hash_find n t v h)"
proof (induction n arbitrary: h)
  case (Suc n)
  have "t ! h \<noteq> v" and next_slot: "(if length t \<le> h + 1 then 0 else h + 1) = (h + 1) mod length t"
    using Suc.prems by (auto simp: le_Suc_eq)
  moreover have "(h + 1) mod length t < length t"
    using Suc.prems by (intro mod_less_divisor) linarith
  ultimately show ?case
    using Suc.IH [of "(h + 1) mod length t"] Suc.prems by (simp only: free_slot.simps hash_find.simps next_slot) simp
qed simp

lemma table_ok_empty [simp]: "table_ok (replicate n 0)" "nonzero (replicate n 0) = 0"
  by (auto simp: table_ok_def nonzero_def)

lemma clear_values_reinserts:
  "length t = BITVEC_NINT w \<Longrightarrow> table_ok t \<Longrightarrow> distinct (filter (\<lambda>v. v \<noteq> 0 \<and> v \<noteq> i + 1) vs) \<Longrightarrow>
   set (filter (\<lambda>v. v \<noteq> 0 \<and> v \<noteq> i + 1) vs) \<inter> set t = {} \<Longrightarrow>
   nonzero t + length (filter (\<lambda>v. v \<noteq> 0 \<and> v \<noteq> i + 1) vs) < BITVEC_NINT w \<Longrightarrow>
   \<exists>t'. clear_values w i vs (nonzero t, t) = Some (nonzero t', t') \<and> length t' = BITVEC_NINT w \<and> table_ok t' \<and>
     nonzero t' = nonzero t + length (filter (\<lambda>v. v \<noteq> 0 \<and> v \<noteq> i + 1) vs) \<and>
     (\<forall>x. x \<noteq> 0 \<longrightarrow> x \<in> set t' \<longleftrightarrow> x \<in> set t \<or> x \<in> set vs \<and> x \<noteq> i + 1)"
proof (induction vs arbitrary: t)
  case (Cons v vs)
  show ?case
  proof (cases "v \<noteq> 0 \<and> v \<noteq> i + 1")
    case True
    with Cons.prems have "v \<notin> set t" "nonzero t < length t" "v \<noteq> 0"
      by auto
    then obtain s where s: "hash_find (length t) t v ((v - 1) mod length t) = Some (False, s)" "s < length t"
      "t ! s = 0" "table_ok (t[s := v])"
      using hash_find_table [OF Cons.prems(2)] by metis
    then have free: "free_slot (BITVEC_NINT w) t (BITVEC_HASH w (v - 1)) = Some s"
      using Cons.prems(1) free_slot_hash_find [of "(v - 1) mod length t" t v "length t"] \<open>v \<notin> set t\<close>
      by (simp add: BITVEC_HASH_def)
    note upd = nonzero_update [OF s(2,3) \<open>v \<noteq> 0\<close>] set_update_zero [OF s(2,3)]
    have "set (filter (\<lambda>v. v \<noteq> 0 \<and> v \<noteq> i + 1) vs) \<inter> set (t[s := v]) = {}"
      using Cons.prems(3,4) True upd(2) by auto
    then obtain t' where "clear_values w i vs (nonzero (t[s := v]), t[s := v]) = Some (nonzero t', t')"
      "length t' = BITVEC_NINT w" "table_ok t'"
      "nonzero t' = nonzero (t[s := v]) + length (filter (\<lambda>v. v \<noteq> 0 \<and> v \<noteq> i + 1) vs)"
      "\<forall>x. x \<noteq> 0 \<longrightarrow> x \<in> set t' \<longleftrightarrow> x \<in> set (t[s := v]) \<or> x \<in> set vs \<and> x \<noteq> i + 1"
      using Cons.IH [of "t[s := v]"] Cons.prems True s(4) upd(1) by auto
    then show ?thesis
      using True free upd by auto
  next
    case False
    then have skip: "filter (\<lambda>v. v \<noteq> 0 \<and> v \<noteq> i + 1) (v # vs) = filter (\<lambda>v. v \<noteq> 0 \<and> v \<noteq> i + 1) vs"
      "clear_values w i (v # vs) (nonzero t, t) = clear_values w i vs (nonzero t, t)"
      "(\<forall>x. x \<noteq> 0 \<longrightarrow> P x \<longleftrightarrow> Q x \<or> x \<in> set (v # vs) \<and> x \<noteq> i + 1) \<longleftrightarrow>
       (\<forall>x. x \<noteq> 0 \<longrightarrow> P x \<longleftrightarrow> Q x \<or> x \<in> set vs \<and> x \<noteq> i + 1)" for P Q
      by auto
    show ?thesis
      using Cons.prems unfolding skip by (rule Cons.IH)
  qed
qed auto

section \<open>The invariant\<close>

text \<open>Pointers have four or eight bytes, and sizes fit 32 bits with the rounding of the division.\<close>

definition size_ok :: "nat \<Rightarrow> nat \<Rightarrow> bool" where
  "size_ok w sz \<longleftrightarrow> (w = 4 \<or> w = 8) \<and> 0 < sz \<and> sz < 2 ^ 32 \<and> sz + BITVEC_NPTR w \<le> 2 ^ (8 * w)"

lemmas bitvec_sizes =
  BITVEC_SZ_def BITVEC_USIZE_def BITVEC_SZELEM_def BITVEC_NELEM_def BITVEC_NBIT_def BITVEC_NINT_def
  BITVEC_MXHASH_def BITVEC_NPTR_def

lemma bitvec_sizes_4:
  "BITVEC_NPTR 4 = 125" "BITVEC_NINT 4 = 125" "BITVEC_NBIT 4 = 4000" "BITVEC_NELEM 4 = 500" "BITVEC_MXHASH 4 = 62"
  by (simp_all add: bitvec_sizes)

lemma bitvec_sizes_8:
  "BITVEC_NPTR 8 = 126" "BITVEC_NINT 8 = 252" "BITVEC_NBIT 8 = 8064" "BITVEC_NELEM 8 = 1008" "BITVEC_MXHASH 8 = 126"
  by (simp_all add: bitvec_sizes)

definition divisor :: "nat \<Rightarrow> nat \<Rightarrow> nat" where
  "divisor w sz = (sz + BITVEC_NPTR w - 1) div BITVEC_NPTR w"

lemma divisor_size:
  assumes "size_ok w sz" "BITVEC_NBIT w < sz"
  shows "rehash_divisor w sz = divisor w sz" "size_ok w (divisor w sz)" "divisor w sz < sz"
    "i < sz \<Longrightarrow> i div divisor w sz < BITVEC_NPTR w" "0 < divisor w sz"
proof -
  have w: "w = 4 \<or> w = 8"
    using assms(1) by (simp add: size_ok_def)
  then have n: "2 \<le> BITVEC_NPTR w" "BITVEC_NPTR w < BITVEC_NBIT w"
    by (auto simp: bitvec_sizes_4 bitvec_sizes_8)
  have less: "divisor w sz < sz"
  proof -
    have "sz + BITVEC_NPTR w - 1 < sz * 2"
      using n assms(2) by linarith
    also have "\<dots> \<le> sz * BITVEC_NPTR w"
      using n by simp
    finally show ?thesis
      unfolding divisor_def by (rule less_mult_imp_div_less)
  qed
  then show "divisor w sz < sz" .
  show pos: "0 < divisor w sz"
    using n assms(2) by (simp add: divisor_def div_greater_zero_iff)
  show "size_ok w (divisor w sz)"
    using less pos assms(1) by (auto simp: size_ok_def)
  show "rehash_divisor w sz = divisor w sz"
    using less assms(1) by (auto simp: rehash_divisor_def divisor_def size_ok_def)
  have "sz \<le> divisor w sz * BITVEC_NPTR w"
    using n div_mult_mod_eq [of "sz + BITVEC_NPTR w - 1" "BITVEC_NPTR w"]
      mod_less_divisor [of "BITVEC_NPTR w" "sz + BITVEC_NPTR w - 1"] unfolding divisor_def by linarith
  then show "i < sz \<Longrightarrow> i div divisor w sz < BITVEC_NPTR w"
    by (intro less_mult_imp_div_less) (simp add: mult.commute)
qed

text \<open>
  The elements of a hash table are at most \<open>iSize\<close>, \<open>nSet\<close> counts them and one slot is free, so that searches end.
\<close>

inductive wf_bitvec :: "nat \<Rightarrow> bitvec \<Rightarrow> bool" for w where
  wf_bitmap: "sz \<le> BITVEC_NBIT w \<Longrightarrow> length bs = BITVEC_NELEM w \<Longrightarrow> wf_bitvec w (Bitvec sz ns 0 (aBitmap bs))"
| wf_hash: "BITVEC_NBIT w < sz \<Longrightarrow> length t = BITVEC_NINT w \<Longrightarrow> table_ok t \<Longrightarrow> nonzero t < BITVEC_NINT w \<Longrightarrow>
    \<forall>v\<in>set t. v \<le> sz \<Longrightarrow> wf_bitvec w (Bitvec sz (nonzero t) 0 (aHash t))"
| wf_sub: "BITVEC_NBIT w < sz \<Longrightarrow> length subs = BITVEC_NPTR w \<Longrightarrow>
    \<forall>q. Some q \<in> set subs \<longrightarrow> wf_bitvec w q \<and> iSize q = divisor w sz \<Longrightarrow>
    wf_bitvec w (Bitvec sz ns (divisor w sz) (apSub subs))"

inductive_cases wf_bitmapE: "wf_bitvec w (Bitvec sz ns dv (aBitmap bs))"
inductive_cases wf_hashE: "wf_bitvec w (Bitvec sz ns dv (aHash t))"
inductive_cases wf_subE: "wf_bitvec w (Bitvec sz ns dv (apSub subs))"

text \<open>The numbers in a Bitvec, counted from zero.\<close>

definition bit_in :: "nat \<Rightarrow> bitvec \<Rightarrow> nat \<Rightarrow> bool" where
  "bit_in w p i \<longleftrightarrow> bitvec_test w p i = Some True"

lemma wf_create:
  "sqlite3BitvecCreate w True sz = Some p \<Longrightarrow> w = 4 \<or> w = 8 \<Longrightarrow> wf_bitvec w p \<and> iSize p = sz \<and> iDivisor p = 0"
  using wf_bitmap [of sz w "replicate (BITVEC_NELEM w) 0" 0]
    wf_hash [of w sz "replicate (BITVEC_NINT w) 0"]
  by (auto simp: sqlite3BitvecCreate_def bitvec_sizes_4 bitvec_sizes_8)

lemma bitmap_index:
  assumes "sz \<le> BITVEC_NBIT w" "length bs = BITVEC_NELEM w" "i < sz"
  shows "i div BITVEC_SZELEM < length bs"
  using assms by (simp add: BITVEC_NBIT_def less_mult_imp_div_less)

lemma mask_7: "i AND (BITVEC_SZELEM - 1) = i mod 8" for i :: nat
  using take_bit_eq_mask [of 3 i] by (simp add: BITVEC_SZELEM_def take_bit_eq_mod mask_eq_exp_minus_1)

lemma test_bit: "x AND push_bit k 1 \<noteq> 0 \<longleftrightarrow> bit x k" for x :: byte
proof -
  have "bit (x AND push_bit k 1) j \<longleftrightarrow> bit x k \<and> j = k" for j
    using bit_imp_le_length [of x k] by (auto simp: bit_simps)
  then show ?thesis
    by (metis bit_0_eq bot_apply bit_eqI bot_bool_def)
qed

lemma bitvec_test_bitmap:
  "wf_bitvec w (Bitvec sz ns dv (aBitmap bs)) \<Longrightarrow> i < sz \<Longrightarrow>
   bitvec_test w (Bitvec sz ns dv (aBitmap bs)) i = Some (bit (bs ! (i div 8)) (i mod 8))"
  using bitmap_index [of sz w bs i]
  by (elim wf_bitmapE) (simp only: bitvec_test.simps mask_7 test_bit, simp add: BITVEC_SZELEM_def)

lemma bitvec_test_hash:
  "wf_bitvec w (Bitvec sz ns dv (aHash t)) \<Longrightarrow>
   bitvec_test w (Bitvec sz ns dv (aHash t)) i = Some (i + 1 \<in> set t)"
proof (elim wf_hashE)
  assume *: "BITVEC_NBIT w < sz" "length t = BITVEC_NINT w" "table_ok t" "nonzero t < BITVEC_NINT w" "dv = 0"
  then obtain s where "hash_find (length t) t (i + 1) ((i + 1 - 1) mod length t) = Some (i + 1 \<in> set t, s)"
    by (metis hash_find_table add_is_0 one_neq_zero)
  with * show ?thesis
    by (simp add: BITVEC_HASH_def)
qed

lemma bitvec_test_sub:
  "wf_bitvec w (Bitvec sz ns dv (apSub subs)) \<Longrightarrow> size_ok w sz \<Longrightarrow> i < sz \<Longrightarrow>
   bitvec_test w (Bitvec sz ns dv (apSub subs)) i =
     (case subs ! (i div dv) of None \<Rightarrow> Some False | Some q \<Rightarrow> bitvec_test w q (i mod dv))"
  using divisor_size(4) [of w sz i] divisor_size(5) [of w sz] by (elim wf_subE, hypsubst) simp

text \<open>Within the size a test always answers.\<close>

lemma bitvec_test_answers:
  "wf_bitvec w p \<Longrightarrow> size_ok w (iSize p) \<Longrightarrow> i < iSize p \<Longrightarrow> bitvec_test w p i = Some (bit_in w p i)"
proof (induction p arbitrary: i rule: wf_bitvec.induct)
  case (wf_bitmap sz bs ns)
  then show ?case
    using bitvec_test_bitmap [OF wf_bitvec.wf_bitmap, of sz w bs i ns]
    by (simp add: bit_in_def del: bitvec_test.simps)
next
  case (wf_hash sz t)
  then show ?case
    using bitvec_test_hash [OF wf_bitvec.wf_hash, of w sz t i]
    by (simp add: bit_in_def del: bitvec_test.simps)
next
  case (wf_sub sz subs ns)
  then have sz: "size_ok w sz" "i < sz"
    by simp_all
  have wf: "wf_bitvec w (Bitvec sz ns (divisor w sz) (apSub subs))"
    using wf_sub by (intro wf_bitvec.wf_sub) auto
  note div = divisor_size [OF sz(1) wf_sub(1)]
  show ?case
  proof (cases "subs ! (i div divisor w sz)")
    case (Some q)
    then have "Some q \<in> set subs"
      using div(4) [OF sz(2)] wf_sub(2) by (metis nth_mem)
    with wf_sub(3) div(2,5) have "bitvec_test w q (i mod divisor w sz) = Some (bit_in w q (i mod divisor w sz))"
      by simp
    then show ?thesis
      using bitvec_test_sub [OF wf sz] Some by (simp add: bit_in_def)
  qed (use bitvec_test_sub [OF wf sz] in \<open>simp add: bit_in_def\<close>)
qed

section \<open>Setting a number\<close>

text \<open>
  What the result \<open>r\<close> of setting the numbers \<open>is\<close> in \<open>p\<close> is to be: another Bitvec of the same size, in which no
  other number has been added, and which has all of the old and new ones when the return code says so.
\<close>

definition set_result :: "nat \<Rightarrow> (nat \<Rightarrow> bool) \<Rightarrow> bitvec \<Rightarrow> nat set \<Rightarrow> (nat \<times> nat \<times> bitvec) option \<Rightarrow> bool" where
  "set_result w malloc p is r \<longleftrightarrow>
     (case r of
        None \<Rightarrow> False
      | Some (rc, k, p') \<Rightarrow>
          wf_bitvec w p' \<and> iSize p' = iSize p \<and> (iDivisor p \<noteq> 0 \<longrightarrow> iDivisor p' \<noteq> 0) \<and> (rc = 0 \<or> rc = SQLITE_NOMEM) \<and>
          (\<forall>j<iSize p. bit_in w p' j \<longrightarrow> j \<in> is \<or> bit_in w p j) \<and>
          (rc = 0 \<longrightarrow> (\<forall>j<iSize p. j \<in> is \<or> bit_in w p j \<longrightarrow> bit_in w p' j)) \<and>
          ((\<forall>k. malloc k) \<longrightarrow> rc = 0))"

lemma set_result_Some:
  "set_result w malloc p is r \<Longrightarrow> \<exists>rc k p'. r = Some (rc, k, p') \<and> set_result w malloc p is (Some (rc, k, p'))"
  by (cases r) (auto simp: set_result_def)

lemma set_result_refl: "wf_bitvec w p \<Longrightarrow> set_result w malloc p {} (Some (0, k, p))"
  by (simp add: set_result_def)

lemma set_result_compose:
  "set_result w malloc p is (Some (rc, k, p')) \<Longrightarrow> set_result w malloc p' is' (Some (rc', k', p'')) \<Longrightarrow>
   set_result w malloc p (is \<union> is') (Some (rc OR rc', k', p''))"
  by (auto simp: set_result_def SQLITE_NOMEM_def)

lemma set_values_result:
  assumes "\<And>k p v. wf_bitvec w p \<Longrightarrow> iSize p = sz \<Longrightarrow> iDivisor p \<noteq> 0 \<Longrightarrow> v \<in> set vs \<Longrightarrow> v \<noteq> 0 \<Longrightarrow>
      set_result w malloc p {v - 1} (f k p (v - 1))"
    and "wf_bitvec w p" "iSize p = sz" "iDivisor p \<noteq> 0"
    and "set_result w malloc p0 is (Some (rc, k, p))" "iSize p0 = sz"
  shows "set_result w malloc p0 (is \<union> {v - 1 |v. v \<in> set vs \<and> v \<noteq> 0}) (set_values f vs (rc, k, p))"
  using assms
proof (induction vs arbitrary: "is" rc k p)
  case (Cons v vs)
  show ?case
  proof (cases "v = 0")
    case True
    then have "{u - 1 |u. u \<in> set (v # vs) \<and> u \<noteq> 0} = {u - 1 |u. u \<in> set vs \<and> u \<noteq> 0}"
      by auto
    with True Cons show ?thesis
      by simp
  next
    case False
    obtain rc' k' p' where f: "f k p (v - 1) = Some (rc', k', p')" "set_result w malloc p {v - 1} (Some (rc', k', p'))"
      using set_result_Some [OF Cons.prems(1) [where k = k, OF Cons.prems(2-4) _ False]] by auto
    have "set_result w malloc p0 ((is \<union> {v - 1}) \<union> {u - 1 |u. u \<in> set vs \<and> u \<noteq> 0}) (set_values f vs (rc OR rc', k', p'))"
      using f(2) Cons.prems set_result_compose [OF Cons.prems(5) f(2)]
      by (intro Cons.IH) (auto simp: set_result_def)
    moreover have "is \<union> {u - 1 |u. u \<in> set (v # vs) \<and> u \<noteq> 0} = (is \<union> {v - 1}) \<union> {u - 1 |u. u \<in> set vs \<and> u \<noteq> 0}"
      using False by auto
    ultimately show ?thesis
      using False f(1) by simp
  qed
qed simp

text \<open>One step on each of the three representations.\<close>

lemma wf_set_bitmap:
  assumes "wf_bitvec w (Bitvec sz ns dv (aBitmap bs))" "i < sz"
  shows "set_result w malloc (Bitvec sz ns dv (aBitmap bs)) {i}
    (bitvec_set (Suc n) w malloc k (Bitvec sz ns dv (aBitmap bs)) i)"
proof -
  have bs: "sz \<le> BITVEC_NBIT w" "length bs = BITVEC_NELEM w" "dv = 0"
    using assms(1) by (auto elim: wf_bitmapE)
  define bs' where "bs' = bs[i div 8 := bs ! (i div 8) OR push_bit (i mod 8) 1]"
  have wf': "wf_bitvec w (Bitvec sz ns dv (aBitmap bs'))"
    using bs by (auto simp: bs'_def intro: wf_bitvec.wf_bitmap)
  have len: "i div 8 < length bs"
    using bitmap_index [OF bs(1,2) assms(2)] by (simp add: BITVEC_SZELEM_def)
  have "bit (bs' ! (j div 8)) (j mod 8) \<longleftrightarrow> j = i \<or> bit (bs ! (j div 8)) (j mod 8)" for j
  proof (cases "j div 8 = i div 8")
    case True
    then have "j = i \<longleftrightarrow> j mod 8 = i mod 8"
      by (metis div_mult_mod_eq)
    moreover have "j mod 8 < 8"
      by simp
    ultimately show ?thesis
      using True len by (auto simp: bs'_def bit_simps)
  qed (auto simp: bs'_def)
  then have "bit_in w (Bitvec sz ns dv (aBitmap bs')) j \<longleftrightarrow> j = i \<or> bit_in w (Bitvec sz ns dv (aBitmap bs)) j" if "j < sz" for j
    using bitvec_test_bitmap [OF wf' that] bitvec_test_bitmap [OF assms(1) that]
    by (simp add: bit_in_def del: bitvec_test.simps)
  moreover have "bitvec_set (Suc n) w malloc k (Bitvec sz ns dv (aBitmap bs)) i =
      Some (0, k, Bitvec sz ns dv (aBitmap bs'))"
    using bs len unfolding bs'_def by (simp only: bitvec_set.simps mask_7) (simp add: BITVEC_SZELEM_def SQLITE_OK_def)
  ultimately show ?thesis
    using wf' bs by (simp add: set_result_def)
qed

lemma bit_in_empty: "wf_bitvec w (Bitvec sz ns (divisor w sz) (apSub (replicate (BITVEC_NPTR w) None))) \<Longrightarrow>
  size_ok w sz \<Longrightarrow> j < sz \<Longrightarrow> \<not> bit_in w (Bitvec sz ns (divisor w sz) (apSub (replicate (BITVEC_NPTR w) None))) j"
  using divisor_size(4) [of w sz j] by (auto simp: bit_in_def bitvec_test_sub elim: wf_subE simp del: bitvec_test.simps)

lemma wf_set_hash:
  assumes wf: "wf_bitvec w (Bitvec sz ns dv (aHash t))" and size: "size_ok w sz" and i: "i < sz"
    and rec: "\<And>k p j. wf_bitvec w p \<Longrightarrow> iSize p = sz \<Longrightarrow> iDivisor p \<noteq> 0 \<Longrightarrow> j < sz \<Longrightarrow>
      set_result w malloc p {j} (bitvec_set n w malloc k p j)"
  shows "set_result w malloc (Bitvec sz ns dv (aHash t)) {i}
    (bitvec_set (Suc n) w malloc k (Bitvec sz ns dv (aHash t)) i)"
proof -
  let ?p = "Bitvec sz ns dv (aHash t)"
  have t: "BITVEC_NBIT w < sz" "length t = BITVEC_NINT w" "table_ok t" "nonzero t < BITVEC_NINT w"
    "\<forall>v\<in>set t. v \<le> sz" "dv = 0" "ns = nonzero t"
    using wf by (auto elim: wf_hashE)
  have in_p: "bit_in w ?p j \<longleftrightarrow> j + 1 \<in> set t" for j
    using bitvec_test_hash [OF wf] by (simp add: bit_in_def del: bitvec_test.simps)
  have less: "nonzero t < length t" "i + 1 \<noteq> 0"
    using t by simp_all
  obtain h where h: "hash_find (BITVEC_NINT w) t (i + 1) (BITVEC_HASH w i) = Some (i + 1 \<in> set t, h)" "h < length t"
    "i + 1 \<notin> set t \<Longrightarrow> t ! h = 0 \<and> table_ok (t[h := i + 1])"
    using hash_find_table [OF t(3) less] t(2) by (metis BITVEC_HASH_def add_diff_cancel_right' mult.right_neutral)
  consider (found) "i + 1 \<in> set t"
    | (add) "i + 1 \<notin> set t" "t ! BITVEC_HASH w i = 0 \<and> ns < BITVEC_NINT w - 1 \<or> \<not> BITVEC_MXHASH w \<le> ns"
    | (no_memory) "i + 1 \<notin> set t" "\<not> (t ! BITVEC_HASH w i = 0 \<and> ns < BITVEC_NINT w - 1 \<or> \<not> BITVEC_MXHASH w \<le> ns)" "\<not> malloc k"
    | (rehash) "i + 1 \<notin> set t" "\<not> (t ! BITVEC_HASH w i = 0 \<and> ns < BITVEC_NINT w - 1 \<or> \<not> BITVEC_MXHASH w \<le> ns)" "malloc k"
    by blast
  then show ?thesis
  proof cases
    case found
    then have "bitvec_set (Suc n) w malloc k ?p i = Some (0, k, ?p)"
      using t h(1) by (simp add: SQLITE_OK_def)
    with found wf show ?thesis
      by (simp add: set_result_def in_p)
  next
    case add
    let ?t = "t[h := i + 1]"
    have free: "t ! h = 0" "table_ok ?t" "nonzero ?t = ns + 1"
      using h(2,3) add(1) t(7) nonzero_update [OF h(2)] by auto
    have "BITVEC_MXHASH w < BITVEC_NINT w - 1"
      using size by (auto simp: size_ok_def bitvec_sizes_4 bitvec_sizes_8)
    then have "nonzero ?t < BITVEC_NINT w"
      using add(2) free(3) by linarith
    moreover have "\<forall>v\<in>set ?t. v \<le> sz"
      using t(5) i set_update_subset_insert [of t h "i + 1"] by auto
    ultimately have wf': "wf_bitvec w (Bitvec sz (ns + 1) dv (aHash ?t))"
      using wf_bitvec.wf_hash [of w sz ?t] t(1,2,6) free by simp
    have "bitvec_set (Suc n) w malloc k ?p i = Some (0, k, Bitvec sz (ns + 1) dv (aHash ?t))"
      using t(1,6) h(1) add by (simp add: SQLITE_OK_def)
    moreover have "bit_in w (Bitvec sz (ns + 1) dv (aHash ?t)) j \<longleftrightarrow> j = i \<or> bit_in w ?p j" for j
      using bitvec_test_hash [OF wf'] set_update_zero [OF h(2) free(1)] in_p
      by (simp add: bit_in_def del: bitvec_test.simps)
    ultimately show ?thesis
      using wf' t(6) by (simp add: set_result_def)
  next
    case no_memory
    then have "bitvec_set (Suc n) w malloc k ?p i = Some (SQLITE_NOMEM, k + 1, ?p)"
      using t(1,6) h(1) by simp
    with no_memory wf show ?thesis
      by (auto simp: set_result_def SQLITE_NOMEM_def)
  next
    case rehash
    note div = divisor_size [OF size t(1)]
    let ?q = "Bitvec sz ns (divisor w sz) (apSub (replicate (BITVEC_NPTR w) None))"
    have wf_q: "wf_bitvec w ?q"
      using t(1) by (intro wf_bitvec.wf_sub) auto
    obtain rc k' p' where q: "bitvec_set n w malloc (k + 1) ?q i = Some (rc, k', p')"
      "set_result w malloc ?q {i} (Some (rc, k', p'))"
      using set_result_Some [OF rec [of ?q i "k + 1"]] wf_q div(5) i by auto
    have "bitvec_set (Suc n) w malloc k ?p i = set_values (bitvec_set n w malloc) t (rc, k', p')"
      using t(1,6) h(1) rehash q(1) div(1,5) by auto
    moreover have "set_result w malloc ?q ({i} \<union> {v - 1 |v. v \<in> set t \<and> v \<noteq> 0}) (set_values (bitvec_set n w malloc) t (rc, k', p'))"
    proof (rule set_values_result)
      show "set_result w malloc p {v - 1} (bitvec_set n w malloc k p (v - 1))"
        if "wf_bitvec w p" "iSize p = sz" "iDivisor p \<noteq> 0" "v \<in> set t" "v \<noteq> 0" for k p v
        using that t(5) by (intro rec) auto
    qed (use q(2) div(5) in \<open>auto simp: set_result_def\<close>)
    moreover have "j \<in> {i} \<union> {v - 1 |v. v \<in> set t \<and> v \<noteq> 0} \<longleftrightarrow> j = i \<or> bit_in w ?p j" for j
      unfolding in_p by (auto intro: exI [of _ "j + 1"])
    ultimately show ?thesis
      using bit_in_empty [OF wf_q size] t(6) by (auto simp: set_result_def split: option.splits)
  qed
qed

lemma wf_sub_update:
  assumes "wf_bitvec w (Bitvec sz ns dv (apSub subs))" "wf_bitvec w q" "iSize q = dv"
  shows "wf_bitvec w (Bitvec sz ns dv (apSub (subs[b := Some q])))"
proof -
  have s: "BITVEC_NBIT w < sz" "length subs = BITVEC_NPTR w" "dv = divisor w sz"
    "\<forall>q. Some q \<in> set subs \<longrightarrow> wf_bitvec w q \<and> iSize q = divisor w sz"
    using assms(1) by (auto elim: wf_subE)
  have "\<forall>q'. Some q' \<in> set (subs[b := Some q]) \<longrightarrow> wf_bitvec w q' \<and> iSize q' = divisor w sz"
    using s assms(2,3) set_update_subset_insert [of subs b "Some q"] by auto
  then show ?thesis
    using s wf_bitvec.wf_sub [of w sz "subs[b := Some q]" ns] by simp
qed

text \<open>What a Bitvec with sub-bitmaps holds: the numbers of the sub-bitmap that the index selects.\<close>

lemma bit_in_sub:
  assumes "wf_bitvec w (Bitvec sz ns dv (apSub subs))" "size_ok w sz" "j < sz"
  shows "bit_in w (Bitvec sz ns dv (apSub subs)) j \<longleftrightarrow>
    (case subs ! (j div dv) of None \<Rightarrow> False | Some q \<Rightarrow> bit_in w q (j mod dv))"
  using bitvec_test_sub [OF assms] by (auto simp: bit_in_def split: option.splits simp del: bitvec_test.simps)

lemma bit_in_sub_update:
  assumes wf: "wf_bitvec w (Bitvec sz ns dv (apSub subs))" "wf_bitvec w q" "iSize q = dv" and "size_ok w sz" "j < sz"
    and "b < length subs"
  shows "bit_in w (Bitvec sz ns dv (apSub (subs[b := Some q]))) j \<longleftrightarrow>
    (if j div dv = b then bit_in w q (j mod dv) else bit_in w (Bitvec sz ns dv (apSub subs)) j)"
  using bit_in_sub [OF wf_sub_update [OF wf] assms(4,5)] bit_in_sub [OF wf(1) assms(4,5)] assms(6)
  by (auto split: option.splits)

lemma bit_in_create: "sqlite3BitvecCreate w True sz = Some q \<Longrightarrow> size_ok w sz \<Longrightarrow> j < sz \<Longrightarrow> \<not> bit_in w q j"
proof -
  assume q: "sqlite3BitvecCreate w True sz = Some q" and "size_ok w sz" "j < sz"
  then have wf: "wf_bitvec w q"
    using wf_create by (simp add: size_ok_def)
  show ?thesis
  proof (cases "sz \<le> BITVEC_NBIT w")
    case True
    with q have qq: "q = Bitvec sz 0 0 (aBitmap (replicate (BITVEC_NELEM w) 0))"
      by (simp add: sqlite3BitvecCreate_def)
    have "j div 8 < BITVEC_NELEM w"
      using bitmap_index [OF True, of "replicate (BITVEC_NELEM w) 0" j] \<open>j < sz\<close> by (simp add: BITVEC_SZELEM_def)
    then show ?thesis
      using bitvec_test_bitmap [OF wf [unfolded qq] \<open>j < sz\<close>] by (simp add: bit_in_def qq del: bitvec_test.simps)
  next
    case False
    with q have qq: "q = Bitvec sz 0 0 (aHash (replicate (BITVEC_NINT w) 0))"
      by (simp add: sqlite3BitvecCreate_def)
    then show ?thesis
      using bitvec_test_hash [OF wf [unfolded qq]] by (simp add: bit_in_def qq del: bitvec_test.simps)
  qed
qed

lemma wf_set_sub:
  assumes wf: "wf_bitvec w (Bitvec sz ns dv (apSub subs))" and size: "size_ok w sz" and i: "i < sz"
    and rec: "\<And>q k. wf_bitvec w q \<Longrightarrow> iSize q = dv \<Longrightarrow>
      set_result w malloc q {i mod dv} (bitvec_set n w malloc k q (i mod dv))"
  shows "set_result w malloc (Bitvec sz ns dv (apSub subs)) {i}
    (bitvec_set (Suc n) w malloc k (Bitvec sz ns dv (apSub subs)) i)"
proof -
  let ?p = "Bitvec sz ns dv (apSub subs)" and ?b = "i div dv"
  have s: "BITVEC_NBIT w < sz" "length subs = BITVEC_NPTR w" "dv = divisor w sz"
    "\<forall>q. Some q \<in> set subs \<longrightarrow> wf_bitvec w q \<and> iSize q = dv"
    using wf by (auto elim: wf_subE)
  have b: "?b < length subs" "0 < dv" "size_ok w dv"
    using divisor_size [OF size s(1)] i s(2,3) by auto
  have store: "set_result w malloc ?p {i}
      (Some (rc, k', Bitvec sz ns dv (apSub (subs[?b := Some q']))))"
    if q: "set_result w malloc q {i mod dv} (Some (rc, k', q'))" "iSize q = dv"
      and old: "\<And>j. j < sz \<Longrightarrow> j div dv = ?b \<Longrightarrow> bit_in w ?p j \<longleftrightarrow> bit_in w q (j mod dv)" for q rc k' q'
  proof -
    have q': "wf_bitvec w q'" "iSize q' = dv"
      using q by (auto simp: set_result_def)
    have same: "j = i \<longleftrightarrow> j div dv = ?b \<and> j mod dv = i mod dv" for j
      by (metis div_mult_mod_eq)
    note new = bit_in_sub_update [OF wf q' size _ b(1)]
    show ?thesis
      using q(1) wf_sub_update [OF wf q'] b(2) q(2) mod_less_divisor [OF b(2), of i]
      by (auto simp: set_result_def new old same split: if_splits)
  qed
  show ?thesis
  proof (cases "subs ! ?b")
    case (Some q)
    then have q: "wf_bitvec w q" "iSize q = dv"
      using s(4) b(1) by (metis nth_mem)+
    obtain rc k' q' where r: "bitvec_set n w malloc k q (i mod dv) = Some (rc, k', q')"
      "set_result w malloc q {i mod dv} (Some (rc, k', q'))"
      using set_result_Some [OF rec [OF q]] by metis
    have "bitvec_set (Suc n) w malloc k ?p i = Some (rc, k', Bitvec sz ns dv (apSub (subs[?b := Some q'])))"
      using Some r(1) s(1) b by simp
    with store [OF r(2) q(2)] bit_in_sub [OF wf size] Some show ?thesis
      by simp
  next
    case None
    show ?thesis
    proof (cases "malloc k")
      case True
      obtain q where c: "sqlite3BitvecCreate w True dv = Some q"
        by (simp add: sqlite3BitvecCreate_def)
      have q: "wf_bitvec w q" "iSize q = dv"
        using wf_create [OF c] size by (auto simp: size_ok_def)
      obtain rc k' q' where r: "bitvec_set n w malloc (k + 1) q (i mod dv) = Some (rc, k', q')"
        "set_result w malloc q {i mod dv} (Some (rc, k', q'))"
        using set_result_Some [OF rec [OF q]] by metis
      have "bitvec_set (Suc n) w malloc k ?p i = Some (rc, k', Bitvec sz ns dv (apSub (subs[?b := Some q'])))"
        using None True c r(1) s(1) b by simp
      moreover have "bit_in w ?p j \<longleftrightarrow> bit_in w q (j mod dv)" if "j < sz" "j div dv = ?b" for j
        using bit_in_sub [OF wf size that(1)] that(2) None bit_in_create [OF c b(3)] b(2) by simp
      ultimately show ?thesis
        using store [OF r(2) q(2)] by simp
    next
      case False
      then have "bitvec_set (Suc n) w malloc k ?p i = Some (SQLITE_NOMEM, k + 1, ?p)"
        using None s(1) b by (simp add: sqlite3BitvecCreate_def)
      with False wf show ?thesis
        by (auto simp: set_result_def SQLITE_NOMEM_def)
    qed
  qed
qed

text \<open>The depth of the recursion: every level halves the size at least, and is entered as a hash table or not.\<close>

definition depth_needed :: "bitvec \<Rightarrow> nat" where
  "depth_needed p = (if iDivisor p = 0 then 2 * iSize p + 1 else 2 * iSize p)"

lemma bitvec_set_result:
  "depth_needed p \<le> n \<Longrightarrow> wf_bitvec w p \<Longrightarrow> size_ok w (iSize p) \<Longrightarrow> i < iSize p \<Longrightarrow>
   set_result w malloc p {i} (bitvec_set n w malloc k p i)"
proof (induction n arbitrary: p i k)
  case 0
  then show ?case
    by (auto simp: depth_needed_def split: if_splits)
next
  case (Suc n)
  obtain sz ns dv un where p: "p = Bitvec sz ns dv un"
    by (cases p)
  have size: "size_ok w sz" "i < sz"
    using Suc.prems p by simp_all
  show ?case
  proof (cases un)
    case (aBitmap bs)
    with Suc.prems size p show ?thesis
      by (auto intro: wf_set_bitmap simp del: bitvec_set.simps)
  next
    case (aHash t)
    then have "dv = 0"
      using Suc.prems(2) p by (auto elim: wf_hashE)
    have "set_result w malloc q {j} (bitvec_set n w malloc k q j)"
      if "wf_bitvec w q" "iSize q = sz" "iDivisor q \<noteq> 0" "j < sz" for k q j
      using that Suc.prems p \<open>dv = 0\<close> by (intro Suc.IH) (auto simp: depth_needed_def)
    then show ?thesis
      using Suc.prems(2) size unfolding p aHash by (intro wf_set_hash)
  next
    case (apSub subs)
    then have dv: "BITVEC_NBIT w < sz" "dv = divisor w sz"
      using Suc.prems(2) p by (auto elim: wf_subE)
    note div = divisor_size [OF size(1) dv(1)]
    have "set_result w malloc q {i mod dv} (bitvec_set n w malloc k q (i mod dv))"
      if "wf_bitvec w q" "iSize q = dv" for q k
      using that Suc.prems(1) p div dv(2) by (intro Suc.IH) (auto simp: depth_needed_def split: if_splits)
    then show ?thesis
      using Suc.prems(2) size unfolding p apSub by (intro wf_set_sub)
  qed
qed

section \<open>Clearing a number\<close>

lemma wf_clear_hash:
  assumes "wf_bitvec w (Bitvec sz ns dv (aHash t))"
  obtains p' where "bitvec_clear w (Bitvec sz ns dv (aHash t)) i = Some p'" "wf_bitvec w p'" "iSize p' = sz"
    "\<And>j. bit_in w p' j \<longleftrightarrow> bit_in w (Bitvec sz ns dv (aHash t)) j \<and> j \<noteq> i"
proof -
  have t: "BITVEC_NBIT w < sz" "length t = BITVEC_NINT w" "table_ok t" "nonzero t < BITVEC_NINT w"
    "\<forall>v\<in>set t. v \<le> sz" "dv = 0"
    using assms by (auto elim: wf_hashE)
  let ?F = "filter (\<lambda>v. v \<noteq> 0 \<and> v \<noteq> i + 1) t" and ?z = "replicate (BITVEC_NINT w) (0::nat)"
  have "length ?F \<le> nonzero t"
    unfolding nonzero_def by (induction t) auto
  then have len: "nonzero ?z + length ?F < BITVEC_NINT w"
    using t(4) by simp
  have "set ?F \<inter> set ?z = {}"
    by auto
  then obtain t' where t': "clear_values w i t (nonzero ?z, ?z) = Some (nonzero t', t')" "length t' = BITVEC_NINT w"
    "table_ok t'" "nonzero t' = nonzero ?z + length ?F"
    "\<forall>x. x \<noteq> 0 \<longrightarrow> x \<in> set t' \<longleftrightarrow> x \<in> set ?z \<or> x \<in> set t \<and> x \<noteq> i + 1"
    using clear_values_reinserts [OF _ table_ok_empty(1) table_distinct [OF t(3)] _ len] by auto
  have "\<forall>v\<in>set t'. v \<le> sz"
    using t'(5) t(5) by (metis gr_implies_not0 in_set_replicate nat_le_linear not_gr_zero le0)
  then have wf': "wf_bitvec w (Bitvec sz (nonzero t') 0 (aHash t'))"
    using t t' len by (intro wf_bitvec.wf_hash) auto
  have "bitvec_clear w (Bitvec sz ns dv (aHash t)) i = Some (Bitvec sz (nonzero t') 0 (aHash t'))"
    using t'(1) t(1,6) by simp
  moreover have "bit_in w (Bitvec sz (nonzero t') 0 (aHash t')) j \<longleftrightarrow> bit_in w (Bitvec sz ns dv (aHash t)) j \<and> j \<noteq> i" for j
    using bitvec_test_hash [OF wf'] bitvec_test_hash [OF assms] t'(5)
    by (simp add: bit_in_def del: bitvec_test.simps)
  ultimately show ?thesis
    using that wf' by simp
qed

lemma wf_clear_bitmap:
  assumes "wf_bitvec w (Bitvec sz ns dv (aBitmap bs))" "i < sz"
  obtains p' where "bitvec_clear w (Bitvec sz ns dv (aBitmap bs)) i = Some p'" "wf_bitvec w p'" "iSize p' = sz"
    "\<And>j. j < sz \<Longrightarrow> bit_in w p' j \<longleftrightarrow> bit_in w (Bitvec sz ns dv (aBitmap bs)) j \<and> j \<noteq> i"
proof -
  have bs: "sz \<le> BITVEC_NBIT w" "length bs = BITVEC_NELEM w" "dv = 0"
    using assms(1) by (auto elim: wf_bitmapE)
  define bs' where "bs' = bs[i div 8 := bs ! (i div 8) AND NOT (push_bit (i mod 8) 1)]"
  have wf': "wf_bitvec w (Bitvec sz ns dv (aBitmap bs'))"
    using bs by (auto simp: bs'_def intro: wf_bitvec.wf_bitmap)
  have len: "i div 8 < length bs"
    using bitmap_index [OF bs(1,2) assms(2)] by (simp add: BITVEC_SZELEM_def)
  have "bit (bs' ! (j div 8)) (j mod 8) \<longleftrightarrow> bit (bs ! (j div 8)) (j mod 8) \<and> j \<noteq> i" for j
  proof (cases "j div 8 = i div 8")
    case True
    then have "j = i \<longleftrightarrow> j mod 8 = i mod 8"
      by (metis div_mult_mod_eq)
    moreover have "j mod 8 < 8"
      by simp
    ultimately show ?thesis
      using True len by (auto simp: bs'_def bit_simps)
  qed (auto simp: bs'_def)
  then have "bit_in w (Bitvec sz ns dv (aBitmap bs')) j \<longleftrightarrow> bit_in w (Bitvec sz ns dv (aBitmap bs)) j \<and> j \<noteq> i" if "j < sz" for j
    using bitvec_test_bitmap [OF wf' that] bitvec_test_bitmap [OF assms(1) that]
    by (simp add: bit_in_def del: bitvec_test.simps)
  moreover have "bitvec_clear w (Bitvec sz ns dv (aBitmap bs)) i = Some (Bitvec sz ns dv (aBitmap bs'))"
    using bs len unfolding bs'_def by (simp only: bitvec_clear.simps mask_7) (simp add: BITVEC_SZELEM_def)
  ultimately show ?thesis
    using that wf' by simp
qed

lemma bitvec_clear_result:
  "wf_bitvec w p \<Longrightarrow> size_ok w (iSize p) \<Longrightarrow> i < iSize p \<Longrightarrow>
   \<exists>p'. bitvec_clear w p i = Some p' \<and> wf_bitvec w p' \<and> iSize p' = iSize p \<and>
     (\<forall>j<iSize p. bit_in w p' j \<longleftrightarrow> bit_in w p j \<and> j \<noteq> i)"
proof (induction p arbitrary: i rule: wf_bitvec.induct)
  case (wf_bitmap sz bs ns)
  then have "i < sz"
    by simp
  from wf_clear_bitmap [OF wf_bitvec.wf_bitmap [OF wf_bitmap(1,2)] this, of ns] show ?case
    by (metis bitvec.sel(1))
next
  case (wf_hash sz t)
  from wf_clear_hash [OF wf_bitvec.wf_hash [OF wf_hash(1-5)], of i] show ?case
    by (metis bitvec.sel(1))
next
  case (wf_sub sz subs ns)
  let ?dv = "divisor w sz"
  let ?p = "Bitvec sz ns ?dv (apSub subs)" and ?b = "i div ?dv"
  have size: "size_ok w sz" "i < sz"
    using wf_sub by simp_all
  have wf: "wf_bitvec w ?p"
    using wf_sub by (intro wf_bitvec.wf_sub) auto
  note div = divisor_size [OF size(1) wf_sub(1)]
  have b: "?b < length subs"
    using div(4) [OF size(2)] wf_sub(2) by simp
  show ?case
  proof (cases "subs ! ?b")
    case None
    have "j \<noteq> i" if "bit_in w ?p j" "j < sz" for j
      using bit_in_sub [OF wf size(1) that(2)] that(1) None by auto
    moreover have "bitvec_clear w ?p i = Some ?p"
      using None b div(5) by simp
    ultimately show ?thesis
      using wf by auto
  next
    case (Some q)
    then have "Some q \<in> set subs"
      using b by (metis nth_mem)
    then obtain q' where q: "wf_bitvec w q" "iSize q = ?dv" "bitvec_clear w q (i mod ?dv) = Some q'" "wf_bitvec w q'" "iSize q' = ?dv"
      "\<forall>j<?dv. bit_in w q' j \<longleftrightarrow> bit_in w q j \<and> j \<noteq> i mod ?dv"
      using wf_sub(3) div(2,5) by (metis mod_less_divisor)
    have "bitvec_clear w ?p i = Some (Bitvec sz ns ?dv (apSub (subs[?b := Some q'])))"
      using Some q(3) b div(5) by simp
    moreover have "bit_in w (Bitvec sz ns ?dv (apSub (subs[?b := Some q']))) j \<longleftrightarrow> bit_in w ?p j \<and> j \<noteq> i" if "j < sz" for j
    proof -
      have "j = i \<longleftrightarrow> j div ?dv = ?b \<and> j mod ?dv = i mod ?dv"
        by (metis div_mult_mod_eq)
      then show ?thesis
        using bit_in_sub_update [OF wf q(4,5) size(1) that b] bit_in_sub [OF wf size(1) that] Some q(6)
          mod_less_divisor [OF div(5), of j] by auto
    qed
    ultimately show ?thesis
      using wf_sub_update [OF wf q(4,5)] by simp
  qed
qed

section \<open>A size that the rounding cannot hold\<close>

text \<open>
  With pointers of four bytes the sum for the divisor wraps around when the size is within the number of
  sub-bitmaps of \<open>2 ^ 32\<close>. The divisor is then zero, the object remains a hash table with its old count, and a
  table that was as full as it may be is re-hashed over and over: no depth of recursion is enough.
\<close>

lemma rehash_divisor_wraps: "rehash_divisor 4 (2 ^ 32 - 1) = 0"
  by (simp add: rehash_divisor_def bitvec_sizes_4)

lemma hash_find_empty: "h < N \<Longrightarrow> hash_find n (replicate N 0) v h = (if n = 0 then None else Some (False, h))"
  by (cases n) simp_all

lemma bitvec_set_diverges:
  "bitvec_set n 4 (\<lambda>_. True) k (Bitvec (2 ^ 32 - 1) 124 0 (aHash (replicate 125 0))) i = None"
proof (induction n arbitrary: k)
  case (Suc n)
  have h: "BITVEC_HASH 4 i < 125"
    by (simp add: BITVEC_HASH_def bitvec_sizes_4)
  have "bitvec_set (Suc n) 4 (\<lambda>_. True) k (Bitvec (2 ^ 32 - 1) 124 0 (aHash (replicate 125 0))) i =
    Option.bind (bitvec_set n 4 (\<lambda>_. True) (k + 1) (Bitvec (2 ^ 32 - 1) 124 0 (aHash (replicate 125 0))) i)
      (set_values (bitvec_set n 4 (\<lambda>_. True)) (replicate 125 0))"
    using h unfolding bitvec_set.simps bitvec_sizes_4 hash_find_empty [OF h] rehash_divisor_wraps
    by simp
  then show ?case
    unfolding Suc.IH by simp
qed simp

text \<open>So setting the numbers from 1 to 125 never comes to an end: the last one finds 124 of the 125 slots taken.\<close>

lemma hash_find_free: "t ! h = 0 \<Longrightarrow> hash_find n t v h = (if n = 0 then None else Some (False, h))"
  by (cases n) simp_all

lemma bitvec_set_full_diverges:
  assumes "t ! 124 = 0"
  shows "bitvec_set n 4 (\<lambda>_. True) k (Bitvec (2 ^ 32 - 1) 124 0 (aHash t)) 124 = None"
proof (cases n)
  case (Suc m)
  have h: "BITVEC_HASH 4 124 = 124"
    by (simp add: BITVEC_HASH_def bitvec_sizes_4)
  have "bitvec_set (Suc m) 4 (\<lambda>_. True) k (Bitvec (2 ^ 32 - 1) 124 0 (aHash t)) 124 =
    Option.bind (bitvec_set m 4 (\<lambda>_. True) (k + 1) (Bitvec (2 ^ 32 - 1) 124 0 (aHash (replicate 125 0))) 124)
      (set_values (bitvec_set m 4 (\<lambda>_. True)) t)"
    unfolding bitvec_set.simps bitvec_sizes_4 h hash_find_free [of t 124, OF assms] rehash_divisor_wraps by simp
  then show ?thesis
    unfolding Suc bitvec_set_diverges by simp
qed simp

section \<open>The contract of a set of numbers\<close>

datatype number_op = Op_set nat | Op_clear nat | Op_test nat

fun op_number :: "number_op \<Rightarrow> nat" where
  "op_number (Op_set i) = i"
| "op_number (Op_clear i) = i"
| "op_number (Op_test i) = i"

fun run_numbers :: "('s \<Rightarrow> nat \<Rightarrow> 's option) \<Rightarrow> ('s \<Rightarrow> nat \<Rightarrow> 's option) \<Rightarrow> ('s \<Rightarrow> nat \<Rightarrow> bool option) \<Rightarrow>
    number_op list \<Rightarrow> 's \<Rightarrow> (bool list \<times> 's) option" where
  "run_numbers st cl tst [] s = Some ([], s)"
| "run_numbers st cl tst (Op_set i # ops) s = Option.bind (st s i) (run_numbers st cl tst ops)"
| "run_numbers st cl tst (Op_clear i # ops) s = Option.bind (cl s i) (run_numbers st cl tst ops)"
| "run_numbers st cl tst (Op_test i # ops) s =
     Option.bind (tst s i) (\<lambda>b. map_option (\<lambda>(bs, s). (b # bs, s)) (run_numbers st cl tst ops s))"

text \<open>The specification: a set, and the answers of the tests.\<close>

fun spec_numbers :: "number_op list \<Rightarrow> nat set \<Rightarrow> bool list" where
  "spec_numbers [] S = []"
| "spec_numbers (Op_set i # ops) S = spec_numbers ops (insert i S)"
| "spec_numbers (Op_clear i # ops) S = spec_numbers ops (S - {i})"
| "spec_numbers (Op_test i # ops) S = (i \<in> S) # spec_numbers ops S"

locale number_set =
  fixes inv :: "'s \<Rightarrow> bool"
    and holds :: "'s \<Rightarrow> nat \<Rightarrow> bool"
    and within :: "nat \<Rightarrow> bool"
    and st cl :: "'s \<Rightarrow> nat \<Rightarrow> 's option"
    and tst :: "'s \<Rightarrow> nat \<Rightarrow> bool option"
  assumes tst: "inv s \<Longrightarrow> within i \<Longrightarrow> tst s i = Some (holds s i)"
    and st: "inv s \<Longrightarrow> within i \<Longrightarrow> \<exists>s'. st s i = Some s' \<and> inv s' \<and> (\<forall>j. within j \<longrightarrow> holds s' j \<longleftrightarrow> j = i \<or> holds s j)"
    and cl: "inv s \<Longrightarrow> within i \<Longrightarrow> \<exists>s'. cl s i = Some s' \<and> inv s' \<and> (\<forall>j. within j \<longrightarrow> holds s' j \<longleftrightarrow> j \<noteq> i \<and> holds s j)"
begin

lemma run_refines:
  "inv s \<Longrightarrow> list_all (\<lambda>a. within (op_number a)) ops \<Longrightarrow> \<forall>j. within j \<longrightarrow> holds s j \<longleftrightarrow> j \<in> S \<Longrightarrow>
   map_option fst (run_numbers st cl tst ops s) = Some (spec_numbers ops S)"
proof (induction ops arbitrary: s S)
  case (Cons a ops)
  show ?case
  proof (cases a)
    case (Op_set i)
    then obtain s' where "st s i = Some s'" "inv s'" "\<forall>j. within j \<longrightarrow> holds s' j \<longleftrightarrow> j = i \<or> holds s j"
      using st [OF Cons.prems(1), of i] Cons.prems(2) by auto
    then show ?thesis
      using Cons.IH [of s' "insert i S"] Cons.prems Op_set by simp
  next
    case (Op_clear i)
    then obtain s' where "cl s i = Some s'" "inv s'" "\<forall>j. within j \<longrightarrow> holds s' j \<longleftrightarrow> j \<noteq> i \<and> holds s j"
      using cl [OF Cons.prems(1), of i] Cons.prems(2) by auto
    then show ?thesis
      using Cons.IH [of s' "S - {i}"] Cons.prems Op_clear by auto
  next
    case (Op_test i)
    then show ?thesis
      using Cons.IH [of s S] Cons.prems tst [OF Cons.prems(1), of i]
      by (auto simp: option.map_comp comp_def split_def)
  qed
qed simp

end

text \<open>A Bitvec of size \<open>sz\<close>, when every allocation succeeds.\<close>

definition bitvec_ok :: "nat \<Rightarrow> nat \<Rightarrow> bitvec option \<Rightarrow> bool" where
  "bitvec_ok w sz p \<longleftrightarrow> size_ok w sz \<and> (\<exists>q. p = Some q \<and> wf_bitvec w q \<and> iSize q = sz)"

definition bitvec_insert :: "nat \<Rightarrow> bitvec option \<Rightarrow> nat \<Rightarrow> bitvec option option" where
  "bitvec_insert w p i =
     Option.bind (sqlite3BitvecSet w (\<lambda>_. True) 0 p i) (\<lambda>(rc, k, p). if rc = SQLITE_OK then Some p else None)"

lemma sqlite3BitvecTest_answers:
  "wf_bitvec w p \<Longrightarrow> size_ok w (iSize p) \<Longrightarrow> 0 < i \<Longrightarrow> i \<le> iSize p \<Longrightarrow>
   sqlite3BitvecTest w (Some p) i = Some (bit_in w p (i - 1))"
  using bitvec_test_answers [of w p "i - 1"] by (simp add: sqlite3BitvecTest_def)

lemma sqlite3BitvecSet_result:
  assumes "wf_bitvec w p" "size_ok w (iSize p)" "0 < i" "i \<le> iSize p"
  obtains rc k' p' where "sqlite3BitvecSet w malloc k (Some p) i = Some (rc, k', Some p')"
    "set_result w malloc p {i - 1} (Some (rc, k', p'))"
proof -
  have "set_result w malloc p {i - 1} (bitvec_set (2 * iSize p + 1) w malloc k p (i - 1))"
    using assms by (intro bitvec_set_result) (auto simp: depth_needed_def)
  then obtain rc k' p' where "bitvec_set (2 * iSize p + 1) w malloc k p (i - 1) = Some (rc, k', p')"
    "set_result w malloc p {i - 1} (Some (rc, k', p'))"
    using set_result_Some by metis
  then show ?thesis
    by (intro that) (simp_all add: sqlite3BitvecSet_def)
qed

text \<open>The external numbers count from one.\<close>

lemma from_one:
  assumes "\<forall>j < sz. P j \<longleftrightarrow> Q j" "0 < i \<and> i \<le> sz" "0 < j \<and> j \<le> sz"
  shows "P (j - 1) \<longleftrightarrow> Q (j - 1)" and "j - 1 = i - 1 \<longleftrightarrow> j = (i::nat)"
proof -
  have "j - 1 < sz"
    using assms(3) by linarith
  with assms show "P (j - 1) \<longleftrightarrow> Q (j - 1)" "j - 1 = i - 1 \<longleftrightarrow> j = i"
    by auto
qed

interpretation bv: number_set "bitvec_ok w sz" "\<lambda>p i. bit_in w (the p) (i - 1)" "\<lambda>i. 0 < i \<and> i \<le> sz"
  "bitvec_insert w" "sqlite3BitvecClear w" "sqlite3BitvecTest w" for w sz
proof
  fix s i
  assume ok: "bitvec_ok w sz s" and i: "0 < i \<and> i \<le> sz"
  then obtain p where p: "s = Some p" "wf_bitvec w p" "iSize p = sz" and assms: "size_ok w sz"
    by (auto simp: bitvec_ok_def)
  show "sqlite3BitvecTest w s i = Some (bit_in w (the s) (i - 1))"
    using sqlite3BitvecTest_answers [of w p i] assms p i by simp
  obtain rc k' p1 where set1: "sqlite3BitvecSet w (\<lambda>_. True) 0 (Some p) i = Some (rc, k', Some p1)"
    "set_result w (\<lambda>_. True) p {i - 1} (Some (rc, k', p1))"
    using sqlite3BitvecSet_result [of w p i] assms p i by metis
  then have "bitvec_insert w s i = Some (Some p1)" "bitvec_ok w sz (Some p1)"
    using p assms by (auto simp: bitvec_insert_def bitvec_ok_def set_result_def SQLITE_OK_def)
  moreover have after_set: "\<forall>j < sz. bit_in w p1 j \<longleftrightarrow> j = i - 1 \<or> bit_in w p j"
    using set1(2) p(3) by (auto simp: set_result_def)
  have "bit_in w p1 (j - 1) \<longleftrightarrow> j = i \<or> bit_in w p (j - 1)" if "0 < j \<and> j \<le> sz" for j
    using from_one [OF after_set i that] by simp
  ultimately show "\<exists>s'. bitvec_insert w s i = Some s' \<and> bitvec_ok w sz s' \<and>
      (\<forall>j. 0 < j \<and> j \<le> sz \<longrightarrow> bit_in w (the s') (j - 1) = (j = i \<or> bit_in w (the s) (j - 1)))"
    using p(1) by auto
  have i1: "i - 1 < iSize p"
    using i p(3) by linarith
  obtain p2 where p2: "bitvec_clear w p (i - 1) = Some p2" "wf_bitvec w p2" "iSize p2 = sz"
    "\<forall>j < sz. bit_in w p2 j \<longleftrightarrow> bit_in w p j \<and> j \<noteq> i - 1"
    using bitvec_clear_result [OF p(2) _ i1] assms p(3) by auto
  moreover have "bit_in w p2 (j - 1) \<longleftrightarrow> j \<noteq> i \<and> bit_in w p (j - 1)" if "0 < j \<and> j \<le> sz" for j
    using from_one [OF p2(4) i that] by auto
  ultimately show "\<exists>s'. sqlite3BitvecClear w s i = Some s' \<and> bitvec_ok w sz s' \<and>
      (\<forall>j. 0 < j \<and> j \<le> sz \<longrightarrow> bit_in w (the s') (j - 1) = (j \<noteq> i \<and> bit_in w (the s) (j - 1)))"
    using p(1) assms by (auto simp: sqlite3BitvecClear_def bitvec_ok_def)
qed

text \<open>The sizes the pager uses are below \<open>2 ^ 31\<close>; any fixed size gives an instance.\<close>

lemma size_ok_half: "w = 4 \<or> w = 8 \<Longrightarrow> 0 < sz \<Longrightarrow> sz < 2 ^ 31 \<Longrightarrow> size_ok w sz"
  by (auto simp: size_ok_def bitvec_sizes_4 bitvec_sizes_8)

section \<open>Properties\<close>

text \<open>
  C37: A Bitvec behaves as a set of the numbers from 1 to its size: over every sequence of calls that set, clear and
  test numbers, whichever of bitmap, hash table and sub-bitmaps it changes to, the tests answer as for the set, and
  every call returns. Its size is any from 1 to \<open>2 ^ 32 - 1\<close> where pointers have eight bytes, and any from 1 to
  \<open>2 ^ 32 - 125\<close> where they have four: above that a call may not return (lemma \<open>bitvec_set_full_diverges\<close>).
\<close>

theorem sqlite3Bitvec_refines:
  assumes size: "w = 8 \<and> sz < 2 ^ 32 \<or> w = 4 \<and> sz \<le> 2 ^ 32 - 125" "0 < sz" and "list_all (\<lambda>a. 0 < op_number a \<and> op_number a \<le> sz) ops"
  shows "map_option fst (run_numbers (bitvec_insert w) (sqlite3BitvecClear w) (sqlite3BitvecTest w) ops
      (sqlite3BitvecCreate w True sz)) = Some (spec_numbers ops {})"
proof -
  have size_ok: "size_ok w sz"
    using size by (auto simp: size_ok_def bitvec_sizes_4 bitvec_sizes_8)
  obtain p where p: "sqlite3BitvecCreate w True sz = Some p"
    by (simp add: sqlite3BitvecCreate_def)
  then have "bitvec_ok w sz (Some p)"
    using wf_create [OF p] size_ok by (auto simp: bitvec_ok_def size_ok_def)
  moreover have "\<forall>j. 0 < j \<and> j \<le> sz \<longrightarrow> bit_in w (the (Some p)) (j - 1) \<longleftrightarrow> j \<in> {}"
    using bit_in_create [OF p size_ok] by auto
  ultimately show ?thesis
    unfolding p using assms(3) by (intro bv.run_refines)
qed

lemma sqlite3Bitvec_refines_witness:
  "map_option fst (run_numbers (bitvec_insert 4) (sqlite3BitvecClear 4) (sqlite3BitvecTest 4)
     [Op_set 5000, Op_set 126, Op_set 1, Op_test 126, Op_clear 126, Op_test 126, Op_test 1, Op_test 2]
     (sqlite3BitvecCreate 4 True 100000)) = Some [True, False, True, False]"
  by (subst sqlite3Bitvec_refines) simp_all

text \<open>
  C38: In a Bitvec of at most \<open>2 ^ 32 - 125\<close> bits (of any size where pointers have eight bytes), setting a number returns, whichever allocations fail, with 0 or \<open>SQLITE_NOMEM\<close> and a well-formed Bitvec
  of the same size. It never adds another number; with 0 the number and all the old ones are in the Bitvec, and 0
  is what it returns when no allocation fails. Only after \<open>SQLITE_NOMEM\<close> may numbers be missing.
\<close>

theorem sqlite3BitvecSet_errors:
  assumes "wf_bitvec w p" "size_ok w (iSize p)" "0 < i" "i \<le> iSize p"
  shows "\<exists>rc k' p'. sqlite3BitvecSet w malloc k (Some p) i = Some (rc, k', Some p') \<and>
    wf_bitvec w p' \<and> iSize p' = iSize p \<and> (rc = SQLITE_OK \<or> rc = SQLITE_NOMEM) \<and>
    ((\<forall>n. malloc n) \<longrightarrow> rc = SQLITE_OK) \<and>
    (\<forall>j. 0 < j \<and> j \<le> iSize p \<longrightarrow>
       (sqlite3BitvecTest w (Some p') j = Some True \<longrightarrow> j = i \<or> sqlite3BitvecTest w (Some p) j = Some True) \<and>
       (rc = SQLITE_OK \<longrightarrow>
          sqlite3BitvecTest w (Some p') j = Some (j = i \<or> sqlite3BitvecTest w (Some p) j = Some True)))"
proof -
  obtain rc k' p' where r: "sqlite3BitvecSet w malloc k (Some p) i = Some (rc, k', Some p')"
    "set_result w malloc p {i - 1} (Some (rc, k', p'))"
    using sqlite3BitvecSet_result [OF assms] .
  have test: "sqlite3BitvecTest w (Some p) j = Some (bit_in w p (j - 1))"
    "sqlite3BitvecTest w (Some p') j = Some (bit_in w p' (j - 1))" if "0 < j \<and> j \<le> iSize p" for j
    using sqlite3BitvecTest_answers assms(1,2) r(2) that by (auto simp: set_result_def)
  have s: "wf_bitvec w p'" "iSize p' = iSize p" "rc = 0 \<or> rc = SQLITE_NOMEM" "(\<forall>n. malloc n) \<longrightarrow> rc = 0"
    "\<forall>j<iSize p. bit_in w p' j \<longrightarrow> j = i - 1 \<or> bit_in w p j"
    "rc = 0 \<longrightarrow> (\<forall>j<iSize p. j = i - 1 \<or> bit_in w p j \<longrightarrow> bit_in w p' j)"
    using r(2) by (simp_all add: set_result_def)
  have "(sqlite3BitvecTest w (Some p') j = Some True \<longrightarrow> j = i \<or> sqlite3BitvecTest w (Some p) j = Some True) \<and>
      (rc = 0 \<longrightarrow> sqlite3BitvecTest w (Some p') j = Some (j = i \<or> sqlite3BitvecTest w (Some p) j = Some True))"
    if "0 < j \<and> j \<le> iSize p" for j
  proof -
    have "j - 1 < iSize p" "j - 1 = i - 1 \<longleftrightarrow> j = i"
      using that assms(3) by auto
    then have "(bit_in w p' (j - 1) \<longrightarrow> j = i \<or> bit_in w p (j - 1)) \<and>
        (rc = 0 \<longrightarrow> bit_in w p' (j - 1) = (j = i \<or> bit_in w p (j - 1)))"
      using s(5,6) by metis
    then show ?thesis
      unfolding test [OF that] by simp
  qed
  then show ?thesis
    using r(1) s(1-4) unfolding SQLITE_OK_def by blast
qed

lemma sqlite3BitvecSet_errors_witness:
  "\<exists>rc k' p'. sqlite3BitvecSet 4 (\<lambda>_. False) 0 (sqlite3BitvecCreate 4 True 3) 2 = Some (rc, k', Some p') \<and>
     iSize p' = 3 \<and> rc \<in> {SQLITE_OK, SQLITE_NOMEM}"
proof -
  obtain p where p: "sqlite3BitvecCreate 4 True 3 = Some p"
    by (simp add: sqlite3BitvecCreate_def)
  then have "wf_bitvec 4 p" "iSize p = 3"
    using wf_create [OF p] by auto
  moreover have "size_ok 4 3"
    by (simp add: size_ok_def bitvec_sizes_4)
  ultimately show ?thesis
    unfolding p using sqlite3BitvecSet_errors [of 4 p 2 "\<lambda>_. False" 0] by auto
qed

end
