(* ===== verification/Spec2Isabelle.thy ===== *)
theory Spec2Isabelle
  imports Vercmp Mkbootfs Rsa Bootimg Crypt Sqlite_Agreement Sqlite_Varint Sqlite_Numbers Sqlite_Literals
    Sqlite_Pattern Sqlite_Rowset Sqlite_Bitvec
begin

text \<open>
  \<^bold>\<open>The program.\<close> BotBrew brings a Unix userland to Android: recipes under \<open>cookbook/\<close> build packages,
  which \<open>opkg\<close> installs. The C code of the repository, in the parts that compute something:

    \<^item> \<open>bin/opkg-utils/opkg-compare-versions.c\<close>: compares two package versions for the package scripts;
    \<^item> \<open>cookbook/android-mkbootfs/source\<close>: the tools for Android boot images. \<open>mkbootfs\<close> writes a directory
      tree as a cpio archive and takes owners and permissions from \<open>android_filesystem_config.h\<close>.
      \<open>mkbootimg\<close> puts kernel, ramdisk and second stage into an image with a SHA-1 from \<open>libmincrypt\<close>,
      \<open>unpackbootimg\<close> takes it apart. \<open>libmincrypt\<close> also checks RSA signatures;
    \<^item> \<open>cookbook/python2.7/jni/libcrypt\<close>: \<open>crypt\<close>, which hands a password to the MD5 hash of \<open>md5.c\<close> or
      to the DES hash of \<open>des.c\<close>;
    \<^item> \<open>cookbook/python2.7/jni/sqlite3/sqlite3.c\<close>: the SQLite amalgamation, of which the development covers
      the path of a text from the shell to the grammar (\<open>sqlite3_complete\<close>, the tokenizer, the keywords,
      quoting), numbers in texts, the integers of the file format, the text encodings, LIKE and GLOB, and two sets it keeps:
      the rows of a query (RowSet) and the pages of the pager (Bitvec).

  \<^bold>\<open>Theories and sources.\<close>

    \<^item> \<open>Prelude\<close>: types of machine words, C strings, \<open>strcmp\<close>; locales \<open>comparison\<close> and
      \<open>strict_comparison\<close>, the contract of a C comparison function. \<open>Libc\<close>: the rest of the C library the
      programs use (\<open>isdigit\<close>, \<open>strtol\<close>, \<open>strtoul\<close>, \<open>%x\<close>), each with its error value.
    \<^item> \<open>Vercmp\<close> models \<open>opkg-compare-versions.c\<close>, one definition per function. \<open>verrevcmp\<close> refines an
      order on abstract version parts; both comparisons interpret \<open>comparison\<close>.
    \<^item> \<open>Fs_Config\<close> models \<open>android_filesystem_config.h\<close>: the enumeration of ids, the tables and the search
      for the first matching rule.
    \<^item> \<open>Mkbootfs\<close> models \<open>cpio/mkbootfs.c\<close>. The record \<open>archive_state\<close> is the static \<open>total_size\<close>, the inode
      counter and the bytes written; \<open>die\<close> is the left of a sum. A reader of the cpio format is the
      reference for the round trip; sorting by \<open>qsort\<close> rests on the interpretation of \<open>strict_comparison\<close>.
    \<^item> \<open>Hash_Interface\<close>: the locales \<open>streaming_hash\<close> and \<open>exact_streaming\<close>, a context that absorbs data in
      pieces. \<open>Sha\<close> (\<open>libmincrypt/sha.c\<close>, both versions of the file) and \<open>Md5\<close> (\<open>libcrypt/md5.c\<close>, all four
      versions of the transformation) interpret them; \<open>Bootimg\<close> and \<open>Md5_Crypt\<close> are the clients.
    \<^item> \<open>Rsa\<close> models \<open>libmincrypt/rsa.c\<close> on arrays of 32-bit words; the locale \<open>montgomery\<close> turns the law of
      one Montgomery multiplication into the cube of the public exponent.
    \<^item> \<open>Bootimg\<close> models \<open>mkbootimg.c\<close>, \<open>unpackbootimg.c\<close> and \<open>bootimg.h\<close> with their argument loops, on a file
      system given by its files and the space left, so that a write can fail.
    \<^item> \<open>Md5_Crypt\<close> (\<open>__md5_crypt\<close>), \<open>Des\<close> (tables, static variables and functions of \<open>des.c\<close>), \<open>Des_Spec\<close>
      (FIPS 46-3 on bits; locales \<open>permutation_table\<close> for the tables that \<open>des_init\<close> computes and \<open>feistel\<close>
      for the rounds), \<open>Des_Crypt\<close> (\<open>setkey\<close>, \<open>encrypt\<close>, \<open>__des_crypt\<close> in every reachable state) and \<open>Crypt\<close>
      (\<open>crypt.c\<close>, \<open>crypt_stub.c\<close>).
    \<^item> \<open>Sqlite_Chars\<close> (tables of \<open>global.c\<close>, comparisons of \<open>util.c\<close>), \<open>Sqlite_Keywords\<close> (\<open>keywordhash.h\<close>),
      \<open>Sqlite_Tokenize\<close> (\<open>sqlite3GetToken\<close>, the loop of \<open>sqlite3RunParser\<close>, \<open>%q\<close>, \<open>%Q\<close>, \<open>%w\<close> and
      \<open>sqlite3Dequote\<close>), \<open>Sqlite_Complete\<close> (\<open>complete.c\<close>), \<open>Sqlite_Agreement\<close> (that scanner against the
      tokenizer), \<open>Sqlite_Varint\<close> (varints of \<open>util.c\<close>; locale \<open>prefix_code\<close>, interpreted on the 64-bit and
      32-bit forms and the four-byte integers), \<open>Sqlite_Numbers\<close> (numbers in texts, of \<open>util.c\<close>) and
      \<open>Sqlite_Literals\<close> (\<open>quoteFunc\<close>, \<open>hexFunc\<close>, \<open>sqlite3HexToBlob\<close>).
    \<^item> \<open>Sqlite_Utf\<close> models \<open>utf.c\<close>; the locale \<open>char_encoding\<close> is the contract between the reader and the writer
      of one character, interpreted on UTF-8 and both forms of UTF-16. \<open>Sqlite_Pattern\<close> models
      \<open>patternCompare\<close> and \<open>likeFunc\<close> of \<open>func.c\<close>. \<open>Sqlite_Rowset\<close> models \<open>rowset.c\<close>: lists
      linked by \<open>pRight\<close> are lists, the tree a binary tree; the locale \<open>batched_set\<close> is what its client sees, a
      set tested batch by batch. \<open>Sqlite_Bitvec\<close> models \<open>bitvec.c\<close> (a datatype whose union is a bitmap, a
      hash table or smaller Bitvecs); the locale \<open>number_set\<close> is its contract.

  \<^bold>\<open>How code is rendered.\<close> A \<open>char *\<close> that the code advances is the suffix it points at, or an index into
  the text where the code indexes; reading at the end of a text gives the NUL. Unsigned integers are
  words of their width and wrap around; signed ones are integers, with the conversion to a narrower type
  written out where the code relies on it (the accumulator of \<open>sqlite3Atoi64\<close>, which overflows, is a word). A loop is a recursive function of the variables it changes;
  \<open>exit\<close>, error codes and failing calls are values. Where the preprocessor offers versions, all are
  modelled. What the system calls see (the file system, the order of \<open>readdir\<close>) is an argument, and so is the
  parser that Lemon generates from the SQL grammar.

  \<^bold>\<open>What the lemmas show.\<close> For each component: an invariant of its state and that the operations keep it;
  what each operation computes, on error paths too; and where there is a standard (SHA-1, MD5, DES, the
  Montgomery product, cpio, the layout of boot images, the list of SQL keywords), that the code computes
  what a short reference definition says. Across components: the archive carries the permissions of
  \<open>fs_config\<close>, the boot image the digest of its parts, \<open>crypt\<close> verifies what it made whatever calls came
  in between, the shell and the parser of SQLite agree where a statement ends (but for a comment left open), and what \<open>%Q\<close> and
  the SQL function \<open>quote\<close> write is undone by tokenizer, \<open>sqlite3Dequote\<close> and \<open>sqlite3HexToBlob\<close>. Where a
  component keeps a set behind a data structure, it answers as the set does.

  \<^bold>\<open>Bounds and termination.\<close> Recursion is structural or comes with a measure (the
  rest of a text, the bits left in a number, the bytes left to write). Fuel is used in \<open>Sqlite_Bitvec\<close> only: the
  depth of \<open>sqlite3BitvecSet\<close>, at most two for each level of Bitvecs, whose sizes shrink, and one step for each slot of a
  table, which always has a free one. It suffices for all sizes but those where the code does not return. The width of \<open>long\<close> is an argument
  of \<open>Vercmp\<close>. Texts, keys and files are shorter than 2 GB where the code counts them in an \<open>int\<close>;
  such bounds are hypotheses of the theorems that need them, except for the message of \<open>SHA\<close> and the texts of the SQLite library, which
  keeps them within \<open>10 ^ 9\<close> bytes. Two loops may not end: that of \<open>__md5_Update\<close> for inputs close to 4 GiB, which is a
  \<open>partial_function\<close>, and the re-hashing of a Bitvec of more than \<open>2 ^ 32 - 125\<close> bits; lemmas show when they do.

  \<^bold>\<open>Not modelled.\<close>

    \<^item> The rest of the SQLite amalgamation: pager, B-tree, virtual machine, code generator, operating
      system layer, the other conversions of \<open>printf\<close>, floating point; in \<open>sqlite3RunParser\<close> the freeing of what the grammar
      left behind; who owns the memory of a value or of the entries of a RowSet. \<open>SQLITE_EBCDIC\<close> and other configurations than the one compiled here.
    \<^item> \<open>sqlite3BitvecBuiltinTest\<close>, an interpreter of test programs.
    \<^item> Headers copied from Android and BSD for the recipes (\<open>resolv_private.h\<close>, \<open>arpa_nameser.h\<close>, \<open>linker.h\<close>,
      \<open>ar.h\<close>): declarations with hardly any code.
    \<^item> The Ruby, Python and shell scripts (\<open>botbrew\<close>, \<open>opkg.py\<close>): they run downloads, compilers and
      packaging tools.
    \<^item> Failing \<open>malloc\<close> in the boot tools, output for the user, the parts of \<open>des.c\<close> under \<open>#if 0\<close>, and that
      \<open>crypt\<close> returns a static buffer that the next call overwrites.
\<close>

end
